(* ===== verification/Kerninst_Prelude.thy ===== *)
theory Kerninst_Prelude
  imports "HOL-Library.Word" "HOL-Library.Multiset"
begin

text \<open>
  Shared vocabulary of the development: the machine integers of the C sources, byte addressed
  kernel memory, the two list idioms the driver and the daemon use everywhere (a linear search
  that stops at the first match; deletion by moving the last entry into the hole), and
  null-terminated chains of array cells, with the generic facts the component theories rest on.
\<close>

unbundle bit_operations_syntax

section \<open>Machine types\<close>

type_synonym u8 = "8 word"
type_synonym u16 = "16 word"
type_synonym u32 = "32 word"
type_synonym u64 = "64 word"

text \<open>
  \<open>kptr_t\<close> of the i386 driver (\<open>kernInstIoctls.h\<close>) is a 32-bit unsigned integer, and kernel memory
  is a byte for every such address.
\<close>

type_synonym kptr = u32
type_synonym kmem = "kptr \<Rightarrow> u8"

named_theorems kmem_simps \<open>reading and writing byte ranges of kernel memory\<close>
named_theorems chain_simps \<open>null-terminated chains of array cells\<close>

section \<open>Byte ranges of kernel memory\<close>

text \<open>\<open>memcpy\<close> out of and into kernel memory; addresses wrap at 32 bits.\<close>

definition read_bytes :: "kmem \<Rightarrow> kptr \<Rightarrow> nat \<Rightarrow> u8 list" where
  "read_bytes m a n = map (\<lambda>i. m (a + of_nat i)) [0..<n]"

definition write_bytes :: "kmem \<Rightarrow> kptr \<Rightarrow> u8 list \<Rightarrow> kmem" where
  "write_bytes m a bs = (\<lambda>x. if unat (x - a) < length bs then bs ! unat (x - a) else m x)"

text \<open>The addresses of the \<open>n\<close> bytes from \<open>a\<close>.\<close>

definition byte_range :: "kptr \<Rightarrow> nat \<Rightarrow> kptr set" where
  "byte_range a n = {x. unat (x - a) < n}"

lemma length_read_bytes [simp]: "length (read_bytes m a n) = n"
  by (simp add: read_bytes_def)

lemma nth_read_bytes [simp]: "i < n \<Longrightarrow> read_bytes m a n ! i = m (a + of_nat i)"
  by (simp add: read_bytes_def)

lemma write_bytes_in [kmem_simps]:
  "x \<in> byte_range a (length bs) \<Longrightarrow> write_bytes m a bs x = bs ! unat (x - a)"
  by (simp add: write_bytes_def byte_range_def)

lemma write_bytes_out [kmem_simps]:
  "x \<notin> byte_range a (length bs) \<Longrightarrow> write_bytes m a bs x = m x"
  by (simp add: write_bytes_def byte_range_def)

lemma write_bytes_Nil [simp]: "write_bytes m a [] = m"
  by (rule ext) (simp add: write_bytes_def)

lemma unat_of_nat32 [simp]: "n < 2 ^ 32 \<Longrightarrow> unat (of_nat n :: u32) = n"
  by (simp add: unat_of_nat)

lemma unat_less32 [simp]: "unat (x :: u32) < 2 ^ 32"
  using unsigned_less [of x, where ?'a = nat] by simp

lemma offset_in_byte_range: "i < n \<Longrightarrow> n \<le> 2 ^ 32 \<Longrightarrow> a + of_nat i \<in> byte_range a n"
  by (simp add: byte_range_def)

lemma byte_range_mono: "n \<le> k \<Longrightarrow> byte_range a n \<subseteq> byte_range a k"
  by (auto simp: byte_range_def)

lemma read_write_same:
  assumes "length bs \<le> 2 ^ 32"
  shows "read_bytes (write_bytes m a bs) a (length bs) = bs"
proof (rule nth_equalityI)
  fix i assume "i < length (read_bytes (write_bytes m a bs) a (length bs))"
  then have i: "i < length bs" by simp
  with assms show "read_bytes (write_bytes m a bs) a (length bs) ! i = bs ! i"
    by (simp add: write_bytes_def)
qed simp

lemma write_read_bytes_at:
  "write_bytes m a (read_bytes m' a n) x = (if x \<in> byte_range a n then m' x else m x)"
proof (cases "x \<in> byte_range a n")
  case True
  then have "unat (x - a) < n" by (simp add: byte_range_def)
  then show ?thesis using True by (simp add: write_bytes_def word_of_nat_eq_0_iff)
next
  case False
  then show ?thesis by (simp add: write_bytes_def byte_range_def)
qed

lemma read_bytes_disjoint:
  assumes "byte_range a n \<inter> byte_range b (length bs) = {}" and "n \<le> 2 ^ 32"
  shows "read_bytes (write_bytes m b bs) a n = read_bytes m a n"
proof (rule nth_equalityI)
  fix i assume "i < length (read_bytes (write_bytes m b bs) a n)"
  then have i: "i < n" by simp
  then have "a + of_nat i \<notin> byte_range b (length bs)"
    using assms offset_in_byte_range [of i n a] by blast
  then show "read_bytes (write_bytes m b bs) a n ! i = read_bytes m a n ! i"
    using i by (simp add: write_bytes_out)
qed simp

lemma unat_sub_offset:
  fixes x a :: kptr
  assumes "n < 2 ^ 32"
  shows "unat (x - (a + of_nat n)) =
    (if n \<le> unat (x - a) then unat (x - a) - n else unat (x - a) + 2 ^ 32 - n)"
proof -
  have "unat (d - of_nat n) = (if n \<le> unat d then unat d - n else unat d + 2 ^ 32 - n)"
    for d :: kptr
    using assms by (simp add: unat_sub_if')
  moreover have "x - (a + of_nat n) = (x - a) - of_nat n" by simp
  ultimately show ?thesis by (simp only:)
qed

lemma byte_range_adjacent:
  assumes "k + n \<le> 2 ^ 32"
  shows "byte_range (a + of_nat k) n \<inter> byte_range a k = {}"
proof (cases "n = 0")
  case True
  then show ?thesis by (simp add: byte_range_def)
next
  case False
  with assms have "k < 2 ^ 32" by simp
  then show ?thesis using assms by (auto simp: byte_range_def unat_sub_offset split: if_splits)
qed

text \<open>A computable test that two ranges do not meet, on the circle of 32-bit addresses.\<close>

definition ranges_apart :: "kptr \<Rightarrow> nat \<Rightarrow> kptr \<Rightarrow> nat \<Rightarrow> bool" where
  "ranges_apart a n b k \<longleftrightarrow> n \<le> unat (b - a) \<and> k \<le> unat (a - b)"

lemma ranges_apart_disjoint:
  assumes "ranges_apart a n b k"
  shows "byte_range a n \<inter> byte_range b k = {}"
proof (rule ccontr)
  assume "byte_range a n \<inter> byte_range b k \<noteq> {}"
  then obtain x where x: "unat (x - a) < n" "unat (x - b) < k" by (auto simp: byte_range_def)
  let ?d = "b - a"
  have lt: "unat (x - a) < unat ?d" using x(1) assms by (simp add: ranges_apart_def)
  have "x - b = (x - a) - ?d" by simp
  then have "unat (x - b) = unat (x - a) + 2 ^ 32 - unat ?d"
    using lt unat_sub_if' [of "x - a" ?d] by simp
  moreover have "unat (a - b) = 2 ^ 32 - unat ?d"
    using lt unat_sub_if' [of 0 ?d] by simp
  ultimately show False using x(2) assms lt unat_less32 [of ?d] by (auto simp: ranges_apart_def)
qed

text \<open>A write followed by a write of the bytes just after it is one write.\<close>

lemma write_bytes_append:
  assumes "length bs + length cs \<le> 2 ^ 32"
  shows "write_bytes (write_bytes m a bs) (a + of_nat (length bs)) cs = write_bytes m a (bs @ cs)"
proof (cases "cs = []")
  case False
  with assms have "length bs < 2 ^ 32" by (cases cs) auto
  with assms show ?thesis
    by (intro ext) (auto simp: write_bytes_def unat_sub_offset nth_append)
qed simp

section \<open>Search and deletion in arrays\<close>

text \<open>\<open>for (i = 0; i < n; i++) if (P (a[i])) ...; break;\<close>: the index of the first match.\<close>

fun find_ndx :: "('a \<Rightarrow> bool) \<Rightarrow> 'a list \<Rightarrow> nat option" where
  "find_ndx P [] = None"
| "find_ndx P (x # xs) = (if P x then Some 0 else map_option Suc (find_ndx P xs))"

text \<open>The entry at \<open>i\<close> is overwritten by the last one and the array gets shorter by one.\<close>

definition swap_remove :: "nat \<Rightarrow> 'a list \<Rightarrow> 'a list" where
  "swap_remove i xs = butlast (xs[i := last xs])"

lemma find_ndx_None: "find_ndx P xs = None \<longleftrightarrow> (\<forall>x \<in> set xs. \<not> P x)"
  by (induction xs) auto

lemma find_ndx_snoc:
  "find_ndx P (xs @ [x]) =
    (case find_ndx P xs of None \<Rightarrow> if P x then Some (length xs) else None | Some i \<Rightarrow> Some i)"
  by (induction xs) (auto split: option.splits)

lemma find_ndx_SomeD:
  "find_ndx P xs = Some i \<Longrightarrow> i < length xs \<and> P (xs ! i) \<and> (\<forall>j < i. \<not> P (xs ! j))"
proof (induction xs arbitrary: i)
  case (Cons x xs)
  show ?case
  proof (cases "P x")
    case False
    with Cons.prems obtain k where k: "find_ndx P xs = Some k" "i = Suc k" by auto
    with Cons.IH [OF k(1)] False show ?thesis by (auto simp: nth_Cons split: nat.splits)
  qed (use Cons.prems in auto)
qed simp

lemma length_swap_remove [simp]: "length (swap_remove i xs) = length xs - 1"
  by (simp add: swap_remove_def)

lemma swap_remove_snoc:
  "swap_remove i (xs @ [x]) = (if i < length xs then xs[i := x] else xs)"
  by (auto simp: swap_remove_def list_update_append butlast_append not_less split: nat.splits
      dest!: le_Suc_ex)

lemma mset_swap_remove:
  assumes "i < length xs"
  shows "mset (swap_remove i xs) = mset xs - {#xs ! i#}"
proof -
  obtain ys y where xs: "xs = ys @ [y]" using assms by (cases xs rule: rev_cases) auto
  show ?thesis
  proof (cases "i < length ys")
    case True
    then show ?thesis
      by (simp add: xs swap_remove_snoc mset_update nth_append add_mset_diff_bothsides
          diff_add_mset_swap)
  next
    case False
    with assms xs have "i = length ys" by simp
    then show ?thesis by (simp add: xs swap_remove_snoc)
  qed
qed

lemma set_swap_remove_subset: "i < length xs \<Longrightarrow> set (swap_remove i xs) \<subseteq> set xs"
  by (metis in_diffD mset_swap_remove set_mset_mset subsetI)

lemma set_swap_remove_insert:
  assumes "i < length xs"
  shows "set xs = insert (xs ! i) (set (swap_remove i xs))"
proof -
  have "xs ! i \<in># mset xs" using assms by simp
  then have "mset xs = add_mset (xs ! i) (mset (swap_remove i xs))"
    using mset_swap_remove [OF assms] by simp
  then show ?thesis by (metis set_mset_add_mset_insert set_mset_mset)
qed

lemma set_swap_remove:
  assumes "i < length xs" and "distinct xs"
  shows "set (swap_remove i xs) = set xs - {xs ! i}"
proof -
  obtain ys y where "xs = ys @ [y]" using assms(1) by (cases xs rule: rev_cases) auto
  with assms show ?thesis
    by (auto simp: swap_remove_snoc set_update_distinct nth_append not_less less_Suc_eq
        split: if_splits)
qed

lemma map_swap_remove: "i < length xs \<Longrightarrow> map f (swap_remove i xs) = swap_remove i (map f xs)"
  by (cases xs rule: rev_cases) (auto simp: swap_remove_snoc map_update)

lemma distinct_swap_remove:
  assumes "i < length xs" and "distinct (map f xs)"
  shows "distinct (map f (swap_remove i xs))"
proof -
  obtain ys y where "xs = ys @ [y]" using assms(1) by (cases xs rule: rev_cases) auto
  with assms show ?thesis
    by (auto simp: map_swap_remove swap_remove_snoc map_update intro!: distinct_list_update)
qed

lemma find_filter: "(\<And>x. P x \<Longrightarrow> Q x) \<Longrightarrow> find P (filter Q xs) = find P xs"
  by (induction xs) auto

lemma find_SomeD: "find P xs = Some x \<Longrightarrow> x \<in> set xs \<and> P x"
  by (auto simp: find_Some_iff)

text \<open>Overwriting one entry changes the number of entries with a property by at most one.\<close>

lemma length_filter_update:
  "i < length xs \<Longrightarrow> length (filter P (xs[i := x])) + (if P (xs ! i) then 1 else 0) =
    length (filter P xs) + (if P x then 1 else 0)"
proof (induction xs arbitrary: i)
  case (Cons y ys)
  then show ?case by (cases i) (auto split: if_splits)
qed simp

section \<open>Null-terminated chains of array cells\<close>

text \<open>
  The driver links cells of a fixed array by a \<open>next\<close> pointer; a pointer into the array is the
  index of the cell and the null pointer is \<open>None\<close>. \<open>chain nx p is\<close> says that following \<open>nx\<close>
  from \<open>p\<close> visits exactly the cells \<open>is\<close> and then meets the null pointer.
\<close>

fun chain :: "(nat \<Rightarrow> nat option) \<Rightarrow> nat option \<Rightarrow> nat list \<Rightarrow> bool" where
  "chain nx p [] \<longleftrightarrow> p = None"
| "chain nx p (i # is) \<longleftrightarrow> p = Some i \<and> chain nx (nx i) is"

text \<open>\<open>while (p != NULL) { if (P p) return p; p = p->next; } return NULL;\<close>, which runs forever on
  a cyclic chain: \<open>None\<close> is not returning.\<close>

partial_function (option) chain_find ::
  "(nat \<Rightarrow> nat option) \<Rightarrow> (nat \<Rightarrow> bool) \<Rightarrow> nat option \<Rightarrow> nat option option" where
  "chain_find nx P p =
     (case p of None \<Rightarrow> Some None
      | Some i \<Rightarrow> if P i then Some (Some i) else chain_find nx P (nx i))"

lemma chain_None [simp]: "chain nx None is \<longleftrightarrow> is = []"
  by (cases "is") auto

lemma chain_Some: "chain nx (Some i) is \<longleftrightarrow> (\<exists>js. is = i # js \<and> chain nx (nx i) js)"
  by (cases "is") auto

lemma chain_unique: "chain nx p is \<Longrightarrow> chain nx p js \<Longrightarrow> is = js"
  by (induction "is" arbitrary: p js) (auto simp: chain_Some)

lemma chain_cong:
  "(\<And>i. i \<in> set is \<Longrightarrow> nx i = nx' i) \<Longrightarrow> chain nx p is \<longleftrightarrow> chain nx' p is"
  by (induction "is" arbitrary: p) auto

lemma chain_upd [simp]: "j \<notin> set is \<Longrightarrow> chain (nx(j := v)) p is \<longleftrightarrow> chain nx p is"
  by (rule chain_cong) auto

lemma chain_find_eq: "chain nx p is \<Longrightarrow> chain_find nx P p = Some (find P is)"
  by (induction "is" arbitrary: p) (auto simp: chain_find.simps)

text \<open>\<open>while (p != NULL) { ...; p = p->next; }\<close>, with what the body does to the state \<open>acc\<close>.\<close>

partial_function (option) chain_fold ::
  "(nat \<Rightarrow> nat option) \<Rightarrow> (nat \<Rightarrow> 'b \<Rightarrow> 'b) \<Rightarrow> nat option \<Rightarrow> 'b \<Rightarrow> 'b option" where
  "chain_fold nx f p acc =
     (case p of None \<Rightarrow> Some acc | Some i \<Rightarrow> chain_fold nx f (nx i) (f i acc))"

lemma chain_fold_eq: "chain nx p is \<Longrightarrow> chain_fold nx f p acc = Some (fold f is acc)"
  by (induction "is" arbitrary: p acc) (auto simp: chain_fold.simps)

lemma chain_last_None: "chain nx (nx h) is \<Longrightarrow> nx (last (h # is)) = None"
  by (induction "is" arbitrary: h) auto

text \<open>Appending a cell behind the last one; \<open>h\<close> is the header cell the chain hangs from.\<close>

lemma chain_snoc:
  assumes "chain nx (nx h) is" and "distinct (h # is)" and "j \<notin> set (h # is)"
  shows "chain (nx(last (h # is) := Some j, j := None)) ((nx(last (h # is) := Some j, j := None)) h) (is @ [j])"
  using assms
proof (induction "is" arbitrary: h)
  case (Cons i "is")
  let ?nx = "nx(last (i # is) := Some j, j := None)"
  have "chain ?nx (?nx i) (is @ [j])" by (rule Cons.IH) (use Cons.prems in auto)
  moreover have "?nx h = Some i" using Cons.prems by (cases "is = []") auto
  ultimately show ?case by (simp only: last_ConsR list.distinct(1) not_False_eq_True chain.simps append_Cons) simp
qed simp

section \<open>Runs of requests\<close>

text \<open>A sequence of requests to a component; \<open>None\<close> as soon as one of them faults.\<close>

fun run_ops :: "('op \<Rightarrow> 's \<Rightarrow> 's option) \<Rightarrow> 'op list \<Rightarrow> 's \<Rightarrow> 's option" where
  "run_ops step [] s = Some s"
| "run_ops step (x # xs) s = (case step x s of None \<Rightarrow> None | Some s' \<Rightarrow> run_ops step xs s')"

text \<open>
  The contract between a component and whoever sends it requests: a request \<open>ok\<close> allows, in a
  state of the invariant, does not fault and keeps the invariant.
\<close>

locale guarded_machine =
  fixes step :: "'op \<Rightarrow> 's \<Rightarrow> 's option" and ok :: "'op \<Rightarrow> bool" and inv :: "'s \<Rightarrow> bool"
  assumes progress: "ok x \<Longrightarrow> inv s \<Longrightarrow> \<exists>s'. step x s = Some s' \<and> inv s'"
begin

lemma run_total: "list_all ok xs \<Longrightarrow> inv s \<Longrightarrow> \<exists>s'. run_ops step xs s = Some s' \<and> inv s'"
proof (induction xs arbitrary: s)
  case (Cons x xs)
  then obtain s1 where "step x s = Some s1" "inv s1" using progress [of x s] by auto
  with Cons show ?case by auto
qed simp

lemma run_inv: "list_all ok xs \<Longrightarrow> inv s \<Longrightarrow> run_ops step xs s = Some s' \<Longrightarrow> inv s'"
  using run_total by fastforce

end

section \<open>Pools of preallocated items\<close>

text \<open>
  The contract of a pool of items \<open>U\<close>: an item it hands out was free and no longer is, an item
  given back is free again, and it refuses only when nothing is free. Several components of the
  driver and of the daemon keep such a pool in very different ways.
\<close>

datatype 'a pool_op = PGet | PPut 'a

text \<open>A client that gives back only what it holds; \<open>held\<close> are the items it has.\<close>

fun pool_client ::
  "('s \<Rightarrow> ('a \<times> 's) option) \<Rightarrow> ('a \<Rightarrow> 's \<Rightarrow> 's) \<Rightarrow> 'a pool_op \<Rightarrow> 's \<times> 'a list \<Rightarrow> 's \<times> 'a list" where
  "pool_client get put PGet (s, held) =
     (case get s of None \<Rightarrow> (s, held) | Some (x, s') \<Rightarrow> (s', x # held))"
| "pool_client get put (PPut x) (s, held) =
     (if x \<in> set held then (put x s, remove1 x held) else (s, held))"

text \<open>No item is in two hands, and none is lost.\<close>

definition pool_balanced ::
  "('s \<Rightarrow> 'a set) \<Rightarrow> ('s \<Rightarrow> bool) \<Rightarrow> 'a set \<Rightarrow> 's \<times> 'a list \<Rightarrow> bool" where
  "pool_balanced avail pinv U p \<longleftrightarrow> pinv (fst p) \<and> distinct (snd p) \<and>
     set (snd p) \<inter> avail (fst p) = {} \<and> set (snd p) \<union> avail (fst p) = U"

locale pool =
  fixes get :: "'s \<Rightarrow> ('a \<times> 's) option" and put :: "'a \<Rightarrow> 's \<Rightarrow> 's"
    and avail :: "'s \<Rightarrow> 'a set" and pinv :: "'s \<Rightarrow> bool" and U :: "'a set"
  assumes get_None: "pinv s \<Longrightarrow> get s = None \<Longrightarrow> avail s = {}"
    and get_Some: "pinv s \<Longrightarrow> get s = Some (x, s') \<Longrightarrow>
      x \<in> avail s \<and> avail s' = avail s - {x} \<and> pinv s'"
    and put_back: "pinv s \<Longrightarrow> x \<in> U \<Longrightarrow> x \<notin> avail s \<Longrightarrow>
      avail (put x s) = insert x (avail s) \<and> pinv (put x s)"
begin

lemma client_balanced: "pool_balanced avail pinv U p \<Longrightarrow> pool_balanced avail pinv U (pool_client get put x p)"
proof (cases x)
  case PGet
  assume b: "pool_balanced avail pinv U p"
  obtain s held where p: "p = (s, held)" by (cases p)
  show ?thesis
  proof (cases "get s")
    case None
    then show ?thesis using b p PGet by simp
  next
    case (Some ys)
    obtain y s' where ys: "ys = (y, s')" by (cases ys)
    have "y \<in> avail s \<and> avail s' = avail s - {y} \<and> pinv s'"
      using get_Some [of s y s'] b p Some ys by (simp add: pool_balanced_def)
    then show ?thesis using b p PGet Some ys by (auto simp: pool_balanced_def)
  qed
next
  case (PPut y)
  assume b: "pool_balanced avail pinv U p"
  obtain s held where p: "p = (s, held)" by (cases p)
  show ?thesis
  proof (cases "y \<in> set held")
    case True
    then have "y \<in> U" "y \<notin> avail s" "pinv s" using b p by (auto simp: pool_balanced_def)
    then have "avail (put y s) = insert y (avail s) \<and> pinv (put y s)" by (intro put_back)
    then show ?thesis using b p PPut True by (auto simp: pool_balanced_def)
  next
    case False
    then show ?thesis using b p PPut by simp
  qed
qed

text \<open>However long it is used, no item is handed to two holders at once, and none is lost.\<close>

lemma run_balanced:
  assumes "pinv s" and "avail s = U"
  shows "pool_balanced avail pinv U (fold (pool_client get put) ops (s, []))"
proof -
  have "pool_balanced avail pinv U p \<Longrightarrow> pool_balanced avail pinv U (fold (pool_client get put) ops p)" for p
  proof (induction ops arbitrary: p)
    case (Cons x xs)
    from Cons.IH [OF client_balanced [OF Cons.prems]] show ?case by simp
  qed simp
  then show ?thesis using assms by (simp add: pool_balanced_def)
qed

lemma refuses_only_when_empty:
  assumes "pinv s" and "avail s = U" and "fold (pool_client get put) ops (s, []) = (s', held)"
    and "get s' = None"
  shows "set held = U"
  using run_balanced [OF assms(1,2), of ops] assms(3,4) get_None [of s']
  by (simp add: pool_balanced_def)

end

end
