(* ===== verification/LoggedWrites.thy ===== *)
theory LoggedWrites
  imports Kerninst_Prelude
begin

text \<open>
  The undo log of the Linux driver (\<open>kerninstdriver-linux/src/physMem.c\<close> and \<open>loggedWrites.c\<close>,
  i386 build): every instruction the daemon splices into the kernel is written through
  \<open>write1Insn\<close>, an undoable write first saves the original bytes, and closing the device writes
  all of them back. The log is the list of the first \<open>num_writes\<close> entries of the C array.
  \<open>None\<close> as the result of an operation is undefined behaviour of the C code: a read past the
  end of a buffer, an overflow of the 16-byte buffer of \<open>do_atomic_write\<close>, or a store through
  the null pointer of a failed \<open>kmalloc\<close>. Messages to the kernel log are not modelled.
\<close>

section \<open>Writing one instruction\<close>

definition KERNINST_ENABLE_UNDOMEMORY :: u32 where
  "KERNINST_ENABLE_UNDOMEMORY = push_bit 1 1"

text \<open>\<open>lock; cmpxchg\<close> and \<open>lock; cmpxchg8b\<close>: the store happens when memory still holds \<open>old\<close>.\<close>

definition cmpxchg :: "kmem \<Rightarrow> kptr \<Rightarrow> u8 list \<Rightarrow> u8 list \<Rightarrow> kmem" where
  "cmpxchg m dest old new =
     (if read_bytes m dest (length old) = old then write_bytes m dest new else m)"

definition do_atomic_write :: "kmem \<Rightarrow> kptr \<Rightarrow> u8 list \<Rightarrow> nat \<Rightarrow> kmem option" where
  "do_atomic_write m dest from len =
     (if length from < len \<or> 16 < len then None
      else
        let write_length = (if len > 4 then (if len \<le> 8 then 8 else 16) else 4);
            buff = (if len < write_length
                    then take len from @ read_bytes m (dest + of_nat len) (write_length - len)
                    else take len from)
        in Some
          (if write_length = 4 then
             (if dest mod 4 = 0 then write_bytes m dest buff
              else cmpxchg m dest (read_bytes m dest 4) buff)
           else if write_length = 8 then cmpxchg m dest (read_bytes m dest 8) buff
           else
             let m1 = cmpxchg m dest (read_bytes m dest 8) (take 8 buff)
             in cmpxchg m1 (dest + 8) (read_bytes m1 (dest + 8) 8) (drop 8 buff)))"

definition write1Insn :: "u32 \<Rightarrow> kmem \<Rightarrow> kptr \<Rightarrow> u8 list \<Rightarrow> nat \<Rightarrow> kmem option" where
  "write1Insn enable_bits m a val len =
     (if enable_bits AND KERNINST_ENABLE_UNDOMEMORY \<noteq> 0 then
        (if len > 1 then do_atomic_write m a val len
         else (case val of [] \<Rightarrow> None | v # _ \<Rightarrow> Some (m(a := v))))
      else Some m)"

section \<open>The log\<close>

record oneWrite =
  ow_addr :: kptr
  ow_origval :: "u8 list"
  ow_length :: nat
  ow_howsoon :: u32

definition MAX_WRITES :: nat where
  "MAX_WRITES = 1024"

definition undo_blind :: "u32 \<Rightarrow> kmem \<Rightarrow> oneWrite \<Rightarrow> kmem option" where
  "undo_blind enable_bits m w = write1Insn enable_bits m (ow_addr w) (ow_origval w) (ow_length w)"

text \<open>The comparison of the saved bytes with the caller's copy only prints a message.\<close>

definition undo_write :: "u32 \<Rightarrow> kmem \<Rightarrow> oneWrite \<Rightarrow> u8 list \<Rightarrow> kmem option" where
  "undo_write enable_bits m w oldval_to_set_to =
     (if length oldval_to_set_to < ow_length w then None else undo_blind enable_bits m w)"

text \<open>
  A \<open>loggedWrites *\<close>: \<open>None\<close> is the null pointer, \<open>Some None\<close> a structure whose array could not be
  allocated. The two flags say whether the two calls of \<open>kmalloc\<close> succeed.
\<close>

definition initialize_logged_writes :: "bool \<Rightarrow> bool \<Rightarrow> oneWrite list option option" where
  "initialize_logged_writes struct_ok array_ok =
     (if struct_ok then Some (if array_ok then Some [] else None) else None)"

text \<open>One of the two loops of \<open>destroy_logged_writes\<close>: undo the entries \<open>P\<close> selects, in order.\<close>

fun destroy_pass ::
  "(u32 \<Rightarrow> bool) \<Rightarrow> u32 \<Rightarrow> oneWrite list \<Rightarrow> kmem \<Rightarrow> kmem option" where
  "destroy_pass P enable_bits [] m = Some m"
| "destroy_pass P enable_bits (w # ws) m =
     (if P (ow_howsoon w) then
        (case undo_blind enable_bits m w of
           None \<Rightarrow> None
         | Some m' \<Rightarrow> destroy_pass P enable_bits ws m')
      else destroy_pass P enable_bits ws m)"

definition destroy_logged_writes ::
  "u32 \<Rightarrow> oneWrite list option option \<Rightarrow> kmem \<Rightarrow> kmem option" where
  "destroy_logged_writes enable_bits lw m =
     (case lw of
        Some (Some ws) \<Rightarrow>
          (case destroy_pass (\<lambda>h. h = 0) enable_bits ws m of
             None \<Rightarrow> None
           | Some m' \<Rightarrow> destroy_pass (\<lambda>h. h \<noteq> 0) enable_bits ws m')
      | _ \<Rightarrow> Some m)"

text \<open>
  The result is the return value, memory, the log and what was stored through \<open>oldval_fillin\<close>
  (\<open>None\<close>: nothing). \<open>alloc_ok\<close>: \<open>kmalloc(length)\<close> succeeds.
\<close>

definition LW_performUndoableWrite ::
  "u32 \<Rightarrow> bool \<Rightarrow> kmem \<Rightarrow> oneWrite list \<Rightarrow> kptr \<Rightarrow> nat \<Rightarrow> u8 list \<Rightarrow> u32
     \<Rightarrow> (int \<times> kmem \<times> oneWrite list \<times> u8 list option) option" where
  "LW_performUndoableWrite enable_bits alloc_ok m ws a len val howSoon =
     (case find_ndx (\<lambda>w. ow_addr w = a) ws of
        None \<Rightarrow>
          if length ws = MAX_WRITES then Some (1, m, ws, None)
          else if \<not> alloc_ok then None
          else
            let orig = read_bytes m a len;
                w = \<lparr>ow_addr = a, ow_origval = orig, ow_length = len, ow_howsoon = howSoon\<rparr>
            in (case write1Insn enable_bits m a val len of
                  None \<Rightarrow> None
                | Some m' \<Rightarrow> Some (0, m', ws @ [w], Some orig))
      | Some i \<Rightarrow>
          (case write1Insn enable_bits m a val len of
             None \<Rightarrow> None
           | Some m' \<Rightarrow> Some (0, m', ws, None)))"

definition LW_undoWrite1Insn ::
  "u32 \<Rightarrow> kmem \<Rightarrow> oneWrite list \<Rightarrow> kptr \<Rightarrow> nat \<Rightarrow> u8 list \<Rightarrow>
     (int \<times> kmem \<times> oneWrite list) option" where
  "LW_undoWrite1Insn enable_bits m ws a len oldval_to_set_to =
     (case find_ndx (\<lambda>w. ow_addr w = a) ws of
        None \<Rightarrow> Some (1, m, ws)
      | Some i \<Rightarrow>
          (case undo_write enable_bits m (ws ! i) oldval_to_set_to of
             None \<Rightarrow> None
           | Some m' \<Rightarrow> Some (0, m', swap_remove i ws)))"

definition LW_changeUndoableWriteHowSoon ::
  "oneWrite list \<Rightarrow> kptr \<Rightarrow> u32 \<Rightarrow> int \<times> oneWrite list" where
  "LW_changeUndoableWriteHowSoon ws a howSoon =
     (case find_ndx (\<lambda>w. ow_addr w = a) ws of
        None \<Rightarrow> (1, ws)
      | Some i \<Rightarrow> (0, ws[i := (ws ! i)\<lparr>ow_howsoon := howSoon\<rparr>]))"

section \<open>Runs of logged operations\<close>

text \<open>The three requests a connection makes of its log; a run of them is \<open>run_ops (lw_step en)\<close>.\<close>

datatype lw_op =
    PerformWrite kptr nat "u8 list" u32
  | UndoWrite kptr nat "u8 list"
  | ChangeHowSoon kptr u32

fun lw_step :: "u32 \<Rightarrow> lw_op \<Rightarrow> kmem \<times> oneWrite list \<Rightarrow> (kmem \<times> oneWrite list) option" where
  "lw_step en (PerformWrite a n val h) (m, ws) =
     map_option (\<lambda>(r, m', ws', old). (m', ws')) (LW_performUndoableWrite en True m ws a n val h)"
| "lw_step en (UndoWrite a n old) (m, ws) =
     map_option (\<lambda>(r, m', ws'). (m', ws')) (LW_undoWrite1Insn en m ws a n old)"
| "lw_step en (ChangeHowSoon a h) (m, ws) = Some (m, snd (LW_changeUndoableWriteHowSoon ws a h))"

section \<open>One write, byte by byte\<close>

lemma cmpxchg_fresh [simp]:
  "cmpxchg m dest (read_bytes m dest n) new = write_bytes m dest new"
  by (simp add: cmpxchg_def)

text \<open>Writing a range back with the bytes memory already holds changes nothing there.\<close>

lemma write_padded:
  assumes "length bs + n \<le> 2 ^ 32"
  shows "write_bytes m a (bs @ read_bytes m (a + of_nat (length bs)) n) = write_bytes m a bs"
proof -
  let ?m1 = "write_bytes m a bs"
  let ?b = "a + of_nat (length bs)"
  have "write_bytes m a (bs @ read_bytes m ?b n) = write_bytes ?m1 ?b (read_bytes m ?b n)"
    using assms by (simp add: write_bytes_append)
  also have "\<dots> = ?m1"
  proof (rule ext)
    fix x
    show "write_bytes ?m1 ?b (read_bytes m ?b n) x = ?m1 x"
    proof (cases "x \<in> byte_range ?b n")
      case True
      then have "x \<notin> byte_range a (length bs)" using byte_range_adjacent [OF assms] by blast
      then show ?thesis using True by (simp add: write_read_bytes_at write_bytes_out)
    qed (simp add: write_read_bytes_at)
  qed
  finally show ?thesis .
qed

text \<open>
  The padded 4-, 8- or 16-byte stores of \<open>do_atomic_write\<close> have the effect of a plain copy of
  the requested bytes.
\<close>

lemma do_atomic_write_eq:
  assumes "len \<le> 16" and "len \<le> length val"
  shows "do_atomic_write m a val len = Some (write_bytes m a (take len val))"
proof -
  let ?bs = "take len val"
  have pad: "write_bytes m a (?bs @ read_bytes m (a + of_nat len) k) = write_bytes m a ?bs"
    if "k \<le> 16" for k
    using write_padded [of ?bs k m a] assms that by simp
  have two: "write_bytes (write_bytes m a (take 8 cs)) (a + 8) (drop 8 cs) = write_bytes m a cs"
    if "length cs = 16" for cs
    using write_bytes_append [of "take 8 cs" "drop 8 cs" m a] that by simp
  show ?thesis
    using assms pad [of "4 - len"] pad [of "8 - len"] pad [of "16 - len"]
    by (auto simp: do_atomic_write_def Let_def two)
qed

lemma write1Insn_eq:
  assumes "en AND KERNINST_ENABLE_UNDOMEMORY \<noteq> 0"
    and "1 \<le> len" and "len \<le> 16" and "len \<le> length val"
  shows "write1Insn en m a val len = Some (write_bytes m a (take len val))"
proof (cases "len = 1")
  case True
  with assms obtain v vs where "val = v # vs" by (cases val) auto
  with True assms show ?thesis by (auto simp: write1Insn_def write_bytes_def unat_eq_zero fun_eq_iff)
next
  case False
  with assms show ?thesis by (simp add: write1Insn_def do_atomic_write_eq)
qed

section \<open>The log against the memory it protects\<close>

text \<open>
  \<open>lw_inv m0 m ws\<close>: every entry holds the bytes of \<open>m0\<close>, the memory of the kernel as the
  connection found it; entries are for different, non-overlapping ranges; and memory differs from
  \<open>m0\<close> at most where an entry says so.
\<close>

definition ow_range :: "oneWrite \<Rightarrow> kptr set" where
  "ow_range w = byte_range (ow_addr w) (ow_length w)"

definition ow_ok :: "kmem \<Rightarrow> oneWrite \<Rightarrow> bool" where
  "ow_ok m0 w \<longleftrightarrow> 1 \<le> ow_length w \<and> ow_length w \<le> 16 \<and>
     ow_origval w = read_bytes m0 (ow_addr w) (ow_length w)"

definition lw_inv :: "kmem \<Rightarrow> kmem \<Rightarrow> oneWrite list \<Rightarrow> bool" where
  "lw_inv m0 m ws \<longleftrightarrow>
     length ws \<le> MAX_WRITES \<and>
     distinct (map ow_addr ws) \<and>
     (\<forall>w \<in> set ws. ow_ok m0 w) \<and>
     (\<forall>w \<in> set ws. \<forall>v \<in> set ws. ow_addr w \<noteq> ow_addr v \<longrightarrow> ow_range w \<inter> ow_range v = {}) \<and>
     (\<forall>x. (\<forall>w \<in> set ws. x \<notin> ow_range w) \<longrightarrow> m x = m0 x)"

text \<open>A request that fits the log: a repeated address with no more bytes than were saved, or a
  range that meets no saved range.\<close>

definition lw_fits :: "oneWrite list \<Rightarrow> kptr \<Rightarrow> nat \<Rightarrow> u8 list \<Rightarrow> bool" where
  "lw_fits ws a n val \<longleftrightarrow> 1 \<le> n \<and> n \<le> 16 \<and> n \<le> length val \<and>
     (\<forall>w \<in> set ws. if ow_addr w = a then n \<le> ow_length w else byte_range a n \<inter> ow_range w = {})"

lemma undo_blind_eq:
  assumes "en AND KERNINST_ENABLE_UNDOMEMORY \<noteq> 0" and "ow_ok m0 w"
  shows "undo_blind en m w = Some (\<lambda>x. if x \<in> ow_range w then m0 x else m x)"
  using assms
  by (simp add: undo_blind_def write1Insn_eq ow_ok_def ow_range_def write_read_bytes_at fun_eq_iff)

lemma destroy_pass_eq:
  assumes "en AND KERNINST_ENABLE_UNDOMEMORY \<noteq> 0" and "\<forall>w \<in> set ws. ow_ok m0 w"
  shows "destroy_pass P en ws m =
    Some (\<lambda>x. if \<exists>w \<in> set ws. P (ow_howsoon w) \<and> x \<in> ow_range w then m0 x else m x)"
  using assms
proof (induction ws arbitrary: m)
  case (Cons w ws)
  then show ?case by (auto simp: undo_blind_eq fun_eq_iff)
qed simp

text \<open>Closing a connection whose log satisfies the invariant gives back the original memory.\<close>

lemma destroy_restores:
  assumes "en AND KERNINST_ENABLE_UNDOMEMORY \<noteq> 0" and "lw_inv m0 m ws"
  shows "destroy_logged_writes en (Some (Some ws)) m = Some m0"
proof -
  have ok: "\<forall>w \<in> set ws. ow_ok m0 w" and
    frame: "\<And>x. \<forall>w \<in> set ws. x \<notin> ow_range w \<Longrightarrow> m x = m0 x"
    using assms(2) by (auto simp: lw_inv_def)
  show ?thesis
    using frame
    by (fastforce simp: destroy_logged_writes_def destroy_pass_eq [OF assms(1) ok] fun_eq_iff)
qed

lemma lw_inv_frame:
  assumes "lw_inv m0 m ws" and "\<And>w. w \<in> set ws \<Longrightarrow> x \<notin> ow_range w"
  shows "m x = m0 x"
  using assms by (auto simp: lw_inv_def)

lemma lw_inv_init: "lw_inv m0 m0 []"
  by (simp add: lw_inv_def)

lemma lw_inv_perform:
  assumes en: "en AND KERNINST_ENABLE_UNDOMEMORY \<noteq> 0"
    and inv: "lw_inv m0 m ws" and fits: "lw_fits ws a n val"
  shows "\<exists>r m' ws' old. LW_performUndoableWrite en True m ws a n val h = Some (r, m', ws', old) \<and>
    lw_inv m0 m' ws'"
proof (cases "find_ndx (\<lambda>w. ow_addr w = a) ws")
  case None
  then have new: "\<forall>w \<in> set ws. ow_addr w \<noteq> a" by (simp add: find_ndx_None)
  have n: "1 \<le> n" "n \<le> 16" "n \<le> length val" using fits by (auto simp: lw_fits_def)
  have disj: "\<forall>w \<in> set ws. byte_range a n \<inter> ow_range w = {}"
    using fits new by (auto simp: lw_fits_def split: if_splits)
  show ?thesis
  proof (cases "length ws = MAX_WRITES")
    case True
    with None inv show ?thesis by (simp add: LW_performUndoableWrite_def)
  next
    case False
    let ?w = "\<lparr>ow_addr = a, ow_origval = read_bytes m a n, ow_length = n, ow_howsoon = h\<rparr>"
    let ?m' = "write_bytes m a (take n val)"
    have "read_bytes m a n = read_bytes m0 a n"
    proof (rule nth_equalityI)
      fix i assume i: "i < length (read_bytes m a n)"
      then have "a + of_nat i \<in> byte_range a n" using n by (intro offset_in_byte_range) auto
      then have "m (a + of_nat i) = m0 (a + of_nat i)"
        using disj by (intro lw_inv_frame [OF inv]) auto
      then show "read_bytes m a n ! i = read_bytes m0 a n ! i" using i by simp
    qed simp
    then have "ow_ok m0 ?w" using n by (simp add: ow_ok_def)
    moreover have "?m' x = m0 x" if "\<forall>w \<in> set (ws @ [?w]). x \<notin> ow_range w" for x
      using that inv n by (auto simp: lw_inv_def ow_range_def write_bytes_out)
    ultimately have "lw_inv m0 ?m' (ws @ [?w])"
      using inv False new disj by (auto simp: lw_inv_def ow_range_def)
    then show ?thesis using None False en n
      by (simp add: LW_performUndoableWrite_def write1Insn_eq Let_def)
  qed
next
  case (Some i)
  then have i: "i < length ws" "ow_addr (ws ! i) = a" using find_ndx_SomeD [OF Some] by auto
  then have "n \<le> ow_length (ws ! i)" using fits by (auto simp: lw_fits_def)
  then have sub: "byte_range a n \<subseteq> ow_range (ws ! i)"
    using i byte_range_mono by (auto simp: ow_range_def)
  have n: "1 \<le> n" "n \<le> 16" "n \<le> length val" using fits by (auto simp: lw_fits_def)
  let ?m' = "write_bytes m a (take n val)"
  have "?m' x = m0 x" if "\<forall>w \<in> set ws. x \<notin> ow_range w" for x
  proof -
    have "x \<notin> byte_range a n" using that sub i by auto
    then show ?thesis using that n by (simp add: write_bytes_out lw_inv_frame [OF inv])
  qed
  then have "lw_inv m0 ?m' ws" using inv by (auto simp: lw_inv_def)
  then show ?thesis using Some en n by (simp add: LW_performUndoableWrite_def write1Insn_eq)
qed

text \<open>Undoing one write puts its bytes back and drops its entry, which moves the last one down.\<close>

lemma lw_inv_undo:
  assumes en: "en AND KERNINST_ENABLE_UNDOMEMORY \<noteq> 0" and inv: "lw_inv m0 m ws"
    and i: "find_ndx (\<lambda>w. ow_addr w = a) ws = Some i" and old: "ow_length (ws ! i) \<le> length old"
  defines "m' \<equiv> \<lambda>x. if x \<in> ow_range (ws ! i) then m0 x else m x"
  shows "LW_undoWrite1Insn en m ws a n old = Some (0, m', swap_remove i ws)"
    and "lw_inv m0 m' (swap_remove i ws)"
proof -
  have bnd: "i < length ws" using find_ndx_SomeD [OF i] by simp
  then have ok: "ow_ok m0 (ws ! i)" using inv by (simp add: lw_inv_def)
  show "LW_undoWrite1Insn en m ws a n old = Some (0, m', swap_remove i ws)"
    using i old undo_blind_eq [OF en ok]
    by (simp add: LW_undoWrite1Insn_def undo_write_def m'_def)
  have sub: "set (swap_remove i ws) \<subseteq> set ws" using bnd by (rule set_swap_remove_subset)
  have dist: "distinct (map ow_addr (swap_remove i ws))"
    using inv bnd by (intro distinct_swap_remove) (auto simp: lw_inv_def)
  have frame: "m' x = m0 x" if "\<forall>w \<in> set (swap_remove i ws). x \<notin> ow_range w" for x
  proof -
    have "set ws = insert (ws ! i) (set (swap_remove i ws))"
      using bnd by (rule set_swap_remove_insert)
    then show ?thesis using that by (auto simp: m'_def intro!: lw_inv_frame [OF inv])
  qed
  have "length (swap_remove i ws) \<le> MAX_WRITES"
    using inv by (auto simp: lw_inv_def length_swap_remove)
  then show "lw_inv m0 m' (swap_remove i ws)"
    using inv sub dist frame unfolding lw_inv_def by blast
qed

text \<open>The invariant does not depend on the \<open>howsoon\<close> fields.\<close>

lemma lw_inv_howsoon: "lw_inv m0 m (map (ow_howsoon_update (\<lambda>_. 0)) ws) = lw_inv m0 m ws"
  by (simp add: lw_inv_def ow_ok_def ow_range_def comp_def)

lemma change_only_howsoon:
  "map (ow_howsoon_update (\<lambda>_. 0)) (snd (LW_changeUndoableWriteHowSoon ws a h)) =
    map (ow_howsoon_update (\<lambda>_. 0)) ws"
  by (auto simp: LW_changeUndoableWriteHowSoon_def map_update list_update_same_conv
      split: option.splits dest!: find_ndx_SomeD)

lemma lw_inv_change:
  assumes "lw_inv m0 m ws"
  shows "lw_inv m0 m (snd (LW_changeUndoableWriteHowSoon ws a h))"
  using assms lw_inv_howsoon [of m0 m] by (metis change_only_howsoon)

section \<open>A whole connection\<close>

text \<open>
  The discipline the daemon keeps: one length for each address it patches, patches that do not
  overlap, and buffers of at least that length.
\<close>

fun lw_op_addr :: "lw_op \<Rightarrow> kptr" where
  "lw_op_addr (PerformWrite a n val h) = a"
| "lw_op_addr (UndoWrite a n old) = a"
| "lw_op_addr (ChangeHowSoon a h) = a"

fun lw_op_ok :: "(kptr \<Rightarrow> nat) \<Rightarrow> lw_op \<Rightarrow> bool" where
  "lw_op_ok lens (PerformWrite a n val h) \<longleftrightarrow> n = lens a \<and> 1 \<le> n \<and> n \<le> 16 \<and> n \<le> length val"
| "lw_op_ok lens (UndoWrite a n old) \<longleftrightarrow> lens a \<le> length old"
| "lw_op_ok lens (ChangeHowSoon a h) \<longleftrightarrow> True"

definition lw_disciplined :: "(kptr \<Rightarrow> nat) \<Rightarrow> lw_op list \<Rightarrow> bool" where
  "lw_disciplined lens ops \<longleftrightarrow>
     list_all (lw_op_ok lens) ops \<and>
     list_all (\<lambda>p. list_all (\<lambda>q. lw_op_addr p = lw_op_addr q \<or>
       ranges_apart (lw_op_addr p) (lens (lw_op_addr p)) (lw_op_addr q) (lens (lw_op_addr q))) ops) ops"

definition lw_sized :: "(kptr \<Rightarrow> nat) \<Rightarrow> kptr set \<Rightarrow> oneWrite list \<Rightarrow> bool" where
  "lw_sized lens A ws \<longleftrightarrow> (\<forall>w \<in> set ws. ow_addr w \<in> A \<and> ow_length w = lens (ow_addr w))"

lemma lw_sized_howsoon: "lw_sized lens A (map (ow_howsoon_update (\<lambda>_. 0)) ws) = lw_sized lens A ws"
  by (simp add: lw_sized_def)

lemma lw_step_sized:
  assumes "lw_step en x (m, ws) = Some (m', ws')" and "lw_sized lens A ws"
    and "lw_op_addr x \<in> A" and "lw_op_ok lens x"
  shows "lw_sized lens A ws'"
proof (cases x)
  case (PerformWrite a n val h)
  then show ?thesis using assms
    by (auto simp: LW_performUndoableWrite_def lw_sized_def Let_def split: option.splits if_splits)
next
  case (UndoWrite a n old)
  then have "set ws' \<subseteq> set ws" using assms(1)
    by (auto simp: LW_undoWrite1Insn_def split: option.splits
        dest!: find_ndx_SomeD set_swap_remove_subset [THEN subsetD, rotated])
  then show ?thesis using assms(2) by (auto simp: lw_sized_def)
next
  case (ChangeHowSoon a h)
  then have "map (ow_howsoon_update (\<lambda>_. 0)) ws' = map (ow_howsoon_update (\<lambda>_. 0)) ws"
    using assms(1) change_only_howsoon by auto
  then show ?thesis using assms(2) lw_sized_howsoon by metis
qed

lemma lw_step_inv:
  assumes en: "en AND KERNINST_ENABLE_UNDOMEMORY \<noteq> 0" and inv: "lw_inv m0 m ws"
    and sized: "lw_sized lens A ws" and x: "lw_op_addr x \<in> A" "lw_op_ok lens x"
    and apart: "\<And>a b. a \<in> A \<Longrightarrow> b \<in> A \<Longrightarrow> a \<noteq> b \<Longrightarrow> ranges_apart a (lens a) b (lens b)"
  shows "\<exists>m' ws'. lw_step en x (m, ws) = Some (m', ws') \<and> lw_inv m0 m' ws'"
proof (cases x)
  case (PerformWrite a n val h)
  have "byte_range a n \<inter> ow_range w = {}" if "w \<in> set ws" "ow_addr w \<noteq> a" for w
    using that x PerformWrite sized apart [of a "ow_addr w"]
    by (auto simp: lw_sized_def ow_range_def dest!: ranges_apart_disjoint)
  then have "lw_fits ws a n val"
    using x PerformWrite sized by (auto simp: lw_fits_def lw_sized_def)
  from lw_inv_perform [OF en inv this, of h] show ?thesis using PerformWrite by auto
next
  case (UndoWrite a n old)
  show ?thesis
  proof (cases "find_ndx (\<lambda>w. ow_addr w = a) ws")
    case None
    then show ?thesis using UndoWrite inv by (simp add: LW_undoWrite1Insn_def)
  next
    case (Some i)
    then have "ow_length (ws ! i) \<le> length old"
      using find_ndx_SomeD [OF Some] sized x UndoWrite by (auto simp: lw_sized_def)
    from lw_inv_undo [OF en inv Some this] show ?thesis using UndoWrite by auto
  qed
next
  case (ChangeHowSoon a h)
  then show ?thesis using lw_inv_change [OF inv] by simp
qed

text \<open>
  The log as a component: for an initial memory \<open>m0\<close> and a layout \<open>lens\<close> of the addresses \<open>A\<close>, every
  disciplined request succeeds and keeps the invariant.
\<close>

definition lw_layout :: "(kptr \<Rightarrow> nat) \<Rightarrow> kptr set \<Rightarrow> bool" where
  "lw_layout lens A \<longleftrightarrow>
     (\<forall>a \<in> A. \<forall>b \<in> A. a \<noteq> b \<longrightarrow> ranges_apart a (lens a) b (lens b))"

definition lw_state_ok ::
  "u32 \<Rightarrow> kmem \<Rightarrow> (kptr \<Rightarrow> nat) \<Rightarrow> kptr set \<Rightarrow> kmem \<times> oneWrite list \<Rightarrow> bool" where
  "lw_state_ok en m0 lens A s \<longleftrightarrow> en AND KERNINST_ENABLE_UNDOMEMORY \<noteq> 0 \<and> lw_layout lens A \<and>
     lw_inv m0 (fst s) (snd s) \<and> lw_sized lens A (snd s)"

interpretation lw: guarded_machine "lw_step en"
  "\<lambda>x. lw_op_addr x \<in> A \<and> lw_op_ok lens x" "lw_state_ok en m0 lens A"
  for en m0 lens A
proof
  fix x s assume x: "lw_op_addr x \<in> A \<and> lw_op_ok lens x" and s: "lw_state_ok en m0 lens A s"
  obtain m ws where [simp]: "s = (m, ws)" by (cases s)
  have "\<exists>m' ws'. lw_step en x (m, ws) = Some (m', ws') \<and> lw_inv m0 m' ws'"
    using x s by (intro lw_step_inv [where A = A and lens = lens])
      (auto simp: lw_state_ok_def lw_layout_def)
  then show "\<exists>s'. lw_step en x s = Some s' \<and> lw_state_ok en m0 lens A s'"
    using x s lw_step_sized by (fastforce simp: lw_state_ok_def)
qed

text \<open>
  C4: after any sequence of undoable writes, undos and changes of \<open>howSoon\<close> that keeps the
  daemon's discipline (one length for each address, at most 16 bytes, no two patches overlapping),
  closing the connection puts every byte of kernel memory back to what it was when the connection
  was opened, whatever the order of the requests and whichever of them were refused.
\<close>

theorem logged_writes_restore:
  assumes "en AND KERNINST_ENABLE_UNDOMEMORY \<noteq> 0" and "lw_disciplined lens ops"
  shows "\<exists>m ws. run_ops (lw_step en) ops (m0, []) = Some (m, ws) \<and>
    destroy_logged_writes en (Some (Some ws)) m = Some m0"
proof -
  let ?A = "lw_op_addr ` set ops"
  have "lw_layout lens ?A" using assms(2)
    by (fastforce simp: lw_layout_def lw_disciplined_def list_all_iff)
  then have "lw_state_ok en m0 lens ?A (m0, [])"
    using assms(1) by (simp add: lw_state_ok_def lw_inv_init lw_sized_def)
  moreover have "list_all (\<lambda>x. lw_op_addr x \<in> ?A \<and> lw_op_ok lens x) ops"
    using assms(2) by (auto simp: lw_disciplined_def list_all_iff)
  ultimately obtain s where "run_ops (lw_step en) ops (m0, []) = Some s" "lw_state_ok en m0 lens ?A s"
    using lw.run_total by blast
  then show ?thesis using destroy_restores [OF assms(1)] by (cases s) (auto simp: lw_state_ok_def)
qed

theorem logged_writes_restore_witness:
  "\<exists>m ws. run_ops (lw_step 2) [PerformWrite 100 5 [1,2,3,4,5] 0, PerformWrite 200 1 [9] 1,
       PerformWrite 100 5 [7,7,7,7,7] 0, UndoWrite 100 5 [0,0,0,0,0], ChangeHowSoon 200 0]
       (\<lambda>_. 0, []) = Some (m, ws) \<and>
     destroy_logged_writes 2 (Some (Some ws)) m = Some (\<lambda>_. 0)"
  by (rule logged_writes_restore [where lens = "\<lambda>a. if a = 100 then 5 else 1"])
    (simp_all add: KERNINST_ENABLE_UNDOMEMORY_def lw_disciplined_def ranges_apart_def)

section \<open>Single requests\<close>

text \<open>
  C18: the padded, aligned or compare-and-exchange stores of \<open>write1Insn\<close> have exactly the effect
  of copying \<open>len\<close> bytes: the bytes read back are the ones asked for and no other byte of
  memory changes.
\<close>

theorem write1Insn_exact:
  assumes "en AND KERNINST_ENABLE_UNDOMEMORY \<noteq> 0" and "1 \<le> len" and "len \<le> 16"
    and "len \<le> length val"
  shows "\<exists>m'. write1Insn en m a val len = Some m' \<and> read_bytes m' a len = take len val \<and>
    (\<forall>x. x \<notin> byte_range a len \<longrightarrow> m' x = m x)"
  using assms read_write_same [of "take len val" m a]
  by (simp add: write1Insn_eq write_bytes_out)

theorem write1Insn_exact_witness:
  "\<exists>m'. write1Insn 2 (\<lambda>x. ucast x) 4294967294 [1, 2, 3, 4, 5] 5 = Some m' \<and>
     read_bytes m' 4294967294 5 = [1, 2, 3, 4, 5] \<and>
     (\<forall>x. x \<notin> byte_range 4294967294 5 \<longrightarrow> m' x = ucast x)"
  using write1Insn_exact [of 2 5 "[1, 2, 3, 4, 5]" "\<lambda>x. ucast x" 4294967294]
  by (simp add: KERNINST_ENABLE_UNDOMEMORY_def)

text \<open>
  C19: a first undoable write to an address followed by its undo leaves memory and the log as they
  were, and the write hands back the bytes it replaced.
\<close>

theorem undo_inverts_write:
  assumes "en AND KERNINST_ENABLE_UNDOMEMORY \<noteq> 0" and "lw_fits ws a n val"
    and "\<forall>w \<in> set ws. ow_addr w \<noteq> a" and "length ws < MAX_WRITES"
  shows "\<exists>m' ws'. LW_performUndoableWrite en True m ws a n val h =
      Some (0, m', ws', Some (read_bytes m a n)) \<and>
    LW_undoWrite1Insn en m' ws' a n (read_bytes m a n) = Some (0, m, ws)"
proof -
  let ?w = "\<lparr>ow_addr = a, ow_origval = read_bytes m a n, ow_length = n, ow_howsoon = h\<rparr>"
  let ?m' = "write_bytes m a (take n val)"
  have n: "1 \<le> n" "n \<le> 16" "n \<le> length val" using assms(2) by (auto simp: lw_fits_def)
  have none: "find_ndx (\<lambda>w. ow_addr w = a) ws = None"
    using assms(3) by (simp add: find_ndx_None)
  then have "find_ndx (\<lambda>w. ow_addr w = a) (ws @ [?w]) = Some (length ws)"
    by (simp add: find_ndx_snoc)
  moreover have "undo_blind en ?m' ?w = Some m"
    using assms(1) n
    by (auto simp: undo_blind_def write1Insn_eq write_read_bytes_at write_bytes_out fun_eq_iff)
  ultimately show ?thesis using assms(1,4) n none
    by (simp add: LW_performUndoableWrite_def LW_undoWrite1Insn_def undo_write_def write1Insn_eq
        swap_remove_snoc Let_def)
qed

theorem undo_inverts_write_witness:
  "\<exists>m' ws'. LW_performUndoableWrite 2 True (\<lambda>_. 7) [] 4096 3 [1, 2, 3] 0 =
      Some (0, m', ws', Some [7, 7, 7]) \<and>
    LW_undoWrite1Insn 2 m' ws' 4096 3 [7, 7, 7] = Some (0, \<lambda>_. 7, [])"
  using undo_inverts_write [of 2 "[]" 4096 3 "[1, 2, 3]" "\<lambda>_. 7" 0]
  by (simp add: KERNINST_ENABLE_UNDOMEMORY_def lw_fits_def MAX_WRITES_def read_bytes_def
      upt_rec numeral_3_eq_3)

text \<open>
  a full log refuses a new address, with the error value and without touching memory, while
  an address it already holds can still be rewritten, without changing the log.
\<close>

theorem full_log_refuses:
  assumes "length ws = MAX_WRITES" and "en AND KERNINST_ENABLE_UNDOMEMORY \<noteq> 0"
    and "1 \<le> n" and "n \<le> 16" and "n \<le> length val"
  shows "LW_performUndoableWrite en ok m ws a n val h =
    (if \<exists>w \<in> set ws. ow_addr w = a then Some (0, write_bytes m a (take n val), ws, None)
     else Some (1, m, ws, None))"
proof (cases "find_ndx (\<lambda>w. ow_addr w = a) ws")
  case None
  then have "\<not> (\<exists>w \<in> set ws. ow_addr w = a)" by (simp add: find_ndx_None)
  then show ?thesis using None assms by (simp add: LW_performUndoableWrite_def)
next
  case (Some i)
  then have "\<exists>w \<in> set ws. ow_addr w = a" using find_ndx_SomeD [OF Some] nth_mem by blast
  then show ?thesis using Some assms by (simp add: LW_performUndoableWrite_def write1Insn_eq)
qed

theorem full_log_refuses_witness:
  "let ws = map (\<lambda>i. \<lparr>ow_addr = of_nat i, ow_origval = [0], ow_length = 1, ow_howsoon = 0\<rparr>) [0..<1024]
   in LW_performUndoableWrite 2 True (\<lambda>_. 0) ws 5000 1 [9] 0 = Some (1, \<lambda>_. 0, ws, None)"
  using full_log_refuses [of "map (\<lambda>i. \<lparr>ow_addr = of_nat i, ow_origval = [0], ow_length = 1,
      ow_howsoon = 0\<rparr>) [0..<1024]" 2 1 "[9]" True "\<lambda>_. 0" 5000 0]
  by (auto simp: MAX_WRITES_def KERNINST_ENABLE_UNDOMEMORY_def Let_def word_unat_eq_iff unat_of_nat
      split: if_splits)

text \<open>
  closing undoes the entries whose \<open>howsoon\<close> is 0 first and then all others, each group in the
  order in which the log holds it.
\<close>

theorem destroy_order:
  "destroy_logged_writes en (Some (Some ws)) m =
     fold (\<lambda>w r. case r of None \<Rightarrow> None | Some m \<Rightarrow> undo_blind en m w)
       (filter (\<lambda>w. ow_howsoon w = 0) ws @ filter (\<lambda>w. ow_howsoon w \<noteq> 0) ws) (Some m)"
proof -
  let ?u = "\<lambda>w r. case r of None \<Rightarrow> None | Some m \<Rightarrow> undo_blind en m w"
  have none: "fold ?u xs None = None" for xs by (induction xs) auto
  have "destroy_pass P en xs m = fold ?u (filter (\<lambda>w. P (ow_howsoon w)) xs) (Some m)" for P xs m
    by (induction xs arbitrary: m) (auto simp: none split: option.splits)
  then show ?thesis by (auto simp: destroy_logged_writes_def none split: option.splits)
qed


end
