(* ===== verification/AllocLog.thy ===== *)
theory AllocLog
  imports Kerninst_Prelude
begin

text \<open>
  The driver's log of kernel memory it has handed to the daemon
  (\<open>kerninstdriver-linux/src/loggedAllocRequests.c\<close> and \<open>kernInstIoctls.c\<close>, i386 build). The
  kernel's allocator is not part of the sources: \<open>kmalloc\<close> and \<open>kfree\<close> are parameters acting on
  an abstract heap, and the locale \<open>kernel_heap\<close> states what the driver relies on. A null
  \<open>loggedAllocRequests *\<close> is \<open>None\<close>, and \<open>Some None\<close> one whose array could not be allocated;
  \<open>None\<close> as a result is a fault (a division by a zero alignment, a store through null).
\<close>

section \<open>Model\<close>

definition ALLOC_TYPE_DATA :: u32 where
  "ALLOC_TYPE_DATA = 0"

definition ALLOC_TYPE_KMEM32 :: u32 where
  "ALLOC_TYPE_KMEM32 = 4"

definition MAX_ALLOC_REQS :: nat where
  "MAX_ALLOC_REQS = 100"

record oneAllocReq =
  prettyAddr :: kptr
  prettyMappedAddr :: kptr
  prettyNumBytes :: u32
  oar_allocType :: u32
  actuallyAllocatedAt :: kptr
  actuallyMappedAt :: kptr
  actualNumBytesAllocated :: u32

type_synonym lar = "oneAllocReq list option option"

text \<open>The entry it fills in on success (\<open>None\<close>: the return value is 1).\<close>

definition OAR_allocate ::
  "(u32 \<Rightarrow> 'h \<Rightarrow> kptr \<times> 'h) \<Rightarrow> 'h \<Rightarrow> u32 \<Rightarrow> u32 \<Rightarrow> u32 \<Rightarrow> (oneAllocReq option \<times> 'h) option" where
  "OAR_allocate kmalloc h nbytes reqdAlign allocType =
     (if allocType \<noteq> ALLOC_TYPE_DATA \<and> allocType \<noteq> ALLOC_TYPE_KMEM32 then Some (None, h)
      else if nbytes > 131000 then Some (None, h)
      else
        let (region, h') = kmalloc nbytes h
        in if region = 0 then Some (None, h')
           else if reqdAlign = 0 then None
           else if region mod reqdAlign \<noteq> 0 then Some (None, h')
           else Some (Some \<lparr>prettyAddr = region, prettyMappedAddr = region, prettyNumBytes = nbytes,
                  oar_allocType = allocType, actuallyAllocatedAt = region, actuallyMappedAt = region,
                  actualNumBytesAllocated = nbytes\<rparr>, h'))"

definition initialize_logged_allocRequests :: "bool \<Rightarrow> bool \<Rightarrow> lar" where
  "initialize_logged_allocRequests struct_ok array_ok =
     (if struct_ok then Some (if array_ok then Some [] else None) else None)"

fun LAR_undo_reqs :: "(kptr \<Rightarrow> 'h \<Rightarrow> 'h) \<Rightarrow> oneAllocReq list \<Rightarrow> 'h \<Rightarrow> 'h" where
  "LAR_undo_reqs kfree [] h = h"
| "LAR_undo_reqs kfree (r # rs) h =
     LAR_undo_reqs kfree rs
       (if oar_allocType r = ALLOC_TYPE_DATA \<or> oar_allocType r = ALLOC_TYPE_KMEM32
        then kfree (actuallyAllocatedAt r) h else h)"

definition LAR_undo :: "(kptr \<Rightarrow> 'h \<Rightarrow> 'h) \<Rightarrow> lar \<Rightarrow> 'h \<Rightarrow> 'h" where
  "LAR_undo kfree lar h = (case lar of Some (Some rs) \<Rightarrow> LAR_undo_reqs kfree rs h | _ \<Rightarrow> h)"

definition destroy_logged_allocRequests :: "(kptr \<Rightarrow> 'h \<Rightarrow> 'h) \<Rightarrow> lar \<Rightarrow> 'h \<Rightarrow> 'h" where
  "destroy_logged_allocRequests kfree lar h =
     (case lar of None \<Rightarrow> h | Some None \<Rightarrow> h | Some (Some rs) \<Rightarrow> LAR_undo kfree lar h)"

text \<open>Return value, log, heap and what was stored through \<open>result\<close> and \<open>result_mappable\<close>.\<close>

definition LAR_alloc ::
  "(u32 \<Rightarrow> 'h \<Rightarrow> kptr \<times> 'h) \<Rightarrow> lar \<Rightarrow> 'h \<Rightarrow> u32 \<Rightarrow> u32 \<Rightarrow> u32 \<Rightarrow>
     (int \<times> lar \<times> 'h \<times> (kptr \<times> kptr) option) option" where
  "LAR_alloc kmalloc lar h nbytes requiredAlignment allocType =
     (case lar of
        None \<Rightarrow> Some (1, lar, h, None)
      | Some reqs \<Rightarrow>
          if (case reqs of None \<Rightarrow> 0 | Some rs \<Rightarrow> length rs) = MAX_ALLOC_REQS then Some (1, lar, h, None)
          else
            (case OAR_allocate kmalloc h nbytes requiredAlignment allocType of
               None \<Rightarrow> None
             | Some (None, h') \<Rightarrow> Some (0, lar, h', Some (0, 0))
             | Some (Some r, h') \<Rightarrow>
                 (case reqs of
                    None \<Rightarrow> None
                  | Some rs \<Rightarrow>
                      Some (0, Some (Some (rs @ [r])), h', Some (prettyAddr r, prettyMappedAddr r)))))"

definition LAR_free ::
  "(kptr \<Rightarrow> 'h \<Rightarrow> 'h) \<Rightarrow> lar \<Rightarrow> 'h \<Rightarrow> kptr \<Rightarrow> kptr \<Rightarrow> u32 \<Rightarrow> int \<times> lar \<times> 'h" where
  "LAR_free kfree lar h kernelAddr mappedKernelAddr nbytes =
     (case lar of
        None \<Rightarrow> (1, lar, h)
      | Some None \<Rightarrow> (1, lar, h)
      | Some (Some rs) \<Rightarrow>
          if rs = [] then (1, lar, h)
          else
            (case find_ndx (\<lambda>r. prettyAddr r = kernelAddr) rs of
               None \<Rightarrow> (0, lar, h)
             | Some i \<Rightarrow>
                 if prettyMappedAddr (rs ! i) \<noteq> mappedKernelAddr then (1, lar, h)
                 else (0, Some (Some (swap_remove i rs)), kfree (actuallyAllocatedAt (rs ! i)) h)))"

record kernInstAllocStruct =
  kas_nbytes :: u32
  kas_requiredAlignment :: u32
  kas_allocType :: u32
  kas_result :: kptr
  kas_result_mappable :: kptr

record kernInstFreeStruct =
  kfs_kernelAddr :: kptr
  kfs_mappedKernelAddr :: kptr
  kfs_nbytes :: u32

definition kerninst_alloc_block ::
  "(u32 \<Rightarrow> 'h \<Rightarrow> kptr \<times> 'h) \<Rightarrow> lar \<Rightarrow> 'h \<Rightarrow> kernInstAllocStruct \<Rightarrow>
     (int \<times> lar \<times> 'h \<times> kernInstAllocStruct) option" where
  "kerninst_alloc_block kmalloc lar h req =
     (case lar of
        None \<Rightarrow> Some (1, lar, h, req)
      | Some _ \<Rightarrow>
          (case LAR_alloc kmalloc lar h (kas_nbytes req) (kas_requiredAlignment req)
                  (kas_allocType req) of
             None \<Rightarrow> None
           | Some (ret, lar', h', None) \<Rightarrow> Some (ret, lar', h', req)
           | Some (ret, lar', h', Some (p, q)) \<Rightarrow>
               Some (ret, lar', h', req\<lparr>kas_result := p, kas_result_mappable := q\<rparr>)))"

definition kerninst_free_block ::
  "(kptr \<Rightarrow> 'h \<Rightarrow> 'h) \<Rightarrow> lar \<Rightarrow> 'h \<Rightarrow> kernInstFreeStruct \<Rightarrow> int \<times> lar \<times> 'h" where
  "kerninst_free_block kfree lar h req =
     (case lar of
        None \<Rightarrow> (1, lar, h)
      | Some _ \<Rightarrow> LAR_free kfree lar h (kfs_kernelAddr req) (kfs_mappedKernelAddr req) (kfs_nbytes req))"

section \<open>What the driver relies on\<close>

text \<open>
  An allocator: \<open>live\<close> are the blocks handed out and not yet freed, \<open>hinv\<close> the states its
  operations lead to. A null result changes nothing, any other result is a block that was not
  live, and freeing a live block makes it available again.
\<close>

locale kernel_heap =
  fixes malloc :: "'n \<Rightarrow> 'h \<Rightarrow> 'p::zero \<times> 'h" and release :: "'p \<Rightarrow> 'h \<Rightarrow> 'h"
    and live :: "'h \<Rightarrow> 'p set" and hinv :: "'h \<Rightarrow> bool"
  assumes malloc_null: "hinv h \<Longrightarrow> malloc n h = (0, h') \<Longrightarrow> live h' = live h \<and> hinv h'"
    and malloc_fresh: "hinv h \<Longrightarrow> malloc n h = (p, h') \<Longrightarrow> p \<noteq> 0 \<Longrightarrow>
      p \<notin> live h \<and> live h' = insert p (live h) \<and> hinv h'"
    and release_live: "hinv h \<Longrightarrow> p \<in> live h \<Longrightarrow> live (release p h) = live h - {p} \<and> hinv (release p h)"
begin

lemma malloc_cases:
  "hinv h \<Longrightarrow> malloc n h = (p, h') \<Longrightarrow>
    hinv h' \<and> live h' = (if p = 0 then live h else insert p (live h)) \<and> (p \<noteq> 0 \<longrightarrow> p \<notin> live h)"
  using malloc_null [of h n h'] malloc_fresh [of h n p h'] by auto

lemma release_all:
  assumes "hinv h" and "distinct ps" and "set ps \<subseteq> live h"
  shows "live (fold release ps h) = live h - set ps \<and> hinv (fold release ps h)"
  using assms
proof (induction ps arbitrary: h)
  case (Cons p ps)
  then have r: "live (release p h) = live h - {p}" "hinv (release p h)"
    using release_live [of h p] by simp_all
  have "set ps \<subseteq> live (release p h)" using Cons.prems r(1) by auto
  with Cons.IH [OF r(2)] Cons.prems r(1) show ?case by auto
qed simp

end

datatype lar_op = AllocBlock u32 u32 u32 | FreeBlock kptr kptr u32

fun lar_step ::
  "(u32 \<Rightarrow> 'h \<Rightarrow> kptr \<times> 'h) \<Rightarrow> (kptr \<Rightarrow> 'h \<Rightarrow> 'h) \<Rightarrow> lar_op \<Rightarrow> lar \<times> 'h \<Rightarrow> (lar \<times> 'h) option" where
  "lar_step kmalloc kfree (AllocBlock n al ty) (lar, h) =
     map_option (\<lambda>(r, lar', h', res). (lar', h')) (LAR_alloc kmalloc lar h n al ty)"
| "lar_step kmalloc kfree (FreeBlock p q n) (lar, h) =
     (let (r, lar', h') = LAR_free kfree lar h p q n in Some (lar', h'))"

section \<open>The log accounts for every block\<close>

definition oar_ok :: "oneAllocReq \<Rightarrow> bool" where
  "oar_ok r \<longleftrightarrow> (oar_allocType r = ALLOC_TYPE_DATA \<or> oar_allocType r = ALLOC_TYPE_KMEM32) \<and>
     prettyAddr r = actuallyAllocatedAt r \<and> prettyMappedAddr r = actuallyMappedAt r \<and>
     actuallyMappedAt r = actuallyAllocatedAt r \<and> prettyNumBytes r \<le> 131000"

definition lar_inv :: "('h \<Rightarrow> kptr set) \<Rightarrow> ('h \<Rightarrow> bool) \<Rightarrow> kptr set \<Rightarrow> lar \<times> 'h \<Rightarrow> bool" where
  "lar_inv live hinv L0 s \<longleftrightarrow> (\<exists>rs. fst s = Some (Some rs) \<and> hinv (snd s) \<and> length rs \<le> MAX_ALLOC_REQS \<and>
     distinct (map actuallyAllocatedAt rs) \<and> list_all oar_ok rs \<and>
     actuallyAllocatedAt ` set rs \<inter> L0 = {} \<and> live (snd s) = L0 \<union> actuallyAllocatedAt ` set rs)"

text \<open>A request whose alignment every block \<open>kmalloc\<close> returns has.\<close>

fun lar_op_ok :: "(u32 \<Rightarrow> 'h \<Rightarrow> kptr \<times> 'h) \<Rightarrow> lar_op \<Rightarrow> bool" where
  "lar_op_ok kmalloc (AllocBlock n al ty) \<longleftrightarrow> al \<noteq> 0 \<and> (\<forall>k h. fst (kmalloc k h) mod al = 0)"
| "lar_op_ok kmalloc (FreeBlock p q n) \<longleftrightarrow> True"

lemma LAR_undo_reqs_fold:
  "list_all oar_ok rs \<Longrightarrow> LAR_undo_reqs kfree rs h = fold kfree (map actuallyAllocatedAt rs) h"
  by (induction rs arbitrary: h) (auto simp: oar_ok_def)

lemma lar_inv_alloc:
  assumes heap: "kernel_heap kmalloc kfree live hinv" and inv: "lar_inv live hinv L0 (lar, h)"
    and ok: "lar_op_ok kmalloc (AllocBlock n al ty)"
  shows "\<exists>s'. lar_step kmalloc kfree (AllocBlock n al ty) (lar, h) = Some s' \<and> lar_inv live hinv L0 s'"
proof -
  obtain rs where lar: "lar = Some (Some rs)" using inv by (auto simp: lar_inv_def)
  obtain p h' where km: "kmalloc n h = (p, h')" by (cases "kmalloc n h")
  have "fst (kmalloc n h) mod al = 0" "al \<noteq> 0" using ok by simp_all
  then have al: "al \<noteq> 0" "p mod al = 0" using km by simp_all
  have "hinv h" using inv by (auto simp: lar_inv_def)
  note hp = kernel_heap.malloc_cases [OF heap this km]
  show ?thesis
  proof (cases "length rs = MAX_ALLOC_REQS \<or> (ty \<noteq> ALLOC_TYPE_DATA \<and> ty \<noteq> ALLOC_TYPE_KMEM32) \<or> 131000 < n")
    case True
    then show ?thesis using inv lar by (auto simp: LAR_alloc_def OAR_allocate_def)
  next
    case False
    let ?r = "\<lparr>prettyAddr = p, prettyMappedAddr = p, prettyNumBytes = n, oar_allocType = ty,
      actuallyAllocatedAt = p, actuallyMappedAt = p, actualNumBytesAllocated = n\<rparr>"
    have step: "lar_step kmalloc kfree (AllocBlock n al ty) (lar, h) =
      Some (if p = 0 then lar else Some (Some (rs @ [?r])), h')"
      using False lar al km by (auto simp: LAR_alloc_def OAR_allocate_def)
    have "oar_ok ?r" using False by (auto simp: oar_ok_def not_less)
    then have "lar_inv live hinv L0 (if p = 0 then lar else Some (Some (rs @ [?r])), h')"
      using inv lar hp False by (auto simp: lar_inv_def)
    then show ?thesis using step by blast
  qed
qed

lemma lar_inv_free:
  assumes heap: "kernel_heap kmalloc kfree live hinv" and inv: "lar_inv live hinv L0 (lar, h)"
  shows "\<exists>s'. lar_step kmalloc kfree (FreeBlock p q n) (lar, h) = Some s' \<and> lar_inv live hinv L0 s'"
proof -
  obtain rs where lar: "lar = Some (Some rs)" using inv by (auto simp: lar_inv_def)
  show ?thesis
  proof (cases "find_ndx (\<lambda>r. prettyAddr r = p) rs")
    case None
    then show ?thesis using inv lar by (auto simp: LAR_free_def)
  next
    case (Some i)
    then have i: "i < length rs" using find_ndx_SomeD by blast
    let ?a = "actuallyAllocatedAt (rs ! i)"
    have d: "distinct (map actuallyAllocatedAt rs)" using inv lar by (auto simp: lar_inv_def)
    have addrs: "actuallyAllocatedAt ` set (swap_remove i rs) = actuallyAllocatedAt ` set rs - {?a}"
      using set_swap_remove [of i "map actuallyAllocatedAt rs"] i d
      by (simp add: map_swap_remove [symmetric] nth_map)
    have "?a \<in> actuallyAllocatedAt ` set rs" using i by simp
    then have "hinv h" "?a \<in> live h" "?a \<notin> L0"
      using inv lar disjoint_iff by (auto simp: lar_inv_def)
    then have "live (kfree ?a h) = live h - {?a}" "hinv (kfree ?a h)"
      using kernel_heap.release_live [OF heap] by auto
    moreover have "distinct (map actuallyAllocatedAt (swap_remove i rs))"
      using i d by (rule distinct_swap_remove)
    moreover have "list_all oar_ok (swap_remove i rs)"
      using inv lar set_swap_remove_subset [OF i] by (auto simp: lar_inv_def list_all_iff)
    ultimately have "lar_inv live hinv L0 (Some (Some (swap_remove i rs)), kfree ?a h)"
      using inv lar \<open>?a \<notin> L0\<close> by (auto simp: lar_inv_def addrs length_swap_remove)
    then show ?thesis using inv lar Some by (auto simp: LAR_free_def)
  qed
qed

interpretation lar: guarded_machine "lar_step kmalloc kfree" "lar_op_ok kmalloc"
  "\<lambda>s. kernel_heap kmalloc kfree live hinv \<and> lar_inv live hinv L0 s"
  for kmalloc kfree live hinv L0
proof
  fix x and s :: "lar \<times> 'a"
  assume "lar_op_ok kmalloc x" "kernel_heap kmalloc kfree live hinv \<and> lar_inv live hinv L0 s"
  then show "\<exists>s'. lar_step kmalloc kfree x s = Some s' \<and>
      kernel_heap kmalloc kfree live hinv \<and> lar_inv live hinv L0 s'"
    by (cases s; cases x) (blast dest: lar_inv_alloc lar_inv_free)+
qed

lemma lar_inv_init: "hinv h \<Longrightarrow> lar_inv live hinv (live h) (Some (Some []), h)"
  by (simp add: lar_inv_def)

lemma destroy_frees:
  assumes "kernel_heap kmalloc kfree live hinv" and "lar_inv live hinv L0 (lar, h)"
  shows "live (destroy_logged_allocRequests kfree lar h) = L0"
proof -
  obtain rs where rs: "lar = Some (Some rs)" "hinv h" "distinct (map actuallyAllocatedAt rs)"
    "list_all oar_ok rs" "actuallyAllocatedAt ` set rs \<inter> L0 = {}"
    "live h = L0 \<union> actuallyAllocatedAt ` set rs"
    using assms(2) by (auto simp: lar_inv_def)
  then have "live (fold kfree (map actuallyAllocatedAt rs) h) = live h - actuallyAllocatedAt ` set rs"
    using kernel_heap.release_all [OF assms(1) rs(2,3)] by simp
  then show ?thesis using rs
    by (auto simp: destroy_logged_allocRequests_def LAR_undo_def LAR_undo_reqs_fold)
qed

section \<open>Properties\<close>

text \<open>
  C21: after any sequence of allocation and free requests (unknown, repeated and mismatched free
  requests included, and requests that fail), none faults, and closing the connection leaves
  exactly the kernel blocks that were live when it was opened: nothing the daemon allocated stays
  behind and nothing is freed twice, as long as the kernel's blocks have the alignments asked for.
\<close>

theorem alloc_log_releases_all:
  assumes "kernel_heap kmalloc kfree live hinv" and "hinv h0" and "list_all (lar_op_ok kmalloc) ops"
  shows "\<exists>lar h. run_ops (lar_step kmalloc kfree) ops (initialize_logged_allocRequests True True, h0) =
      Some (lar, h) \<and> live (destroy_logged_allocRequests kfree lar h) = live h0"
proof -
  have "lar_inv live hinv (live h0) (initialize_logged_allocRequests True True, h0)"
    using assms(2) by (simp add: initialize_logged_allocRequests_def lar_inv_init)
  then obtain s where "run_ops (lar_step kmalloc kfree) ops (initialize_logged_allocRequests True True, h0) = Some s"
      "lar_inv live hinv (live h0) s"
    using lar.run_total assms(1,3) by blast
  then show ?thesis using destroy_frees [OF assms(1)] by (cases s) auto
qed

text \<open>A heap of two blocks, on which the contract of the kernel's allocator holds.\<close>

definition two_block_malloc :: "u32 \<Rightarrow> kptr set \<Rightarrow> kptr \<times> kptr set" where
  "two_block_malloc n h =
     (if 4096 \<notin> h then (4096, insert 4096 h) else if 8192 \<notin> h then (8192, insert 8192 h) else (0, h))"

definition two_block_free :: "kptr \<Rightarrow> kptr set \<Rightarrow> kptr set" where
  "two_block_free p h = h - {p}"

lemma two_block_heap: "kernel_heap two_block_malloc two_block_free id (\<lambda>_. True)"
  by unfold_locales (auto simp: two_block_malloc_def two_block_free_def split: if_splits)

theorem alloc_log_releases_all_witness:
  "\<exists>lar h. run_ops (lar_step two_block_malloc two_block_free)
       [AllocBlock 100 32 0, AllocBlock 200 4 4, AllocBlock 1 1 0, AllocBlock 1 1 3,
        FreeBlock 4096 4096 100, FreeBlock 4096 4096 100, FreeBlock 8192 1 7]
       (initialize_logged_allocRequests True True, {}) = Some (lar, h) \<and>
     id (destroy_logged_allocRequests two_block_free lar h) = id {}"
  by (rule alloc_log_releases_all [OF two_block_heap]) (simp_all add: two_block_malloc_def)

text \<open>
  a block the kernel returns with the wrong alignment is lost. The request reports success
  with a null result, the block is in no log entry, and closing the connection right after leaves
  it allocated.
\<close>

theorem misaligned_block_leaks:
  assumes "kernel_heap kmalloc kfree live hinv" and "lar_inv live hinv L0 (lar, h)"
    and "kmalloc n h = (p, h')" and "p \<noteq> 0" and "al \<noteq> 0" and "p mod al \<noteq> 0"
    and "ty = ALLOC_TYPE_DATA" and "n \<le> 131000"
    and "lar = Some (Some rs)" and "length rs < MAX_ALLOC_REQS"
  shows "LAR_alloc kmalloc lar h n al ty = Some (0, lar, h', Some (0, 0)) \<and>
    p \<notin> L0 \<and> p \<in> live (destroy_logged_allocRequests kfree lar h')"
proof -
  have "\<not> 131000 < n" using assms(8) by simp
  then have "LAR_alloc kmalloc lar h n al ty = Some (0, lar, h', Some (0, 0))"
    using assms(3-7,9,10) by (simp add: LAR_alloc_def OAR_allocate_def)
  moreover
  have "hinv h" using assms(2) by (auto simp: lar_inv_def)
  then have p: "hinv h'" "live h' = insert p (live h)" "p \<notin> live h"
    using kernel_heap.malloc_cases [OF assms(1) _ assms(3)] assms(4) by auto
  then have "lar_inv live hinv (insert p L0) (lar, h')" and notin: "p \<notin> L0"
    using assms(2) by (auto simp: lar_inv_def)
  then have "p \<in> live (destroy_logged_allocRequests kfree lar h')"
    using destroy_frees [OF assms(1)] by auto
  ultimately show ?thesis using notin by blast
qed

theorem misaligned_block_leaks_witness:
  "LAR_alloc two_block_malloc (Some (Some [])) {} 100 8192 ALLOC_TYPE_DATA =
      Some (0, Some (Some []), {4096}, Some (0, 0)) \<and>
    4096 \<notin> ({} :: kptr set) \<and>
    4096 \<in> id (destroy_logged_allocRequests two_block_free (Some (Some [])) {4096})"
  by (rule misaligned_block_leaks [OF two_block_heap, where rs = "[]"])
    (simp_all add: lar_inv_def two_block_malloc_def MAX_ALLOC_REQS_def)

text \<open>
  a granted request returns a block that was not in use, aligned as asked, that the log now
  holds under that very address, so that the matching free request releases exactly it and
  restores the log.
\<close>

theorem alloc_then_free:
  assumes "kernel_heap kmalloc kfree live hinv" and "lar_inv live hinv L0 (Some (Some rs), h)"
    and "LAR_alloc kmalloc (Some (Some rs)) h n al ty = Some (0, lar', h', Some (p, q))" and "p \<noteq> 0"
  shows "p mod al = 0 \<and> p \<notin> live h \<and> live h' = insert p (live h) \<and>
    (\<exists>h''. LAR_free kfree lar' h' p q n = (0, Some (Some rs), h'') \<and> live h'' = live h)"
proof -
  obtain p' h1 where km: "kmalloc n h = (p', h1)" by (cases "kmalloc n h")
  have eqs: "p' = p" "h1 = h'" "q = p" "p mod al = 0"
    and lar': "lar' = Some (Some (rs @ [\<lparr>prettyAddr = p, prettyMappedAddr = p, prettyNumBytes = n,
        oar_allocType = ty, actuallyAllocatedAt = p, actuallyMappedAt = p,
        actualNumBytesAllocated = n\<rparr>]))"
    using assms(3,4) km by (auto simp: LAR_alloc_def OAR_allocate_def split: if_splits)
  have "hinv h" and addrs: "live h = L0 \<union> actuallyAllocatedAt ` set rs" "list_all oar_ok rs"
    using assms(2) by (auto simp: lar_inv_def)
  then have new: "p \<notin> live h" "live h' = insert p (live h)" "hinv h'"
    using kernel_heap.malloc_cases [OF assms(1) _ km] assms(4) eqs by auto
  then have "\<forall>r \<in> set rs. prettyAddr r \<noteq> p"
    using addrs by (auto simp: list_all_iff oar_ok_def)
  then have "find_ndx (\<lambda>r. prettyAddr r = p) rs = None" by (simp add: find_ndx_None)
  then have "LAR_free kfree lar' h' p q n = (0, Some (Some rs), kfree p h')"
    using eqs by (simp add: lar' LAR_free_def find_ndx_snoc swap_remove_snoc)
  moreover have "live (kfree p h') = live h"
    using kernel_heap.release_live [OF assms(1) new(3), of p] new by auto
  ultimately show ?thesis using eqs new by auto
qed

theorem alloc_then_free_witness:
  "4096 mod (32::kptr) = 0 \<and> (4096::kptr) \<notin> id {} \<and> id {4096} = insert (4096::kptr) (id {}) \<and>
    (\<exists>h''. LAR_free two_block_free
        (Some (Some [\<lparr>prettyAddr = 4096, prettyMappedAddr = 4096, prettyNumBytes = 100,
          oar_allocType = 0, actuallyAllocatedAt = 4096, actuallyMappedAt = 4096,
          actualNumBytesAllocated = 100\<rparr>])) {4096} 4096 4096 100 = (0, Some (Some []), h'') \<and>
       id h'' = id {})"
  by (rule alloc_then_free [OF two_block_heap, of "{}" "[]" "{}" 100 32 0])
    (simp_all add: lar_inv_def two_block_malloc_def LAR_alloc_def OAR_allocate_def ALLOC_TYPE_DATA_def
      MAX_ALLOC_REQS_def)

text \<open>
  the two ways to free a block the log does not hold differ. On an empty log the driver
  reports an error, on any other log it reports success, and in both cases it frees nothing.
\<close>

theorem free_unknown_block:
  assumes "\<forall>r \<in> set rs. prettyAddr r \<noteq> p"
  shows "LAR_free kfree (Some (Some rs)) h p q n = (if rs = [] then 1 else 0, Some (Some rs), h)"
proof -
  have "find_ndx (\<lambda>r. prettyAddr r = p) rs = None" using assms by (simp add: find_ndx_None)
  then show ?thesis by (simp add: LAR_free_def)
qed

theorem free_unknown_block_witness:
  "LAR_free two_block_free (Some (Some [])) {4096} 8192 8192 1 = (1, Some (Some []), {4096})"
  using free_unknown_block [of "[]" 8192 two_block_free "{4096}" 8192 1] by simp

end
