(* ===== verification/HashTable.thy ===== *)
theory HashTable
  imports Kerninst_Prelude
begin

text \<open>
  The driver's hash table from thread identifiers to timer vectors
  (\<open>kerninstdriver-linux/src/hash_table.c\<close>): 256 preallocated elements, 256 bins that are chains of
  pointers into the element array, deletion by a mark that only \<open>hash_table_pack\<close> clears away. A
  pointer to an element is its index, a \<open>void *\<close> datum a \<open>'d option\<close> with \<open>None\<close> the null pointer.
  Walking a chain is \<open>chain_find\<close>, whose \<open>None\<close> is not returning.
\<close>

section \<open>Model\<close>

definition ht_max_num_elems :: nat where
  "ht_max_num_elems = 256"

definition ht_num_bins :: nat where
  "ht_num_bins = 256"

definition ht_mask_for_mod_numbins :: u32 where
  "ht_mask_for_mod_numbins = 255"

record 'd hash_table_elem =
  the_key :: u32
  removed :: bool
  the_data :: "'d option"
  nxt :: "nat option"

record 'd hash_table =
  all_elems :: "nat \<Rightarrow> 'd hash_table_elem"
  bins :: "nat \<Rightarrow> nat option"
  num_elems :: nat

text \<open>A table in zeroed memory.\<close>

definition ht_zeroed :: "'d hash_table" where
  "ht_zeroed = \<lparr>all_elems = (\<lambda>_. \<lparr>the_key = 0, removed = False, the_data = None, nxt = None\<rparr>),
     bins = (\<lambda>_. None), num_elems = 0\<rparr>"

definition hash_table_initialize :: "'d hash_table \<Rightarrow> 'd hash_table" where
  "hash_table_initialize ht =
     ht\<lparr>num_elems := 0, bins := (\<lambda>b. if b < ht_num_bins then None else bins ht b)\<rparr>"

definition hash_table_destroy :: "'d hash_table \<Rightarrow> 'd hash_table" where
  "hash_table_destroy ht = hash_table_initialize ht"

function hash_loop :: "u32 \<Rightarrow> u32 \<Rightarrow> u32" where
  "hash_loop key result =
     (if key = 0 then result
      else hash_loop (drop_bit 2 key) (push_bit 1 result + result + (key AND 3)))"
  by pat_completeness auto
termination
proof (relation "measure (\<lambda>(key, _). unat key)")
  fix key :: u32
  assume "key \<noteq> 0"
  then have "0 < unat key" by (simp add: unat_gt_0)
  moreover have "unat (drop_bit 2 key) = unat key div 4" by (simp add: drop_bit_eq_div unat_div)
  ultimately show "((drop_bit 2 key, r), key, r') \<in> measure (\<lambda>(key, _). unat key)" for r r' by simp
qed simp

declare hash_loop.simps [simp del]

definition hash_table_hash_func :: "u32 \<Rightarrow> u32" where
  "hash_table_hash_func key = hash_loop key 0"

definition ht_bin :: "u32 \<Rightarrow> nat" where
  "ht_bin key = unat (hash_table_hash_func key AND ht_mask_for_mod_numbins)"

definition ht_next :: "'d hash_table \<Rightarrow> nat \<Rightarrow> nat option" where
  "ht_next ht i = nxt (all_elems ht i)"

definition hash_table_keyandbin2elem :: "'d hash_table \<Rightarrow> u32 \<Rightarrow> nat \<Rightarrow> nat option option" where
  "hash_table_keyandbin2elem ht key bin =
     chain_find (ht_next ht) (\<lambda>i. the_key (all_elems ht i) = key) (bins ht bin)"

text \<open>The compacting loop of \<open>hash_table_pack\<close>; \<open>to\<close> never passes \<open>from\<close>.\<close>

function pack_loop ::
  "nat \<Rightarrow> nat \<Rightarrow> (nat \<Rightarrow> 'd hash_table_elem) \<Rightarrow> nat \<times> (nat \<Rightarrow> 'd hash_table_elem)" where
  "pack_loop to from el =
     (if from \<le> to then (to, el)
      else if \<not> removed (el to) then pack_loop (Suc to) from el
      else if \<not> removed (el from) then
        pack_loop (Suc to) (if Suc to \<noteq> from then from - 1 else from)
          (el(to := \<lparr>the_key = the_key (el from), removed = False, the_data = the_data (el from), nxt = None\<rparr>))
      else pack_loop to (from - 1) el)"
  by pat_completeness auto
termination by (relation "measure (\<lambda>(to, from, _). from - to)") (auto split: if_splits)

declare pack_loop.simps [simp del]

text \<open>The loop that fills the bins again, over the elements \<open>is\<close>.\<close>

fun rebuild :: "nat list \<Rightarrow> 'd hash_table \<Rightarrow> 'd hash_table" where
  "rebuild [] ht = ht"
| "rebuild (i # is) ht =
     (if removed (all_elems ht i) then rebuild is ht
      else
        let bin = ht_bin (the_key (all_elems ht i));
            e = (all_elems ht i)\<lparr>nxt := bins ht bin\<rparr>
        in rebuild is
             (ht\<lparr>all_elems := (all_elems ht)(i := e), bins := (bins ht)(bin := Some i),
                num_elems := Suc (num_elems ht)\<rparr>))"

definition hash_table_pack :: "'d hash_table \<Rightarrow> 'd hash_table option" where
  "hash_table_pack ht =
     (if num_elems ht = 0 then None
      else
        let (to_ndx, el) = pack_loop 0 (num_elems ht - 1) (all_elems ht)
        in Some (rebuild [0..<Suc to_ndx]
             (ht\<lparr>all_elems := el, bins := (\<lambda>b. if b < ht_num_bins then None else bins ht b),
                num_elems := 0\<rparr>)))"

text \<open>The part of \<open>hash_table_add\<close> after the table has been packed if it was full.\<close>

definition add_packed :: "'d hash_table \<Rightarrow> 'd option \<Rightarrow> u32 \<Rightarrow> (int \<times> 'd hash_table) option" where
  "add_packed ht data key =
     (let bin = ht_bin key;
          n = num_elems ht
      in case hash_table_keyandbin2elem ht key bin of
           None \<Rightarrow> None
         | Some None \<Rightarrow>
             Some (0, ht\<lparr>all_elems := (all_elems ht)(n :=
                        \<lparr>the_key = key, removed = False, the_data = data, nxt = bins ht bin\<rparr>),
                      bins := (bins ht)(bin := Some n), num_elems := Suc n\<rparr>)
         | Some (Some i) \<Rightarrow>
             if \<not> removed (all_elems ht i) then Some (-1, ht)
             else
               Some (0, ht\<lparr>all_elems := (all_elems ht)(i :=
                 (all_elems ht i)\<lparr>the_key := key, the_data := data, removed := False\<rparr>)\<rparr>))"

definition hash_table_add :: "'d hash_table \<Rightarrow> 'd option \<Rightarrow> u32 \<Rightarrow> (int \<times> 'd hash_table) option" where
  "hash_table_add ht data key =
     (if num_elems ht = ht_max_num_elems then
        (case hash_table_pack ht of
           None \<Rightarrow> None
         | Some ht' \<Rightarrow>
             if num_elems ht' = ht_max_num_elems then Some (-1, ht') else add_packed ht' data key)
      else add_packed ht data key)"

definition hash_table_remove :: "'d hash_table \<Rightarrow> u32 \<Rightarrow> ('d option \<times> 'd hash_table) option" where
  "hash_table_remove ht key =
     (case hash_table_keyandbin2elem ht key (ht_bin key) of
        None \<Rightarrow> None
      | Some None \<Rightarrow> Some (None, ht)
      | Some (Some i) \<Rightarrow>
          Some (the_data (all_elems ht i),
            ht\<lparr>all_elems := (all_elems ht)(i := (all_elems ht i)\<lparr>removed := True\<rparr>)\<rparr>))"

definition hash_table_lookup :: "'d hash_table \<Rightarrow> u32 \<Rightarrow> 'd option option" where
  "hash_table_lookup ht key =
     (case hash_table_keyandbin2elem ht key (ht_bin key) of
        None \<Rightarrow> None
      | Some None \<Rightarrow> Some None
      | Some (Some i) \<Rightarrow> Some (the_data (all_elems ht i)))"

definition hash_table_update :: "'d hash_table \<Rightarrow> u32 \<Rightarrow> 'd option \<Rightarrow> (int \<times> 'd hash_table) option" where
  "hash_table_update ht key data =
     (case hash_table_keyandbin2elem ht key (ht_bin key) of
        None \<Rightarrow> None
      | Some None \<Rightarrow> Some (-1, ht)
      | Some (Some i) \<Rightarrow>
          Some (0, ht\<lparr>all_elems := (all_elems ht)(i := (all_elems ht i)\<lparr>the_data := data\<rparr>)\<rparr>))"

section \<open>Chains and the map they represent\<close>

definition ht_key :: "'d hash_table \<Rightarrow> nat \<Rightarrow> u32" where
  "ht_key ht i = the_key (all_elems ht i)"

text \<open>The elements of a bin, most recently added first.\<close>

definition bin_list :: "'d hash_table \<Rightarrow> nat \<Rightarrow> nat list" where
  "bin_list ht b = rev (filter (\<lambda>i. ht_bin (ht_key ht i) = b) [0..<num_elems ht])"

definition ht_inv :: "'d hash_table \<Rightarrow> bool" where
  "ht_inv ht \<longleftrightarrow> num_elems ht \<le> ht_max_num_elems \<and>
     (\<forall>b < ht_num_bins. chain (ht_next ht) (bins ht b) (bin_list ht b))"

text \<open>The element that answers for a key, and what the table holds for it: the datum and whether it
  is marked as removed.\<close>

definition ht_elem :: "'d hash_table \<Rightarrow> u32 \<Rightarrow> nat option" where
  "ht_elem ht key = find (\<lambda>i. ht_key ht i = key) (rev [0..<num_elems ht])"

definition ht_abs :: "'d hash_table \<Rightarrow> u32 \<Rightarrow> ('d option \<times> bool) option" where
  "ht_abs ht key = map_option (\<lambda>i. (the_data (all_elems ht i), removed (all_elems ht i))) (ht_elem ht key)"

lemma ht_bin_less [simp]: "ht_bin key < ht_num_bins"
proof -
  have "hash_table_hash_func key AND ht_mask_for_mod_numbins \<le> 255"
    by (simp add: ht_mask_for_mod_numbins_def word_and_le1)
  then have "ht_bin key \<le> unat (255 :: u32)"
    unfolding ht_bin_def by (simp only: word_le_nat_alt)
  then show ?thesis by (simp add: ht_num_bins_def)
qed

lemma keyandbin2elem_eq:
  assumes "ht_inv ht"
  shows "hash_table_keyandbin2elem ht key (ht_bin key) = Some (ht_elem ht key)"
proof -
  have "chain (ht_next ht) (bins ht (ht_bin key)) (bin_list ht (ht_bin key))"
    using assms by (simp add: ht_inv_def)
  then have "hash_table_keyandbin2elem ht key (ht_bin key) =
      Some (find (\<lambda>i. ht_key ht i = key) (bin_list ht (ht_bin key)))"
    unfolding hash_table_keyandbin2elem_def ht_key_def by (rule chain_find_eq)
  moreover have "find (\<lambda>i. ht_key ht i = key) (filter (\<lambda>i. ht_bin (ht_key ht i) = ht_bin key)
      (rev [0..<num_elems ht])) = find (\<lambda>i. ht_key ht i = key) (rev [0..<num_elems ht])"
    by (rule find_filter) simp
  ultimately show ?thesis by (simp add: bin_list_def ht_elem_def rev_filter)
qed

lemma ht_elem_SomeD: "ht_elem ht key = Some i \<Longrightarrow> i < num_elems ht \<and> ht_key ht i = key"
  by (auto simp: ht_elem_def dest!: find_SomeD)

lemma ht_elem_inj:
  assumes "inj_on (ht_key ht) {..<num_elems ht}"
  shows "ht_elem ht key = Some i \<longleftrightarrow> i < num_elems ht \<and> ht_key ht i = key"
proof
  assume i: "i < num_elems ht \<and> ht_key ht i = key"
  then obtain j where "ht_elem ht key = Some j"
    by (cases "ht_elem ht key") (auto simp: ht_elem_def find_None_iff)
  then show "ht_elem ht key = Some i"
    using i assms ht_elem_SomeD [of ht key j] by (auto dest: inj_onD)
qed (rule ht_elem_SomeD)

text \<open>Changing the datum or the mark of an element changes no chain.\<close>

lemma elem_update_frame:
  assumes "the_key e = ht_key ht i" and "nxt e = ht_next ht i"
  shows "ht_inv (ht\<lparr>all_elems := (all_elems ht)(i := e)\<rparr>) = ht_inv ht"
    and "ht_elem (ht\<lparr>all_elems := (all_elems ht)(i := e)\<rparr>) = ht_elem ht"
proof -
  let ?ht = "ht\<lparr>all_elems := (all_elems ht)(i := e)\<rparr>"
  have k: "ht_key ?ht = ht_key ht" and n: "ht_next ?ht = ht_next ht"
    using assms by (auto simp: ht_key_def ht_next_def fun_eq_iff)
  show "ht_inv ?ht = ht_inv ht" by (simp add: ht_inv_def bin_list_def k n)
  show "ht_elem ?ht = ht_elem ht" by (simp add: ht_elem_def k fun_eq_iff)
qed

lemma elem_update_abs:
  assumes "ht_elem ht key = Some i" and "the_key e = key" and "nxt e = ht_next ht i"
  shows "ht_abs (ht\<lparr>all_elems := (all_elems ht)(i := e)\<rparr>) = (ht_abs ht)(key \<mapsto> (the_data e, removed e))"
proof
  have k: "the_key e = ht_key ht i" using ht_elem_SomeD [OF assms(1)] assms(2) by simp
  have "ht_elem ht key' \<noteq> Some i" if "key' \<noteq> key" for key'
    using that ht_elem_SomeD [OF assms(1)] ht_elem_SomeD [of ht key' i] by auto
  then show "ht_abs (ht\<lparr>all_elems := (all_elems ht)(i := e)\<rparr>) key' =
      ((ht_abs ht)(key \<mapsto> (the_data e, removed e))) key'" for key'
    using assms by (auto simp: ht_abs_def elem_update_frame [OF k assms(3)] map_option_case
        split: option.splits)
qed

section \<open>The operations on the map\<close>

lemma init_inv: "ht_inv (hash_table_initialize ht)" and init_abs: "ht_abs (hash_table_initialize ht) = Map.empty"
  by (auto simp: hash_table_initialize_def ht_inv_def bin_list_def ht_abs_def ht_elem_def)

lemma lookup_spec:
  "ht_inv ht \<Longrightarrow> hash_table_lookup ht key = Some (case ht_abs ht key of None \<Rightarrow> None | Some (d, r) \<Rightarrow> d)"
  by (simp add: hash_table_lookup_def keyandbin2elem_eq ht_abs_def split: option.splits)

lemma remove_spec:
  assumes "ht_inv ht"
  shows "\<exists>ht'. hash_table_remove ht key =
      Some (case ht_abs ht key of None \<Rightarrow> None | Some (d, r) \<Rightarrow> d, ht') \<and> ht_inv ht' \<and>
    num_elems ht' = num_elems ht \<and>
    ht_abs ht' = (case ht_abs ht key of None \<Rightarrow> ht_abs ht | Some (d, r) \<Rightarrow> (ht_abs ht)(key \<mapsto> (d, True)))"
proof (cases "ht_elem ht key")
  case None
  then show ?thesis using assms
    by (simp add: hash_table_remove_def keyandbin2elem_eq ht_abs_def)
next
  case (Some i)
  let ?e = "(all_elems ht i)\<lparr>removed := True\<rparr>"
  have k: "the_key ?e = key" "nxt ?e = ht_next ht i" "the_key ?e = ht_key ht i"
    using ht_elem_SomeD [OF Some] by (auto simp: ht_key_def ht_next_def)
  show ?thesis using Some assms elem_update_abs [OF Some k(1,2)] elem_update_frame(1) [OF k(3,2)]
    by (simp add: hash_table_remove_def keyandbin2elem_eq) (simp add: ht_abs_def)
qed

lemma update_spec:
  assumes "ht_inv ht"
  shows "\<exists>ht'. hash_table_update ht key data = Some (if ht_abs ht key = None then -1 else 0, ht') \<and>
    ht_inv ht' \<and> num_elems ht' = num_elems ht \<and>
    ht_abs ht' = (case ht_abs ht key of None \<Rightarrow> ht_abs ht | Some (d, r) \<Rightarrow> (ht_abs ht)(key \<mapsto> (data, r)))"
proof (cases "ht_elem ht key")
  case None
  then show ?thesis using assms
    by (simp add: hash_table_update_def keyandbin2elem_eq ht_abs_def)
next
  case (Some i)
  let ?e = "(all_elems ht i)\<lparr>the_data := data\<rparr>"
  have k: "the_key ?e = key" "nxt ?e = ht_next ht i" "the_key ?e = ht_key ht i"
    using ht_elem_SomeD [OF Some] by (auto simp: ht_key_def ht_next_def)
  show ?thesis using Some assms elem_update_abs [OF Some k(1,2)] elem_update_frame(1) [OF k(3,2)]
    by (simp add: hash_table_update_def keyandbin2elem_eq) (simp add: ht_abs_def)
qed

text \<open>Appending an element at the head of its bin.\<close>

definition ht_push :: "'d hash_table \<Rightarrow> nat \<Rightarrow> 'd hash_table_elem \<Rightarrow> 'd hash_table" where
  "ht_push ht i e =
     (let bin = ht_bin (the_key e)
      in ht\<lparr>all_elems := (all_elems ht)(i := e\<lparr>nxt := bins ht bin\<rparr>), bins := (bins ht)(bin := Some i),
            num_elems := Suc (num_elems ht)\<rparr>)"

lemma push_inv:
  assumes "ht_inv ht" and "num_elems ht < ht_max_num_elems"
  shows "ht_inv (ht_push ht (num_elems ht) e)"
proof -
  let ?n = "num_elems ht" and ?ht = "ht_push ht (num_elems ht) e" and ?b = "ht_bin (the_key e)"
  have keys: "ht_key ?ht = (ht_key ht)(?n := the_key e)"
    and nx: "ht_next ?ht = (ht_next ht)(?n := bins ht ?b)"
    and num: "num_elems ?ht = Suc ?n"
    by (auto simp: ht_push_def Let_def ht_key_def ht_next_def fun_eq_iff)
  have same: "filter (\<lambda>i. ht_bin (((ht_key ht)(?n := the_key e)) i) = b) [0..<?n] =
      filter (\<lambda>i. ht_bin (ht_key ht i) = b) [0..<?n]" for b
    by (rule filter_cong) auto
  have lists: "bin_list ?ht b = (if b = ?b then ?n # bin_list ht b else bin_list ht b)" for b
    unfolding bin_list_def keys num upt_Suc_append [OF le0] filter_append same by simp
  have "?n \<notin> set (bin_list ht b)" for b by (simp add: bin_list_def)
  then have "chain (ht_next ?ht) (bins ?ht b) (bin_list ?ht b)" if "b < ht_num_bins" for b
    using that assms(1) by (auto simp: lists nx ht_inv_def) (auto simp: ht_push_def Let_def)
  then show ?thesis using assms(2) by (simp add: ht_inv_def) (simp add: ht_push_def Let_def)
qed

lemma push_abs:
  "ht_abs (ht_push ht (num_elems ht) e) = (ht_abs ht)(the_key e \<mapsto> (the_data e, removed e))"
proof
  fix key
  let ?n = "num_elems ht" and ?ht = "ht_push ht (num_elems ht) e"
  have keys: "ht_key ?ht = (ht_key ht)(?n := the_key e)" and num: "num_elems ?ht = Suc ?n"
    by (auto simp: ht_push_def Let_def ht_key_def fun_eq_iff)
  have same: "find (\<lambda>i. ((ht_key ht)(?n := the_key e)) i = key) (rev [0..<?n]) =
      find (\<lambda>i. ht_key ht i = key) (rev [0..<?n])"
    by (rule find_cong) auto
  have "ht_elem ?ht key = (if key = the_key e then Some ?n else ht_elem ht key)"
    unfolding ht_elem_def keys num upt_Suc_append [OF le0] rev_append using same by simp
  then show "ht_abs ?ht key = ((ht_abs ht)(the_key e \<mapsto> (the_data e, removed e))) key"
    using ht_elem_SomeD [of ht key]
    by (auto simp: ht_abs_def map_option_case split: option.splits) (auto simp: ht_push_def Let_def)
qed

text \<open>What adding to the map does: a live entry refuses, any other gets the new datum.\<close>

definition spec_add ::
  "(u32 \<Rightarrow> ('d option \<times> bool) option) \<Rightarrow> 'd option \<Rightarrow> u32 \<Rightarrow> int \<times> (u32 \<Rightarrow> ('d option \<times> bool) option)" where
  "spec_add m data key =
     (case m key of Some (d, False) \<Rightarrow> (-1, m) | _ \<Rightarrow> (0, m(key \<mapsto> (data, False))))"

lemma add_packed_spec:
  assumes inv: "ht_inv ht" and room: "num_elems ht < ht_max_num_elems"
  shows "\<exists>ht'. add_packed ht data key = Some (fst (spec_add (ht_abs ht) data key), ht') \<and> ht_inv ht' \<and>
    ht_abs ht' = snd (spec_add (ht_abs ht) data key) \<and>
    num_elems ht' = (if ht_abs ht key = None then Suc (num_elems ht) else num_elems ht)"
proof (cases "ht_elem ht key")
  case None
  let ?e = "\<lparr>the_key = key, removed = False, the_data = data, nxt = bins ht (ht_bin key)\<rparr>"
  have "add_packed ht data key = Some (0, ht_push ht (num_elems ht) ?e)"
    using None inv by (simp add: add_packed_def keyandbin2elem_eq ht_push_def Let_def)
  then show ?thesis using None push_inv [OF inv room, of ?e] push_abs [of ht ?e]
    by (simp add: ht_abs_def spec_add_def) (simp add: ht_push_def Let_def)
next
  case (Some i)
  let ?e = "(all_elems ht i)\<lparr>the_key := key, the_data := data, removed := False\<rparr>"
  have k: "the_key ?e = key" "nxt ?e = ht_next ht i" "the_key ?e = ht_key ht i"
    using ht_elem_SomeD [OF Some] by (auto simp: ht_key_def ht_next_def)
  show ?thesis
  proof (cases "removed (all_elems ht i)")
    case True
    then have "add_packed ht data key = Some (0, ht\<lparr>all_elems := (all_elems ht)(i := ?e)\<rparr>)"
      "ht_abs ht key = Some (the_data (all_elems ht i), True)"
      using Some inv by (simp_all add: add_packed_def keyandbin2elem_eq Let_def ht_abs_def)
    then show ?thesis
      using inv elem_update_abs [OF Some k(1,2)] elem_update_frame(1) [OF k(3,2)]
      by (simp add: spec_add_def)
  next
    case False
    then show ?thesis using Some inv
      by (simp add: add_packed_def keyandbin2elem_eq Let_def ht_abs_def spec_add_def)
  qed
qed

section \<open>Packing\<close>

text \<open>The live entries among the elements of \<open>S\<close>.\<close>

definition live_pairs :: "(nat \<Rightarrow> 'd hash_table_elem) \<Rightarrow> nat set \<Rightarrow> (u32 \<times> 'd option) set" where
  "live_pairs el S = {(the_key (el i), the_data (el i)) | i. i \<in> S \<and> \<not> removed (el i)}"

lemma live_pairs_step:
  "live_pairs el {..<Suc n} = live_pairs el {..<n} \<union>
    (if removed (el n) then {} else {(the_key (el n), the_data (el n))})"
  by (auto simp: live_pairs_def less_Suc_eq)

lemma pack_loop_live:
  "pack_loop to from el = (t, el') \<Longrightarrow> to \<le> from \<Longrightarrow> \<forall>i < to. \<not> removed (el i) \<Longrightarrow>
    t \<le> from \<and> (\<forall>i < t. \<not> removed (el' i)) \<and> live_pairs el' {..t} = live_pairs el {..from}"
proof (induction to "from" el arbitrary: t el' rule: pack_loop.induct)
  case (1 to "from" el)
  let ?el2 = "el(to := \<lparr>the_key = the_key (el from), removed = False, the_data = the_data (el from), nxt = None\<rparr>)"
  consider (stop) "from = to" | (live) "to < from" "\<not> removed (el to)"
    | (copy) "to < from" "removed (el to)" "\<not> removed (el from)"
    | (skip) "to < from" "removed (el to)" "removed (el from)"
    using "1.prems"(2) by linarith
  then show ?case
  proof cases
    case stop
    then show ?thesis using "1.prems" by (subst (asm) pack_loop.simps) auto
  next
    case live
    have "pack_loop (Suc to) from el = (t, el')"
      using "1.prems"(1) live by (subst (asm) pack_loop.simps) simp
    then show ?thesis using "1.IH"(1) [of t el'] "1.prems"(3) live by (simp add: less_Suc_eq)
  next
    case copy
    let ?f = "if Suc to \<noteq> from then from - 1 else from"
    have eq: "pack_loop (Suc to) ?f ?el2 = (t, el')"
      using "1.prems"(1) copy by (subst (asm) pack_loop.simps) simp
    have le: "Suc to \<le> ?f" and to_f: "to \<le> ?f" "\<And>i. i < from \<Longrightarrow> i \<le> ?f" "?f \<le> from"
      using copy(1) by auto
    have "\<forall>i < Suc to. \<not> removed (?el2 i)" using "1.prems"(3) by (auto simp: less_Suc_eq)
    then have "t \<le> ?f \<and> (\<forall>i < t. \<not> removed (el' i)) \<and> live_pairs el' {..t} = live_pairs ?el2 {..?f}"
      by (intro "1.IH"(2) [OF _ _ copy(3) eq le]) (use copy in auto)
    moreover have "live_pairs ?el2 {..?f} = live_pairs el {..from}"
    proof (intro set_eqI iffI)
      fix x assume "x \<in> live_pairs ?el2 {..?f}"
      then obtain i where i: "i \<le> ?f" "\<not> removed (?el2 i)" "x = (the_key (?el2 i), the_data (?el2 i))"
        by (auto simp: live_pairs_def)
      show "x \<in> live_pairs el {..from}"
        using i copy(3) to_f(3) by (cases "i = to") (auto simp: live_pairs_def)
    next
      fix x assume "x \<in> live_pairs el {..from}"
      then obtain i where i: "i \<le> from" "\<not> removed (el i)" "x = (the_key (el i), the_data (el i))"
        by (auto simp: live_pairs_def)
      define j where "j = (if i = from then to else i)"
      have "j \<le> ?f" "\<not> removed (?el2 j)" "x = (the_key (?el2 j), the_data (?el2 j))"
        using i copy(2) to_f(1,2) by (auto simp: j_def)
      then show "x \<in> live_pairs ?el2 {..?f}" unfolding live_pairs_def by blast
    qed
    ultimately show ?thesis using to_f(3) by auto
  next
    case skip
    have "pack_loop to (from - 1) el = (t, el')"
      using "1.prems"(1) skip by (subst (asm) pack_loop.simps) simp
    moreover have "live_pairs el {..from - 1} = live_pairs el {..from}"
    proof -
      have "{..from} = insert from {..from - 1}" using skip(1) by auto
      then show ?thesis using skip(3) by (auto simp: live_pairs_def)
    qed
    moreover have "to \<le> from - 1" "from - 1 \<le> from" using skip(1) by auto
    moreover have "t \<le> from - 1 \<and> (\<forall>i < t. \<not> removed (el' i)) \<and>
        live_pairs el' {..t} = live_pairs el {..from - 1}"
      by (rule "1.IH"(3) [OF _ _ _ calculation(1,3)]) (use skip "1.prems"(3) in auto)
    ultimately show ?thesis by auto
  qed
qed

lemma rebuild_append: "rebuild (xs @ ys) ht = rebuild ys (rebuild xs ht)"
  by (induction xs arbitrary: ht) (auto simp: Let_def)

lemma rebuild_one:
  "rebuild [i] ht = (if removed (all_elems ht i) then ht else ht_push ht i (all_elems ht i))"
  by (simp add: ht_push_def Let_def)

definition same_entry :: "'d hash_table_elem \<Rightarrow> 'd hash_table_elem \<Rightarrow> bool" where
  "same_entry e f \<longleftrightarrow> the_key e = the_key f \<and> the_data e = the_data f \<and> removed e = removed f"

lemma rebuild_spec:
  assumes "ht_inv ht0" and "num_elems ht0 = 0" and "\<forall>i < n. \<not> removed (all_elems ht0 i)" and "n \<le> 256"
  defines "ht \<equiv> rebuild [0..<n] ht0"
  shows "ht_inv ht \<and> num_elems ht = n \<and> (\<forall>i. same_entry (all_elems ht i) (all_elems ht0 i)) \<and>
    (\<forall>k x. ht_abs ht k = Some x \<longrightarrow> snd x = False \<and> (k, fst x) \<in> live_pairs (all_elems ht0) {..<n}) \<and>
    (\<forall>k d. (k, d) \<in> live_pairs (all_elems ht0) {..<n} \<longrightarrow> ht_abs ht k \<noteq> None)"
  using assms(3,4) unfolding ht_def
proof (induction n)
  case 0
  then show ?case using assms(1,2)
    by (simp add: same_entry_def ht_abs_def ht_elem_def live_pairs_def)
next
  case (Suc n)
  let ?h = "rebuild [0..<n] ht0"
  have less: "\<forall>i < n. \<not> removed (all_elems ht0 i)" "n \<le> 256" using Suc.prems by auto
  have ih: "ht_inv ?h" "num_elems ?h = n" "\<forall>i. same_entry (all_elems ?h i) (all_elems ht0 i)"
    "\<forall>k x. ht_abs ?h k = Some x \<longrightarrow> snd x = False \<and> (k, fst x) \<in> live_pairs (all_elems ht0) {..<n}"
    "\<forall>k d. (k, d) \<in> live_pairs (all_elems ht0) {..<n} \<longrightarrow> ht_abs ?h k \<noteq> None"
    using Suc.IH [OF less] by blast+
  have e: "the_key (all_elems ?h n) = the_key (all_elems ht0 n)"
    "the_data (all_elems ?h n) = the_data (all_elems ht0 n)" "\<not> removed (all_elems ?h n)"
    using ih(3) Suc.prems(1) by (auto simp: same_entry_def)
  have h': "rebuild [0..<Suc n] ht0 = ht_push ?h (num_elems ?h) (all_elems ?h n)"
    using e ih(2) by (simp add: rebuild_append rebuild_one del: rebuild.simps)
  have "ht_inv (rebuild [0..<Suc n] ht0)"
    unfolding h' using ih(2) Suc.prems(2) by (intro push_inv ih(1)) (simp add: ht_max_num_elems_def)
  moreover have "ht_abs (rebuild [0..<Suc n] ht0) =
      (ht_abs ?h)(the_key (all_elems ht0 n) \<mapsto> (the_data (all_elems ht0 n), False))"
    unfolding h' push_abs using e by simp
  moreover have "num_elems (rebuild [0..<Suc n] ht0) = Suc n"
    "\<forall>i. same_entry (all_elems (rebuild [0..<Suc n] ht0) i) (all_elems ht0 i)"
    unfolding h' using ih(2,3) by (auto simp: ht_push_def Let_def same_entry_def)
  moreover have "live_pairs (all_elems ht0) {..<Suc n} =
      insert (the_key (all_elems ht0 n), the_data (all_elems ht0 n)) (live_pairs (all_elems ht0) {..<n})"
    using Suc.prems(1) by (simp add: live_pairs_step)
  ultimately show ?case using ih(4,5) by (simp split: if_splits) blast
qed

text \<open>Packing keeps exactly the live entries.\<close>

lemma pack_spec:
  assumes inv: "ht_inv ht" and n: "0 < num_elems ht" and inj: "inj_on (ht_key ht) {..<num_elems ht}"
  shows "\<exists>ht'. hash_table_pack ht = Some ht' \<and> ht_inv ht' \<and> num_elems ht' \<le> num_elems ht \<and>
    (\<forall>k. ht_abs ht' k = (case ht_abs ht k of Some (d, False) \<Rightarrow> Some (d, False) | _ \<Rightarrow> None))"
proof -
  obtain t el where loop: "pack_loop 0 (num_elems ht - 1) (all_elems ht) = (t, el)"
    by (cases "pack_loop 0 (num_elems ht - 1) (all_elems ht)")
  have t: "t \<le> num_elems ht - 1" "\<forall>i < t. \<not> removed (el i)"
    and pairs: "live_pairs el {..t} = live_pairs (all_elems ht) {..num_elems ht - 1}"
    using pack_loop_live [OF loop] by auto
  let ?base = "ht\<lparr>all_elems := el, bins := (\<lambda>b. if b < ht_num_bins then None else bins ht b), num_elems := 0\<rparr>"
  define m where "m = (if removed (el t) then t else Suc t)"
  have "rebuild [0..<Suc t] ?base = rebuild [0..<m] ?base" if "removed (el t)"
  proof -
    have "same_entry (all_elems (rebuild [0..<t] ?base) t) (el t)"
      using rebuild_spec [of ?base t] t inv that n
      by (auto simp: ht_inv_def bin_list_def ht_max_num_elems_def)
    then show ?thesis using that by (simp add: m_def rebuild_append rebuild_one same_entry_def del: rebuild.simps)
  qed
  then have rb: "rebuild [0..<Suc t] ?base = rebuild [0..<m] ?base" by (simp add: m_def)
  let ?h = "rebuild [0..<m] ?base"
  have m: "\<forall>i < m. \<not> removed (el i)" "m \<le> num_elems ht"
    using t n by (auto simp: m_def less_Suc_eq split: if_splits)
  have lp: "live_pairs el {..<m} = live_pairs (all_elems ht) {..<num_elems ht}"
  proof -
    have "live_pairs el {..<m} = live_pairs el {..<Suc t}" by (simp add: m_def live_pairs_step)
    moreover have "{..num_elems ht - 1} = {..<num_elems ht}" using n by auto
    ultimately show ?thesis using pairs by (simp add: lessThan_Suc_atMost)
  qed
  have h0: "ht_inv ?base" by (simp add: ht_inv_def bin_list_def)
  have le: "m \<le> 256" using m(2) inv by (simp add: ht_inv_def ht_max_num_elems_def)
  have base: "all_elems ?base = el" "num_elems ?base = 0" "\<forall>i < m. \<not> removed (all_elems ?base i)"
    using m(1) by simp_all
  have sp: "ht_inv ?h" "num_elems ?h = m"
    "\<forall>k x. ht_abs ?h k = Some x \<longrightarrow> snd x = False \<and> (k, fst x) \<in> live_pairs el {..<m}"
    "\<forall>k d. (k, d) \<in> live_pairs el {..<m} \<longrightarrow> ht_abs ?h k \<noteq> None"
    using rebuild_spec [OF h0 base(2) base(3) le, unfolded base(1)] by blast+
  have live: "(k, d) \<in> live_pairs (all_elems ht) {..<num_elems ht} \<longleftrightarrow> ht_abs ht k = Some (d, False)" for k d
    by (auto simp: live_pairs_def ht_abs_def ht_elem_inj [OF inj] ht_key_def)
  have "ht_abs ?h k = (case ht_abs ht k of Some (d, False) \<Rightarrow> Some (d, False) | _ \<Rightarrow> None)" for k
  proof (cases "ht_abs ?h k")
    case None
    then have "ht_abs ht k \<noteq> Some (d, False)" for d using sp(4) live lp by blast
    then show ?thesis using None by (auto split: option.splits bool.splits)
  next
    case (Some x)
    then have "ht_abs ht k = Some (fst x, False)" "snd x = False" using sp(3) live lp by blast+
    then show ?thesis using Some by (cases x) simp
  qed
  moreover have "hash_table_pack ht = Some ?h"
    using n rb loop by (simp add: hash_table_pack_def del: upt_Suc One_nat_def)
  ultimately show ?thesis using sp(1,2) m(2) by (intro exI [of _ ?h]) simp
qed

section \<open>Requests to the table\<close>

text \<open>
  The requests and their answers, on the code and on the map of entries and marks; \<open>None\<close> for the
  code is a walk that does not end.
\<close>

datatype 'd ht_op = HAdd "'d option" u32 | HRemove u32 | HLookup u32 | HUpdate u32 "'d option"

datatype 'd ht_ans = Ret int | Data "'d option"

fun ht_op_key :: "'d ht_op \<Rightarrow> u32" where
  "ht_op_key (HAdd d k) = k"
| "ht_op_key (HRemove k) = k"
| "ht_op_key (HLookup k) = k"
| "ht_op_key (HUpdate k d) = k"

fun ht_step :: "'d ht_op \<Rightarrow> 'd hash_table \<times> 'd ht_ans list \<Rightarrow> ('d hash_table \<times> 'd ht_ans list) option" where
  "ht_step (HAdd d k) (ht, as) = map_option (\<lambda>(r, ht'). (ht', Ret r # as)) (hash_table_add ht d k)"
| "ht_step (HRemove k) (ht, as) = map_option (\<lambda>(d, ht'). (ht', Data d # as)) (hash_table_remove ht k)"
| "ht_step (HLookup k) (ht, as) = map_option (\<lambda>d. (ht, Data d # as)) (hash_table_lookup ht k)"
| "ht_step (HUpdate k d) (ht, as) = map_option (\<lambda>(r, ht'). (ht', Ret r # as)) (hash_table_update ht k d)"

type_synonym 'd ht_map = "u32 \<Rightarrow> ('d option \<times> bool) option"

fun spec_step :: "'d ht_op \<Rightarrow> 'd ht_map \<times> 'd ht_ans list \<Rightarrow> 'd ht_map \<times> 'd ht_ans list" where
  "spec_step (HAdd d k) (m, as) = (snd (spec_add m d k), Ret (fst (spec_add m d k)) # as)"
| "spec_step (HRemove k) (m, as) =
     (case m k of None \<Rightarrow> (m, Data None # as) | Some (d, r) \<Rightarrow> (m(k \<mapsto> (d, True)), Data d # as))"
| "spec_step (HLookup k) (m, as) = (m, Data (case m k of None \<Rightarrow> None | Some (d, r) \<Rightarrow> d) # as)"
| "spec_step (HUpdate k d) (m, as) =
     (case m k of None \<Rightarrow> (m, Ret (-1) # as) | Some (d', r) \<Rightarrow> (m(k \<mapsto> (d, r)), Ret 0 # as))"

text \<open>The table represents \<open>m\<close>, and has used one element for every key it has met.\<close>

definition ht_sim :: "u32 set \<Rightarrow> 'd hash_table \<times> 'd ht_ans list \<Rightarrow> 'd ht_map \<times> 'd ht_ans list \<Rightarrow> bool" where
  "ht_sim K s t \<longleftrightarrow> finite K \<and> card K < ht_max_num_elems \<and> ht_inv (fst s) \<and> ht_abs (fst s) = fst t \<and>
     snd s = snd t \<and> dom (fst t) \<subseteq> K \<and> num_elems (fst s) = card (dom (fst t))"

lemma ht_step_sim:
  assumes sim: "ht_sim K (ht, as) (m, as)" and k: "ht_op_key x \<in> K"
  shows "\<exists>s'. ht_step x (ht, as) = Some s' \<and> ht_sim K s' (spec_step x (m, as))"
proof -
  have inv: "ht_inv ht" "ht_abs ht = m" "dom m \<subseteq> K" "num_elems ht = card (dom m)"
    and K: "finite K" "card K < ht_max_num_elems" using sim by (auto simp: ht_sim_def)
  then have room: "num_elems ht < ht_max_num_elems" "finite (dom m)"
    by (metis card_mono le_less_trans) (metis K(1) inv(3) finite_subset)
  show ?thesis
  proof (cases x)
    case (HAdd d key)
    obtain ht' where "add_packed ht d key = Some (fst (spec_add m d key), ht')" "ht_inv ht'"
        "ht_abs ht' = snd (spec_add m d key)"
        "num_elems ht' = (if m key = None then Suc (num_elems ht) else num_elems ht)"
      using add_packed_spec [OF inv(1) room(1), of d key] inv(2) by auto
    moreover have "dom (snd (spec_add m d key)) = insert key (dom m)"
      by (auto simp: spec_add_def split: option.splits bool.splits)
    ultimately show ?thesis using HAdd room K inv k
      by (auto simp: hash_table_add_def ht_sim_def card_insert_if domIff)
  next
    case (HRemove key)
    obtain ht' where "hash_table_remove ht key =
        Some (case m key of None \<Rightarrow> None | Some (d, r) \<Rightarrow> d, ht')" "ht_inv ht'"
        "num_elems ht' = num_elems ht"
        "ht_abs ht' = (case m key of None \<Rightarrow> m | Some (d, r) \<Rightarrow> m(key \<mapsto> (d, True)))"
      using remove_spec [OF inv(1), of key] inv(2) by auto
    then show ?thesis using HRemove K inv k
      by (cases "m key") (auto simp: ht_sim_def insert_absorb domIff split: if_splits)
  next
    case (HLookup key)
    then show ?thesis using sim inv lookup_spec [OF inv(1)] by (simp add: ht_sim_def)
  next
    case (HUpdate key d)
    obtain ht' where "hash_table_update ht key d = Some (if m key = None then -1 else 0, ht')" "ht_inv ht'"
        "num_elems ht' = num_elems ht"
        "ht_abs ht' = (case m key of None \<Rightarrow> m | Some (d', r) \<Rightarrow> m(key \<mapsto> (d, r)))"
      using update_spec [OF inv(1), of key d] inv(2) by auto
    then show ?thesis using HUpdate K inv k
      by (cases "m key") (auto simp: ht_sim_def insert_absorb domIff split: if_splits)
  qed
qed

section \<open>Properties\<close>

text \<open>The code refines the map as long as fewer than 256 keys are in use.\<close>

interpretation ht: guarded_machine "\<lambda>(x :: 'd ht_op) (s, t). map_option (\<lambda>s'. (s', spec_step x t)) (ht_step x s)"
  "\<lambda>x. ht_op_key x \<in> K" "\<lambda>(s, t). ht_sim K s t"
  for K
proof
  fix x :: "'d ht_op" and p :: "('d hash_table \<times> 'd ht_ans list) \<times> 'd ht_map \<times> 'd ht_ans list"
  assume k: "ht_op_key x \<in> K" and p: "case p of (s, t) \<Rightarrow> ht_sim K s t"
  obtain h as m bs where [simp]: "p = ((h, as), (m, bs))" by (cases p) auto
  have "bs = as" using p by (simp add: ht_sim_def)
  then show "\<exists>p'. (case p of (s, t) \<Rightarrow> map_option (\<lambda>s'. (s', spec_step x t)) (ht_step x s)) = Some p' \<and>
      (case p' of (s, t) \<Rightarrow> ht_sim K s t)"
    using ht_step_sim [of K h as m x] k p by (cases "spec_step x (m, as)") auto
qed

lemma paired_run:
  "run_ops (\<lambda>x (s, t). map_option (\<lambda>s'. (s', g x t)) (f x s)) xs (s, t) =
    map_option (\<lambda>s'. (s', fold g xs t)) (run_ops f xs s)"
  by (induction xs arbitrary: s t) (auto split: option.splits)



text \<open>
  packing a table of distinct keys keeps exactly the entries that are not marked as removed,
  with their data, and never needs more elements than before.
\<close>

theorem pack_keeps_live_entries:
  assumes "ht_inv ht" and "0 < num_elems ht" and "inj_on (ht_key ht) {..<num_elems ht}"
  shows "\<exists>ht'. hash_table_pack ht = Some ht' \<and> num_elems ht' \<le> num_elems ht \<and>
    (\<forall>k. ht_abs ht' k = (case ht_abs ht k of Some (d, False) \<Rightarrow> Some (d, False) | _ \<Rightarrow> None))"
  using pack_spec [OF assms] by blast

lemma add_first:
  "\<exists>ht'. hash_table_add (hash_table_initialize ht) d k = Some (0, ht') \<and> ht_inv ht' \<and>
    ht_abs ht' = [k \<mapsto> (d, False)] \<and> num_elems ht' = 1"
proof -
  have n: "num_elems (hash_table_initialize ht) = 0" by (simp add: hash_table_initialize_def)
  then have "hash_table_add (hash_table_initialize ht) d k = add_packed (hash_table_initialize ht) d k"
    by (simp add: hash_table_add_def ht_max_num_elems_def)
  then show ?thesis using add_packed_spec [OF init_inv, of ht d k] n
    by (simp add: init_abs spec_add_def ht_max_num_elems_def)
qed

lemma pack_loop_skip:
  "to \<le> m \<Longrightarrow> m \<le> from \<Longrightarrow> \<forall>i. to \<le> i \<and> i < m \<longrightarrow> \<not> removed (el i) \<Longrightarrow>
    pack_loop to from el = pack_loop m from el"
proof (induction "m - to" arbitrary: to)
  case (Suc d)
  then have "to < m" by simp
  then have "to < from" "\<not> removed (el to)" using Suc.prems by simp_all
  then have "pack_loop to from el = pack_loop (Suc to) from el" by (subst pack_loop.simps) simp
  also have "\<dots> = pack_loop m from el"
    using Suc.hyps(2) Suc.prems \<open>to < m\<close> by (intro Suc.hyps(1)) auto
  finally show ?case .
qed simp

text \<open>
  packing may reclaim nothing. When the only removed element is the one before the last, the
  last element is copied over it and kept as well, so the table stays full: the next add of a new
  key fails although there is a free element.
\<close>

theorem pack_reclaims_nothing:
  assumes "num_elems ht = ht_max_num_elems" and "\<forall>i < ht_max_num_elems. removed (all_elems ht i) \<longleftrightarrow> i = 254"
  shows "\<exists>ht'. hash_table_add ht d k = Some (-1, ht') \<and> num_elems ht' = ht_max_num_elems"
proof -
  let ?el = "all_elems ht"
  let ?e = "\<lparr>the_key = the_key (?el 255), removed = False, the_data = the_data (?el 255), nxt = None\<rparr>"
  have "pack_loop 0 255 ?el = pack_loop 254 255 ?el"
    using assms(2) by (intro pack_loop_skip) (auto simp: ht_max_num_elems_def)
  also have "\<dots> = (255, ?el(254 := ?e))"
    using assms(2) by (simp add: pack_loop.simps ht_max_num_elems_def)
  finally have loop: "pack_loop 0 255 ?el = (255, ?el(254 := ?e))" .
  let ?base = "ht\<lparr>all_elems := ?el(254 := ?e),
    bins := (\<lambda>b. if b < ht_num_bins then None else bins ht b), num_elems := 0\<rparr>"
  have "num_elems (rebuild [0..<Suc 255] ?base) = Suc 255"
    using rebuild_spec [of ?base "Suc 255"] assms(2)
    by (simp add: ht_inv_def bin_list_def ht_max_num_elems_def del: upt_Suc rebuild.simps)
  moreover have "hash_table_pack ht = Some (rebuild [0..<Suc 255] ?base)"
    using loop assms(1) by (simp add: hash_table_pack_def ht_max_num_elems_def del: upt_Suc rebuild.simps)
  ultimately show ?thesis using assms(1)
    by (simp add: hash_table_add_def ht_max_num_elems_def del: upt_Suc rebuild.simps)
qed

theorem pack_reclaims_nothing_witness:
  "\<exists>ht'. hash_table_add \<lparr>all_elems = (\<lambda>i. \<lparr>the_key = of_nat i, removed = (i = 254), the_data = Some i,
      nxt = None\<rparr>), bins = (\<lambda>b. Some b), num_elems = 256\<rparr> (Some 1) 1000 = Some (-1, ht') \<and>
    num_elems ht' = ht_max_num_elems"
  by (rule pack_reclaims_nothing) (simp_all add: ht_max_num_elems_def)

text \<open>
  a removed entry can still be looked up and removed again. \<open>hash_table_remove\<close> only marks the
  element and neither it nor \<open>hash_table_lookup\<close> looks at the mark.
\<close>

theorem removed_entry_still_found:
  assumes "ht_inv ht" and "ht_abs ht k = Some (d, r)"
  shows "\<exists>ht'. hash_table_remove ht k = Some (d, ht') \<and> hash_table_lookup ht' k = Some d \<and>
    (\<exists>ht''. hash_table_remove ht' k = Some (d, ht''))"
proof -
  obtain ht' where "hash_table_remove ht k = Some (d, ht')" "ht_inv ht'" "ht_abs ht' k = Some (d, True)"
    using remove_spec [OF assms(1), of k] assms(2) by auto
  then show ?thesis using lookup_spec [of ht' k] remove_spec [of ht' k] by auto
qed

theorem removed_entry_still_found_witness:
  "\<exists>ht0 ht'. hash_table_add (hash_table_initialize ht_zeroed) (Some True) 5 = Some (0, ht0) \<and>
    hash_table_remove ht0 5 = Some (Some True, ht') \<and> hash_table_lookup ht' 5 = Some (Some True)"
proof -
  obtain ht0 where "hash_table_add (hash_table_initialize ht_zeroed) (Some True) 5 = Some (0, ht0)"
      "ht_inv ht0" "ht_abs ht0 5 = Some (Some True, False)"
    using add_first [of ht_zeroed "Some True" 5] by auto
  then show ?thesis using removed_entry_still_found [of ht0 5 "Some True" False] by blast
qed

theorem pack_keeps_live_entries_witness:
  "\<exists>ht0 ht'. hash_table_add (hash_table_initialize ht_zeroed) (Some True) 5 = Some (0, ht0) \<and>
    hash_table_pack ht0 = Some ht' \<and> ht_abs ht' 5 = Some (Some True, False)"
proof -
  obtain ht0 where "hash_table_add (hash_table_initialize ht_zeroed) (Some True) 5 = Some (0, ht0)"
      "ht_inv ht0" "ht_abs ht0 5 = Some (Some True, False)" "num_elems ht0 = 1"
    using add_first [of ht_zeroed "Some True" 5] by auto
  then show ?thesis using pack_keeps_live_entries [of ht0] by (auto simp: inj_on_def)
qed

end
