(* ===== verification/TrapMap.thy ===== *)
theory TrapMap
  imports HashTable
begin

text \<open>
  Trap based instrumentation of the i386 driver (\<open>kerninst.c\<close>, the functions from \<open>get_int3_handler\<close>
  to \<open>kerninst_int3_handler\<close>): a breakpoint instruction at a trap address is redirected to its patch
  through the hash table \<open>ht_traps\<close>. The kernel's int3 entry code calls the handler whose address is
  the operand three bytes into it; installing a handler overwrites that operand in kernel memory.
  \<open>handler\<close> is the address of \<open>kerninst_int3_handler\<close> in the loaded module. A \<open>u_long\<close> that is stored as
  a pointer is \<open>None\<close> when it is 0.
\<close>

section \<open>Words in memory\<close>

definition le32 :: "u32 \<Rightarrow> u8 list" where
  "le32 w = [ucast w, ucast (drop_bit 8 w), ucast (drop_bit 16 w), ucast (drop_bit 24 w)]"

definition un_le32 :: "u8 list \<Rightarrow> u32" where
  "un_le32 bs = foldr (\<lambda>b acc. ucast b OR push_bit 8 acc) bs 0"

lemma length_le32 [simp]: "length (le32 w) = 4"
  by (simp add: le32_def)

lemma un_le32_le32 [simp]: "un_le32 (le32 w) = w"
  by (rule bit_word_eqI, auto simp: le32_def un_le32_def bit_simps simp del: push_bit_numeral, rule ccontr, simp)

section \<open>The trap table and the handler\<close>

record trap_state =
  ht_traps :: "kptr hash_table"
  num_traps_installed :: int
  do_int3_addr :: kptr
  int3_handler_addr :: kptr
  int3_handler_installed :: bool

record pt_regs =
  eip :: u32
  xcs :: u32

definition as_ptr :: "kptr \<Rightarrow> kptr option" where
  "as_ptr p = (if p = 0 then None else Some p)"

text \<open>\<open>(a, b)\<close> are the two words of the interrupt descriptor of vector 3.\<close>

definition get_int3_handler :: "bool \<Rightarrow> u32 \<times> u32 \<Rightarrow> kmem \<Rightarrow> trap_state \<Rightarrow> trap_state" where
  "get_int3_handler first_call ab m t =
     (if first_call then
        let entry = (snd ab AND 0xFFFF0000) + (fst ab AND 0x0000FFFF)
        in t\<lparr>int3_handler_addr := entry, do_int3_addr := un_le32 (read_bytes m (entry + 3) 4)\<rparr>
      else t)"

definition set_int3_handler :: "kptr \<Rightarrow> kmem \<Rightarrow> trap_state \<Rightarrow> int \<times> kmem" where
  "set_int3_handler a m t =
     (if a = 0 then (1, m) else (0, write_bytes m (int3_handler_addr t + 3) (le32 a)))"

definition install_trap_mapping ::
  "kptr \<Rightarrow> kptr \<Rightarrow> kptr \<Rightarrow> kmem \<times> trap_state \<Rightarrow> (int \<times> kmem \<times> trap_state) option" where
  "install_trap_mapping handler trap_addr patch_addr mt =
     (let (m, t) = mt;
          (m1, t1) = (if \<not> int3_handler_installed t
                      then (snd (set_int3_handler handler m t), t\<lparr>int3_handler_installed := False\<rparr>)
                      else (m, t))
      in (case hash_table_add (ht_traps t1) (as_ptr patch_addr) trap_addr of
            None \<Rightarrow> None
          | Some (ret, ht) \<Rightarrow>
              Some (ret, m1, t1\<lparr>ht_traps := ht,
                num_traps_installed := (if ret = 0 then num_traps_installed t1 + 1 else num_traps_installed t1)\<rparr>)))"

definition update_trap_mapping :: "kptr \<Rightarrow> kptr \<Rightarrow> trap_state \<Rightarrow> (int \<times> trap_state) option" where
  "update_trap_mapping trap_addr patch_addr t =
     map_option (\<lambda>(ret, ht). (ret, t\<lparr>ht_traps := ht\<rparr>))
       (hash_table_update (ht_traps t) trap_addr (as_ptr patch_addr))"

definition uninstall_trap_mapping ::
  "kptr \<Rightarrow> kmem \<times> trap_state \<Rightarrow> (int \<times> kmem \<times> trap_state) option" where
  "uninstall_trap_mapping trap_addr mt =
     (let (m, t) = mt
      in (case hash_table_remove (ht_traps t) trap_addr of
            None \<Rightarrow> None
          | Some (patch_addr, ht) \<Rightarrow>
              (case patch_addr of
                 None \<Rightarrow> Some (-1, m, t\<lparr>ht_traps := ht\<rparr>)
               | Some _ \<Rightarrow>
                   let n = num_traps_installed t - 1;
                       t1 = t\<lparr>ht_traps := ht, num_traps_installed := n\<rparr>
                   in if n = 0 \<and> int3_handler_installed t1
                      then Some (0, snd (set_int3_handler (do_int3_addr t1) m t1),
                             t1\<lparr>int3_handler_installed := False\<rparr>)
                      else Some (0, m, t1))))"

definition match_addr :: "kptr \<Rightarrow> trap_state \<Rightarrow> kptr option" where
  "match_addr trap_addr t =
     map_option (\<lambda>d. case d of None \<Rightarrow> 0 | Some p \<Rightarrow> p) (hash_table_lookup (ht_traps t) trap_addr)"

text \<open>What a breakpoint leads to: the interrupted code goes on at the patch, or the kernel's own
  handler is called with the registers as they are.\<close>

datatype int3_outcome = Resume pt_regs | Do_int3 pt_regs

definition kerninst_int3_handler :: "pt_regs \<Rightarrow> trap_state \<Rightarrow> int3_outcome option" where
  "kerninst_int3_handler regs t =
     (let trap_addr = eip regs - 1
      in if xcs regs AND 3 = 0 then
           map_option (\<lambda>patch_addr. if patch_addr \<noteq> 0 then Resume (regs\<lparr>eip := patch_addr\<rparr>) else Do_int3 regs)
             (match_addr trap_addr t)
         else Some (Do_int3 regs))"

section \<open>The table as a map from traps to patches\<close>

datatype trap_op = RegisterTrap kptr kptr | UpdateTrap kptr kptr | UnregisterTrap kptr

fun trap_op_addr :: "trap_op \<Rightarrow> kptr" where
  "trap_op_addr (RegisterTrap a p) = a"
| "trap_op_addr (UpdateTrap a p) = a"
| "trap_op_addr (UnregisterTrap a) = a"

fun trap_step :: "kptr \<Rightarrow> trap_op \<Rightarrow> kmem \<times> trap_state \<Rightarrow> (kmem \<times> trap_state) option" where
  "trap_step handler (RegisterTrap a p) mt = map_option snd (install_trap_mapping handler a p mt)"
| "trap_step handler (UpdateTrap a p) mt = map_option (\<lambda>r. (fst mt, snd r)) (update_trap_mapping a p (snd mt))"
| "trap_step handler (UnregisterTrap a) mt = map_option snd (uninstall_trap_mapping a mt)"

text \<open>The map: the patch of each trap ever registered, and whether it has been unregistered since.\<close>

fun trap_spec :: "trap_op \<Rightarrow> (kptr \<Rightarrow> (kptr \<times> bool) option) \<Rightarrow> (kptr \<Rightarrow> (kptr \<times> bool) option)" where
  "trap_spec (RegisterTrap a p) tm = (case tm a of Some (q, False) \<Rightarrow> tm | _ \<Rightarrow> tm(a \<mapsto> (p, False)))"
| "trap_spec (UpdateTrap a p) tm = (case tm a of Some (q, r) \<Rightarrow> tm(a \<mapsto> (p, r)) | None \<Rightarrow> tm)"
| "trap_spec (UnregisterTrap a) tm = (case tm a of Some (q, r) \<Rightarrow> tm(a \<mapsto> (q, True)) | None \<Rightarrow> tm)"

definition trap_rep :: "(kptr \<Rightarrow> (kptr \<times> bool) option) \<Rightarrow> kptr ht_map" where
  "trap_rep tm = (\<lambda>a. map_option (\<lambda>(p, r). (as_ptr p, r)) (tm a))"

definition trap_sim :: "u32 set \<Rightarrow> (kmem \<times> trap_state) \<times> (kptr \<Rightarrow> (kptr \<times> bool) option) \<Rightarrow> bool" where
  "trap_sim K s \<longleftrightarrow> ht_sim K (ht_traps (snd (fst s)), []) (trap_rep (snd s), [])"

fun trap_ht_op :: "trap_op \<Rightarrow> kptr ht_op" where
  "trap_ht_op (RegisterTrap a p) = HAdd (as_ptr p) a"
| "trap_ht_op (UpdateTrap a p) = HUpdate a (as_ptr p)"
| "trap_ht_op (UnregisterTrap a) = HRemove a"

lemma trap_ht_op_key [simp]: "ht_op_key (trap_ht_op x) = trap_op_addr x"
  by (cases x) auto

lemma trap_rep_upd [simp]: "trap_rep (tm(a \<mapsto> (p, r))) = (trap_rep tm)(a \<mapsto> (as_ptr p, r))"
  by (auto simp: trap_rep_def)

lemma trap_spec_rep: "fst (spec_step (trap_ht_op x) (trap_rep tm, as)) = trap_rep (trap_spec x tm)"
  by (cases x; cases "tm (trap_op_addr x)") (auto simp: spec_add_def trap_rep_def split: bool.splits)

lemma trap_step_table:
  "ht_step (trap_ht_op x) (ht_traps t, []) = Some (ht', as') \<Longrightarrow>
    \<exists>m' t'. trap_step handler x (m, t) = Some (m', t') \<and> ht_traps t' = ht' \<and>
      do_int3_addr t' = do_int3_addr t \<and> int3_handler_addr t' = int3_handler_addr t \<and>
      (\<not> int3_handler_installed t \<longrightarrow> \<not> int3_handler_installed t')"
  by (cases x) (auto simp: install_trap_mapping_def update_trap_mapping_def uninstall_trap_mapping_def
      Let_def split: option.splits)

lemma ht_sim_answers: "ht_sim K (ht, as) (m, as) \<Longrightarrow> ht_sim K (ht, bs) (m, bs)"
  by (simp add: ht_sim_def)

interpretation traps: guarded_machine
  "\<lambda>x (s, tm). map_option (\<lambda>s'. (s', trap_spec x tm)) (trap_step handler x s)"
  "\<lambda>x. trap_op_addr x \<in> K" "trap_sim K" for handler K
proof
  fix x and p :: "(kmem \<times> trap_state) \<times> (kptr \<Rightarrow> (kptr \<times> bool) option)"
  assume k: "trap_op_addr x \<in> K" and p: "trap_sim K p"
  obtain m t tm where [simp]: "p = ((m, t), tm)" by (cases p) auto
  obtain ht' as' where step: "ht_step (trap_ht_op x) (ht_traps t, []) = Some (ht', as')"
    and sim: "ht_sim K (ht', as') (spec_step (trap_ht_op x) (trap_rep tm, []))"
    using ht_step_sim [of K "ht_traps t" "[]" "trap_rep tm" "trap_ht_op x"] p k by (auto simp: trap_sim_def)
  obtain m' t' where t': "trap_step handler x (m, t) = Some (m', t')" "ht_traps t' = ht'"
    using trap_step_table [OF step] by blast
  have "ht_sim K (ht', as') (trap_rep (trap_spec x tm), as')"
    using sim trap_spec_rep [of x tm "[]"] by (cases "spec_step (trap_ht_op x) (trap_rep tm, [])") (simp add: ht_sim_def)
  then show "\<exists>p'. (case p of (s, tm) \<Rightarrow> map_option (\<lambda>s'. (s', trap_spec x tm)) (trap_step handler x s)) = Some p' \<and>
      trap_sim K p'"
    using t' ht_sim_answers by (auto simp: trap_sim_def)
qed

lemma int3_dispatch:
  assumes "trap_sim K ((m, t), tm)"
  shows "kerninst_int3_handler regs t =
    Some (if xcs regs AND 3 = 0 then
            (case tm (eip regs - 1) of
               Some (p, r) \<Rightarrow> if p = 0 then Do_int3 regs else Resume (regs\<lparr>eip := p\<rparr>)
             | None \<Rightarrow> Do_int3 regs)
          else Do_int3 regs)"
proof -
  have "ht_inv (ht_traps t)" "ht_abs (ht_traps t) = trap_rep tm" using assms by (auto simp: trap_sim_def ht_sim_def)
  then show ?thesis
    by (auto simp: kerninst_int3_handler_def match_addr_def lookup_spec trap_rep_def as_ptr_def split: option.splits)
qed

section \<open>Properties\<close>



end
