(* ===== verification/CalleeCounter.thy ===== *)
theory CalleeCounter
  imports Kerninst_Prelude
begin

text \<open>
  Counting the destinations of indirect calls (\<open>kerninstdriver-linux/src/calleeCounter.c\<close>): 512
  header cells followed by the cells of the pairs met so far, each bin a chain that hangs from its
  header and grows at its end. A pointer to a cell is its index; \<open>None\<close> is not returning, or a
  dereference of the table's null pointer. The spin locks and the two threads racing between the
  search and the insertion, which the source describes, are left out.
\<close>

section \<open>Model\<close>

record callee_info =
  site_addr :: kptr
  callee_addr :: kptr
  call_count :: u32
  ci_next :: "nat option"

definition NUM_TOTAL :: nat where
  "NUM_TOTAL = 8192"

definition NUM_BINS :: nat where
  "NUM_BINS = 512"

definition NUM_BINS_MASK :: u32 where
  "NUM_BINS_MASK = 0x1FF"

record callee_table =
  htable :: "nat \<Rightarrow> callee_info"
  free_pos :: nat

text \<open>\<open>vmalloc\<close> returns uninitialised memory, or the null pointer.\<close>

definition kerninst_init_callee_counter ::
  "(nat \<Rightarrow> callee_info) option \<Rightarrow> nat \<Rightarrow> callee_table option" where
  "kerninst_init_callee_counter vmalloced free_pos0 =
     map_option (\<lambda>t. \<lparr>htable = t, free_pos = free_pos0\<rparr>) vmalloced"

definition kerninst_reset_callee_counter :: "callee_table \<Rightarrow> callee_table" where
  "kerninst_reset_callee_counter t =
     t\<lparr>htable := (\<lambda>i. if i < NUM_BINS
         then \<lparr>site_addr = 0, callee_addr = 0, call_count = 0, ci_next = None\<rparr> else htable t i),
       free_pos := NUM_BINS\<rparr>"

function hfunc_loop :: "u32 \<Rightarrow> u32 \<Rightarrow> u32" where
  "hfunc_loop val result =
     (if val = 0 then result
      else hfunc_loop (drop_bit 2 val) (push_bit 1 result + result + (val AND 3)))"
  by pat_completeness auto
termination
proof (relation "measure (\<lambda>(val, _). unat val)")
  fix val :: u32
  assume "val \<noteq> 0"
  then have "0 < unat val" by (simp add: unat_gt_0)
  moreover have "unat (drop_bit 2 val) = unat val div 4" by (simp add: drop_bit_eq_div unat_div)
  ultimately show "((drop_bit 2 val, r), val, r') \<in> measure (\<lambda>(val, _). unat val)" for r r' by simp
qed simp

declare hfunc_loop.simps [simp del]

definition hfunc :: "kptr \<Rightarrow> nat" where
  "hfunc site = unat (hfunc_loop (drop_bit 2 site) 0 AND NUM_BINS_MASK)"

definition ct_next :: "callee_table \<Rightarrow> nat \<Rightarrow> nat option" where
  "ct_next t i = ci_next (htable t i)"

definition ct_pair :: "callee_table \<Rightarrow> nat \<Rightarrow> kptr \<times> kptr" where
  "ct_pair t i = (site_addr (htable t i), callee_addr (htable t i))"

text \<open>The search loop: the cell before the first cell of the pair, or the last cell of the bin.\<close>

partial_function (option) callee_walk ::
  "(nat \<Rightarrow> nat option) \<Rightarrow> (nat \<Rightarrow> bool) \<Rightarrow> nat \<Rightarrow> nat option" where
  "callee_walk nx P cur =
     (case nx cur of None \<Rightarrow> Some cur | Some i \<Rightarrow> if P i then Some cur else callee_walk nx P i)"

definition kerninst_update_callee_count :: "callee_table \<Rightarrow> kptr \<Rightarrow> kptr \<Rightarrow> callee_table option" where
  "kerninst_update_callee_count t site callee =
     (case callee_walk (ct_next t) (\<lambda>i. ct_pair t i = (site, callee)) (hfunc site) of
        None \<Rightarrow> None
      | Some cur \<Rightarrow>
          (case ct_next t cur of
             None \<Rightarrow>
               if free_pos t < NUM_TOTAL - 1 then
                 let idx = Suc (free_pos t);
                     h1 = (htable t)(idx := \<lparr>site_addr = site, callee_addr = callee, call_count = 1,
                            ci_next = ct_next t cur\<rparr>);
                     h2 = h1(cur := (h1 cur)\<lparr>ci_next := Some idx\<rparr>)
                 in Some (t\<lparr>htable := h2, free_pos := idx\<rparr>)
               else Some t
           | Some i \<Rightarrow>
               Some (t\<lparr>htable := (htable t)(i := (htable t i)\<lparr>call_count := call_count (htable t i) + 1\<rparr>)\<rparr>)))"

definition kerninst_num_callees_for_site :: "callee_table \<Rightarrow> kptr \<Rightarrow> u32 option" where
  "kerninst_num_callees_for_site t site =
     chain_fold (ct_next t) (\<lambda>i rv. if site_addr (htable t i) = site then rv + 1 else rv)
       (ct_next t (hfunc site)) 0"

text \<open>The values stored to \<open>buffer\<close>, in order; \<open>num_entries\<close> bounds their number.\<close>

partial_function (option) get_callees_loop ::
  "callee_table \<Rightarrow> kptr \<Rightarrow> nat \<Rightarrow> nat option \<Rightarrow> u32 list \<Rightarrow> u32 list option" where
  "get_callees_loop t site num_entries cur buffer =
     (case cur of
        None \<Rightarrow> Some buffer
      | Some i \<Rightarrow>
          if length buffer < num_entries then
            get_callees_loop t site num_entries (ct_next t i)
              (if site_addr (htable t i) = site
               then buffer @ [callee_addr (htable t i), call_count (htable t i)] else buffer)
          else Some buffer)"

definition kerninst_get_callees_for_site :: "callee_table \<Rightarrow> kptr \<Rightarrow> u32 \<Rightarrow> u32 list option" where
  "kerninst_get_callees_for_site t site num_addrs =
     get_callees_loop t site (unat (2 * num_addrs)) (ct_next t (hfunc site)) []"

text \<open>The triples printed, bin by bin.\<close>

fun dump_bins :: "callee_table \<Rightarrow> nat list \<Rightarrow> (kptr \<times> kptr \<times> u32) list option" where
  "dump_bins t [] = Some []"
| "dump_bins t (b # bs) =
     (case chain_fold (ct_next t)
             (\<lambda>i out. out @ [(site_addr (htable t i), callee_addr (htable t i), call_count (htable t i))])
             (ct_next t b) [] of
        None \<Rightarrow> None
      | Some out \<Rightarrow> map_option (\<lambda>rest. out @ rest) (dump_bins t bs))"

definition kerninst_dump_known :: "callee_table \<Rightarrow> (kptr \<times> kptr \<times> u32) list option" where
  "kerninst_dump_known t = dump_bins t [0..<NUM_BINS]"

section \<open>The table after a history of calls\<close>

text \<open>The distinct pairs of a history, in the order of their first occurrence.\<close>

definition first_occ :: "'a list \<Rightarrow> 'a list" where
  "first_occ xs = rev (remdups (rev xs))"

lemma first_occ_snoc: "first_occ (xs @ [x]) = (if x \<in> set xs then first_occ xs else first_occ xs @ [x])"
  by (simp add: first_occ_def)

lemma first_occ_props [simp]: "distinct (first_occ xs)" "set (first_occ xs) = set xs" "first_occ [] = []"
  by (simp_all add: first_occ_def)

definition CELL0 :: nat where
  "CELL0 = Suc NUM_BINS"

text \<open>The cells of a bin, in the order of insertion.\<close>

definition bin_cells :: "callee_table \<Rightarrow> nat \<Rightarrow> nat list" where
  "bin_cells t b = filter (\<lambda>i. hfunc (site_addr (htable t i)) = b) [CELL0..<Suc (free_pos t)]"

text \<open>The table that has counted the calls \<open>xs\<close>.\<close>

definition ct_rep :: "callee_table \<Rightarrow> (kptr \<times> kptr) list \<Rightarrow> bool" where
  "ct_rep t xs \<longleftrightarrow> free_pos t = NUM_BINS + length (first_occ xs) \<and> free_pos t < NUM_TOTAL \<and>
     (\<forall>k < length (first_occ xs). ct_pair t (CELL0 + k) = first_occ xs ! k \<and>
        call_count (htable t (CELL0 + k)) = of_nat (count_list xs (first_occ xs ! k))) \<and>
     (\<forall>b < NUM_BINS. chain (ct_next t) (ct_next t b) (bin_cells t b))"

lemma hfunc_less [simp]: "hfunc site < NUM_BINS"
proof -
  have "hfunc_loop (drop_bit 2 site) 0 AND NUM_BINS_MASK \<le> 511"
    by (simp add: NUM_BINS_MASK_def word_and_le1)
  then have "hfunc site \<le> unat (511 :: u32)"
    unfolding hfunc_def by (simp only: word_le_nat_alt)
  then show ?thesis by (simp add: NUM_BINS_def)
qed

lemma reset_rep: "ct_rep (kerninst_reset_callee_counter t) []"
  by (simp add: ct_rep_def kerninst_reset_callee_counter_def NUM_TOTAL_def NUM_BINS_def bin_cells_def
      CELL0_def ct_next_def)

lemma callee_walk_None:
  "chain nx (nx h) is \<Longrightarrow> \<forall>i \<in> set is. \<not> P i \<Longrightarrow> callee_walk nx P h = Some (last (h # is))"
  by (induction "is" arbitrary: h) (auto simp: callee_walk.simps)

lemma callee_walk_Some:
  "chain nx (nx h) is \<Longrightarrow> i \<in> set is \<Longrightarrow> P i \<Longrightarrow> (\<And>j. j \<in> set is \<Longrightarrow> P j \<Longrightarrow> j = i) \<Longrightarrow>
    \<exists>c. callee_walk nx P h = Some c \<and> nx c = Some i"
proof (induction "is" arbitrary: h)
  case (Cons a "is")
  from Cons.prems(1) have nx: "nx h = Some a" "chain nx (nx a) is" by simp_all
  show ?case
  proof (cases "P a")
    case True
    then have "a = i" using Cons.prems(4) [of a] by simp
    then show ?thesis using nx(1) True by (subst callee_walk.simps) simp
  next
    case False
    then have "callee_walk nx P h = callee_walk nx P a" using nx(1) by (subst callee_walk.simps) simp
    moreover have "i \<in> set is" using False Cons.prems(2,3) by auto
    then have "\<exists>c. callee_walk nx P a = Some c \<and> nx c = Some i"
      using Cons.prems(4) by (intro Cons.IH [OF nx(2)] Cons.prems(3)) auto
    ultimately show ?thesis by simp
  qed
qed simp

lemma bin_cells_mem:
  assumes "ct_rep t xs"
  shows "i \<in> set (bin_cells t b) \<longleftrightarrow>
    (\<exists>k < length (first_occ xs). i = CELL0 + k \<and> hfunc (fst (first_occ xs ! k)) = b)"
proof -
  have "ct_pair t (CELL0 + k) = first_occ xs ! k" if "k < length (first_occ xs)" for k
    using that assms by (simp add: ct_rep_def)
  then have s: "site_addr (htable t (CELL0 + k)) = fst (first_occ xs ! k)" if "k < length (first_occ xs)" for k
    using that by (metis ct_pair_def fst_conv)
  have rng: "i \<in> {CELL0..<Suc (free_pos t)} \<longleftrightarrow> (\<exists>k < length (first_occ xs). i = CELL0 + k)"
    using assms by (auto simp: ct_rep_def CELL0_def intro: exI [of _ "i - Suc NUM_BINS"])
  have m: "i \<in> set (bin_cells t b) \<longleftrightarrow>
      i \<in> {CELL0..<Suc (free_pos t)} \<and> hfunc (site_addr (htable t i)) = b"
    by (simp only: bin_cells_def set_filter set_upt mem_Collect_eq)
  show ?thesis unfolding m rng using s by auto
qed

lemma update_known:
  assumes rep: "ct_rep t xs" and x: "(s, c) \<in> set xs"
  shows "\<exists>t'. kerninst_update_callee_count t s c = Some t' \<and> ct_rep t' (xs @ [(s, c)])"
proof -
  obtain k where k: "k < length (first_occ xs)" "first_occ xs ! k = (s, c)"
    using x by (metis first_occ_props(2) in_set_conv_nth)
  have uniq: "j = k" if "j < length (first_occ xs)" "first_occ xs ! j = (s, c)" for j
    using that k by (metis first_occ_props(1) nth_eq_iff_index_eq)
  let ?i = "CELL0 + k"
  let ?h = "(htable t)(?i := (htable t ?i)\<lparr>call_count := call_count (htable t ?i) + 1\<rparr>)"
  let ?t = "t\<lparr>htable := ?h\<rparr>"
  have ch: "chain (ct_next t) (ct_next t (hfunc s)) (bin_cells t (hfunc s))" using rep by (simp add: ct_rep_def)
  have pr: "ct_pair t (CELL0 + j) = first_occ xs ! j" if "j < length (first_occ xs)" for j
    using that rep by (simp add: ct_rep_def)
  have mem: "?i \<in> set (bin_cells t (hfunc s))" using k by (auto simp: bin_cells_mem [OF rep])
  have pi: "ct_pair t ?i = (s, c)" using pr k by simp
  have "j = ?i" if "j \<in> set (bin_cells t (hfunc s))" "ct_pair t j = (s, c)" for j
    using that pr uniq by (auto simp: bin_cells_mem [OF rep])
  then obtain cur where "callee_walk (ct_next t) (\<lambda>i. ct_pair t i = (s, c)) (hfunc s) = Some cur"
      "ct_next t cur = Some ?i"
    using callee_walk_Some [OF ch mem, of "\<lambda>i. ct_pair t i = (s, c)"] pi by blast
  then have step: "kerninst_update_callee_count t s c = Some ?t"
    by (simp add: kerninst_update_callee_count_def)
  have nx: "ct_next ?t = ct_next t" and p: "ct_pair ?t = ct_pair t" and bc: "bin_cells ?t = bin_cells t"
    by (auto simp: ct_next_def ct_pair_def bin_cells_def fun_eq_iff intro!: filter_cong)
  have "call_count (htable ?t (CELL0 + j)) = of_nat (count_list (xs @ [(s, c)]) (first_occ xs ! j))"
    if "j < length (first_occ xs)" for j
  proof (cases "j = k")
    case False
    then have "first_occ xs ! j \<noteq> (s, c)" using that uniq by blast
    then show ?thesis using that rep False by (simp add: ct_rep_def)
  qed (use that rep k in \<open>simp add: ct_rep_def\<close>)
  then have "ct_rep ?t (xs @ [(s, c)])"
    using rep x by (simp add: ct_rep_def first_occ_snoc nx p bc)
  then show ?thesis using step by blast
qed

lemma update_new:
  assumes rep: "ct_rep t xs" and x: "(s, c) \<notin> set xs" and room: "free_pos t < NUM_TOTAL - 1"
  shows "\<exists>t'. kerninst_update_callee_count t s c = Some t' \<and> ct_rep t' (xs @ [(s, c)])"
proof -
  let ?b = "hfunc s" and ?n = "length (first_occ xs)"
  let ?cells = "bin_cells t ?b"
  let ?cur = "last (?b # ?cells)" and ?i = "Suc (free_pos t)"
  have fp: "free_pos t = NUM_BINS + ?n" "?i = CELL0 + ?n" using rep by (auto simp: ct_rep_def CELL0_def)
  have ch: "chain (ct_next t) (ct_next t b) (bin_cells t b)" if "b < NUM_BINS" for b
    using that rep by (simp add: ct_rep_def)
  have pr: "ct_pair t (CELL0 + j) = first_occ xs ! j" if "j < ?n" for j using that rep by (simp add: ct_rep_def)
  have cells: "CELL0 \<le> j" "j < ?i" if "j \<in> set (bin_cells t b)" for j b
    using that fp by (auto simp: bin_cells_mem [OF rep])
  have "\<forall>j \<in> set ?cells. ct_pair t j \<noteq> (s, c)"
  proof
    fix j assume "j \<in> set ?cells"
    then obtain k where "k < ?n" "j = CELL0 + k" by (auto simp: bin_cells_mem [OF rep])
    then show "ct_pair t j \<noteq> (s, c)" using pr x nth_mem first_occ_props(2) by metis
  qed
  then have walk: "callee_walk (ct_next t) (\<lambda>i. ct_pair t i = (s, c)) ?b = Some ?cur"
    by (intro callee_walk_None [OF ch]) auto
  have hdr: "b \<notin> set (bin_cells t b')" "b \<noteq> ?i" if "b < NUM_BINS" for b b'
    using that cells(1) [of b b'] fp by (auto simp: CELL0_def)
  have fresh: "?i \<notin> set (bin_cells t b)" for b using cells(2) [of ?i b] by auto
  have dist: "distinct (?b # ?cells)" "?i \<notin> set (?b # ?cells)"
  proof -
    have "distinct ?cells" by (simp add: bin_cells_def)
    then show "distinct (?b # ?cells)" "?i \<notin> set (?b # ?cells)"
      using hdr(1) [OF hfunc_less, of s ?b] hdr(2) [OF hfunc_less, of s] fresh [of ?b] by auto
  qed
  have curnx: "ct_next t ?cur = None" using ch [of ?b] chain_last_None hfunc_less by blast
  let ?h1 = "(htable t)(?i := \<lparr>site_addr = s, callee_addr = c, call_count = 1, ci_next = None\<rparr>)"
  let ?h2 = "?h1(?cur := (?h1 ?cur)\<lparr>ci_next := Some ?i\<rparr>)"
  let ?t = "t\<lparr>htable := ?h2, free_pos := ?i\<rparr>"
  have step: "kerninst_update_callee_count t s c = Some ?t"
    using walk curnx room by (simp add: kerninst_update_callee_count_def Let_def)
  have cur: "?cur \<in> insert ?b (set ?cells)" using last_in_set [of "?b # ?cells"] by auto
  then have ne: "?cur \<noteq> ?i" using dist(2) by auto
  have nx: "ct_next ?t = (ct_next t)(?cur := Some ?i, ?i := None)"
    using ne by (auto simp: ct_next_def fun_eq_iff)
  have p: "ct_pair ?t = (ct_pair t)(?i := (s, c))" using ne by (auto simp: ct_pair_def fun_eq_iff)
  have st: "site_addr (htable ?t j) = (if j = ?i then s else site_addr (htable t j))" for j using ne by auto
  have bc: "bin_cells ?t b = bin_cells t b @ (if b = ?b then [?i] else [])" for b
  proof -
    have "[CELL0..<Suc ?i] = [CELL0..<?i] @ [?i]" using fp by simp
    moreover have "filter (\<lambda>j. hfunc (site_addr (htable ?t j)) = b) [CELL0..<?i] = bin_cells t b"
      unfolding bin_cells_def st by (rule filter_cong) auto
    ultimately show ?thesis unfolding bin_cells_def [of ?t] by (simp add: st)
  qed
  have chains: "chain (ct_next ?t) (ct_next ?t b) (bin_cells ?t b)" if b: "b < NUM_BINS" for b
  proof (cases "b = ?b")
    case True
    then show ?thesis unfolding nx bc using chain_snoc [OF ch [OF b] dist [folded True]] by simp
  next
    case False
    have dj: "set (bin_cells t b) \<inter> set ?cells = {}" using False by (auto simp: bin_cells_def)
    have "b \<notin> set ?cells" using b by (rule hdr(1))
    moreover have "?b \<notin> set (bin_cells t b)" by (rule hdr(1)) (rule hfunc_less)
    ultimately have off: "q \<noteq> b \<and> q \<notin> set (bin_cells t b)" if "q \<in> insert ?b (set ?cells)" for q
      using that False dj by (cases "q = ?b") auto
    from off [OF cur]
    show ?thesis unfolding nx bc using ch [OF b] False fresh hdr(2) [OF b] by simp
  qed
  have cc: "call_count (htable ?t (CELL0 + j)) = (if j = ?n then 1 else call_count (htable t (CELL0 + j)))" for j
    using ne fp(2) by auto
  have "ct_rep ?t (xs @ [(s, c)])"
    unfolding ct_rep_def
  proof (intro conjI allI impI)
    show "free_pos ?t = NUM_BINS + length (first_occ (xs @ [(s, c)]))" using x fp by (simp add: first_occ_snoc)
    show "free_pos ?t < NUM_TOTAL" using room by simp
    fix j assume j: "j < length (first_occ (xs @ [(s, c)]))"
    show "ct_pair ?t (CELL0 + j) = first_occ (xs @ [(s, c)]) ! j"
      unfolding p using j x pr fp(2) by (cases "j = ?n") (simp_all add: first_occ_snoc nth_append)
    have "first_occ xs ! j \<noteq> (s, c)" if "j < ?n" using that x nth_mem first_occ_props(2) by metis
    then show "call_count (htable ?t (CELL0 + j)) = of_nat (count_list (xs @ [(s, c)]) (first_occ (xs @ [(s, c)]) ! j))"
      using j x rep unfolding cc by (auto simp: first_occ_snoc nth_append ct_rep_def count_list_0_iff less_Suc_eq)
  qed (rule chains)
  then show ?thesis using step by blast
qed

section \<open>Answers\<close>

lemma length_first_occ: "length (first_occ xs) = card (set xs)"
  by (metis distinct_card first_occ_props(1,2))

definition ct_step :: "kptr \<times> kptr \<Rightarrow> callee_table \<Rightarrow> callee_table option" where
  "ct_step x t = kerninst_update_callee_count t (fst x) (snd x)"

lemma ct_run:
  assumes "ct_rep t ys" and "card (set (ys @ xs)) < NUM_TOTAL - NUM_BINS"
  shows "\<exists>t'. run_ops ct_step xs t = Some t' \<and> ct_rep t' (ys @ xs)"
  using assms
proof (induction xs arbitrary: t ys)
  case (Cons x xs)
  obtain s c where x: "x = (s, c)" by (cases x)
  have "\<exists>t'. ct_step x t = Some t' \<and> ct_rep t' (ys @ [x])"
  proof (cases "x \<in> set ys")
    case True
    then show ?thesis using update_known [OF Cons.prems(1)] x by (simp add: ct_step_def)
  next
    case False
    have "card (insert x (set ys)) \<le> card (set (ys @ x # xs))" by (rule card_mono) auto
    then have "free_pos t < NUM_TOTAL - 1"
      using Cons.prems False by (simp add: ct_rep_def length_first_occ)
    then show ?thesis using update_new [OF Cons.prems(1)] False x by (simp add: ct_step_def)
  qed
  then obtain t1 where "ct_step x t = Some t1" "ct_rep t1 (ys @ [x])" by blast
  then show ?case using Cons.IH [of t1 "ys @ [x]"] Cons.prems(2) by simp
qed simp

text \<open>The cells of a call site are the pairs of the site.\<close>

definition site_cells :: "callee_table \<Rightarrow> kptr \<Rightarrow> nat list" where
  "site_cells t site = filter (\<lambda>i. site_addr (htable t i) = site) (bin_cells t (hfunc site))"

lemma site_cells_pairs:
  assumes "ct_rep t xs"
  shows "map (ct_pair t) (site_cells t site) = filter (\<lambda>p. fst p = site) (first_occ xs)"
    and "i \<in> set (site_cells t site) \<Longrightarrow> call_count (htable t i) = of_nat (count_list xs (ct_pair t i))"
proof -
  let ?n = "length (first_occ xs)"
  have up: "[CELL0..<Suc (free_pos t)] = map (\<lambda>k. CELL0 + k) [0..<?n]"
    using assms by (auto simp: ct_rep_def CELL0_def intro!: nth_equalityI simp del: upt_Suc)
  have "map (ct_pair t) [CELL0..<Suc (free_pos t)] = first_occ xs"
    using assms unfolding up by (auto simp: ct_rep_def intro!: nth_equalityI)
  moreover have "site_cells t site = filter (\<lambda>i. fst (ct_pair t i) = site) [CELL0..<Suc (free_pos t)]"
    by (auto simp: site_cells_def bin_cells_def ct_pair_def simp del: upt_Suc intro!: filter_cong)
  ultimately show "map (ct_pair t) (site_cells t site) = filter (\<lambda>p. fst p = site) (first_occ xs)"
    by (metis (no_types, lifting) filter_map comp_apply filter_cong)
  assume "i \<in> set (site_cells t site)"
  then have "i \<in> set (map (\<lambda>k. CELL0 + k) [0..<?n])"
    unfolding site_cells_def bin_cells_def up by (simp del: set_map)
  then obtain k where "k < ?n" "i = CELL0 + k"
    by (metis (no_types, lifting) add_0 atLeastLessThan_iff imageE list.set_map set_upt)
  then show "call_count (htable t i) = of_nat (count_list xs (ct_pair t i))"
    using assms by (auto simp: ct_rep_def)
qed

lemma num_callees_eq:
  assumes "ct_rep t xs"
  shows "kerninst_num_callees_for_site t site = Some (of_nat (length (site_cells t site)))"
proof -
  have f: "fold (\<lambda>i rv. if site_addr (htable t i) = site then rv + 1 else rv) is r =
      (r + of_nat (length (filter (\<lambda>i. site_addr (htable t i) = site) is)) :: u32)" for "is" r
    by (induction "is" arbitrary: r) (auto simp: add.assoc)
  have "chain (ct_next t) (ct_next t (hfunc site)) (bin_cells t (hfunc site))"
    using assms by (simp add: ct_rep_def)
  then show ?thesis using f [of "bin_cells t (hfunc site)" 0]
    by (simp add: kerninst_num_callees_for_site_def chain_fold_eq site_cells_def)
qed

lemma get_loop_eq:
  assumes "chain (ct_next t) p is"
    and "length buf + 2 * length (filter (\<lambda>i. site_addr (htable t i) = site) is) \<le> num"
  shows "get_callees_loop t site num p buf =
    Some (buf @ concat (map (\<lambda>i. [callee_addr (htable t i), call_count (htable t i)])
      (filter (\<lambda>i. site_addr (htable t i) = site) is)))"
  using assms
proof (induction "is" arbitrary: p buf)
  case Nil
  then show ?case by (subst get_callees_loop.simps) simp
next
  case (Cons i "is")
  show ?case
  proof (cases "length buf < num")
    case True
    have "get_callees_loop t site num p buf = get_callees_loop t site num (ct_next t i)
        (if site_addr (htable t i) = site
         then buf @ [callee_addr (htable t i), call_count (htable t i)] else buf)"
      using Cons.prems(1) True by (subst get_callees_loop.simps) simp
    then show ?thesis using Cons by auto
  next
    case False
    then have "length (filter (\<lambda>i. site_addr (htable t i) = site) (i # is)) = 0"
      using Cons.prems(2) by linarith
    then have "filter (\<lambda>i. site_addr (htable t i) = site) (i # is) = []" by blast
    moreover have "get_callees_loop t site num p buf = Some buf"
      using Cons.prems(1) False by (subst get_callees_loop.simps) simp
    ultimately show ?thesis by (simp only: list.map concat.simps append_Nil2)
  qed
qed

lemma length_site_cells:
  assumes "ct_rep t xs"
  shows "length (site_cells t site) = card {callee. (site, callee) \<in> set xs}"
proof -
  have "length (site_cells t site) = card (set (filter (\<lambda>p. fst p = site) (first_occ xs)))"
    using arg_cong [OF site_cells_pairs(1) [OF assms, of site], of length]
    by (simp only: length_map distinct_card distinct_filter first_occ_props(1))
  also have "set (filter (\<lambda>p. fst p = site) (first_occ xs)) = Pair site ` {callee. (site, callee) \<in> set xs}"
    by auto
  finally show ?thesis by (simp add: card_image inj_on_def)
qed

lemma get_callees_cells:
  assumes "ct_rep t xs" and "length (site_cells t site) \<le> unat n" and "unat n < 2 ^ 31"
  shows "kerninst_get_callees_for_site t site n =
    Some (concat (map (\<lambda>i. [callee_addr (htable t i), call_count (htable t i)]) (site_cells t site)))"
proof -
  have "unat (2 * n) = 2 * unat n"
    using assms(3) by (simp add: unat_word_ariths)
  moreover have "chain (ct_next t) (ct_next t (hfunc site)) (bin_cells t (hfunc site))"
    using assms(1) by (simp add: ct_rep_def)
  ultimately show ?thesis
    using assms(2) by (simp add: kerninst_get_callees_for_site_def get_loop_eq site_cells_def)
qed

lemma get_callees_eq:
  assumes "ct_rep t xs" and "card {callee. (site, callee) \<in> set xs} \<le> unat n" and "unat n < 2 ^ 31"
  shows "kerninst_get_callees_for_site t site n =
    Some (concat (map (\<lambda>p. [snd p, of_nat (count_list xs p)])
      (filter (\<lambda>p. fst p = site) (first_occ xs))))"
proof -
  have "map (\<lambda>i. [callee_addr (htable t i), call_count (htable t i)]) (site_cells t site) =
      map (\<lambda>p. [snd p, of_nat (count_list xs p)]) (map (ct_pair t) (site_cells t site))"
    using site_cells_pairs(2) [OF assms(1), of _ site] by (simp add: ct_pair_def)
  moreover have "length (site_cells t site) \<le> unat n"
    using assms(2) length_site_cells [OF assms(1)] by simp
  ultimately show ?thesis
    using get_callees_cells [OF assms(1) _ assms(3)] by (simp only: site_cells_pairs(1) [OF assms(1)])
qed

definition demo_table :: callee_table where
  "demo_table = \<lparr>htable = \<lambda>_. \<lparr>site_addr = 0, callee_addr = 0, call_count = 5, ci_next = Some 3\<rparr>, free_pos = 0\<rparr>"

text \<open>C27: from a reset table, every history of indirect calls with fewer than \<open>NUM_TOTAL - NUM_BINS\<close>
  distinct (call site, callee) pairs is recorded (every search loop ends), the number of callees reported
  for a site is the number of its distinct callees, and a buffer with room for them receives each callee
  with its 32-bit call count, in the order of the first calls.\<close>

theorem callee_counts_exact:
  assumes "card (set xs) < NUM_TOTAL - NUM_BINS"
  shows "\<exists>t'. run_ops (\<lambda>(site, callee) t. kerninst_update_callee_count t site callee) xs
             (kerninst_reset_callee_counter t) = Some t' \<and>
     (\<forall>site. kerninst_num_callees_for_site t' site =
        Some (of_nat (card {callee. (site, callee) \<in> set xs}))) \<and>
     (\<forall>site n. card {callee. (site, callee) \<in> set xs} \<le> unat n \<longrightarrow> unat n < 2 ^ 31 \<longrightarrow>
        kerninst_get_callees_for_site t' site n =
          Some (concat (map (\<lambda>p. [snd p, of_nat (count_list xs p)])
            (filter (\<lambda>p. fst p = site) (first_occ xs)))))"
proof -
  obtain t' where t': "run_ops ct_step xs (kerninst_reset_callee_counter t) = Some t'" "ct_rep t' xs"
    using ct_run [OF reset_rep, of xs] assms by auto
  have "ct_step = (\<lambda>(site, callee) t. kerninst_update_callee_count t site callee)"
    by (auto simp: fun_eq_iff ct_step_def)
  then show ?thesis
    using t' num_callees_eq [OF t'(2)] length_site_cells [OF t'(2)] get_callees_eq [OF t'(2)] by auto
qed

theorem callee_counts_exact_witness:
  "\<exists>t'. run_ops (\<lambda>(site, callee) t. kerninst_update_callee_count t site callee)
      [(0x100, 7), (0x200, 7), (0x100, 9), (0x100, 7)] (kerninst_reset_callee_counter demo_table) = Some t' \<and>
    kerninst_num_callees_for_site t' 0x100 = Some 2 \<and>
    kerninst_get_callees_for_site t' 0x100 2 = Some [7, 2, 9, 1]"
proof -
  let ?xs = "[(0x100, 7), (0x200, 7), (0x100, 9), (0x100, 7)] :: (kptr \<times> kptr) list"
  have c: "{callee. (0x100, callee) \<in> set ?xs} = {7, 9}" by auto
  have "card (set ?xs) < NUM_TOTAL - NUM_BINS"
    using card_length [of ?xs] by (simp add: NUM_TOTAL_def NUM_BINS_def)
  from callee_counts_exact [OF this, of demo_table]
  obtain t' where t': "run_ops (\<lambda>(site, callee) t. kerninst_update_callee_count t site callee) ?xs
        (kerninst_reset_callee_counter demo_table) = Some t'"
    "\<forall>site. kerninst_num_callees_for_site t' site = Some (of_nat (card {callee. (site, callee) \<in> set ?xs}))"
    "\<forall>site n. card {callee. (site, callee) \<in> set ?xs} \<le> unat n \<longrightarrow> unat n < 2 ^ 31 \<longrightarrow>
        kerninst_get_callees_for_site t' site n =
          Some (concat (map (\<lambda>p. [snd p, of_nat (count_list ?xs p)])
            (filter (\<lambda>p. fst p = site) (first_occ ?xs))))"
    by blast
  have "kerninst_num_callees_for_site t' 0x100 = Some 2"
    using t'(2) [rule_format, of "0x100"] c by simp
  moreover have "kerninst_get_callees_for_site t' 0x100 2 = Some [7, 2, 9, 1]"
    using t'(3) [rule_format, of "0x100" 2] c by (simp add: first_occ_def)
  ultimately show ?thesis using t'(1) by blast
qed

end
