(* ===== verification/StackList.thy ===== *)
theory StackList
  imports Kerninst_Prelude
begin

text \<open>
  The preallocated pool of saved-timer vectors (\<open>kerninstdriver-linux/src/stacklist.c\<close>): 200 items
  linked through their \<open>next\<close> field into a stack of free items. A vector is known by the index of
  its item: \<open>stacklist_free\<close> recovers the item by subtracting the offset of the vector in it. Its
  contents are \<open>max_num_vtimers\<close> saved timers.
\<close>

section \<open>Model\<close>

definition max_num_threads :: nat where
  "max_num_threads = 200"

definition max_num_vtimers :: nat where
  "max_num_vtimers = 50"

text \<open>The layout of \<open>auxdata\<close>: \<open>start\<close> is a 48-bit field, \<open>rcount\<close> a 16-bit field.\<close>

record vtimer_start =
  vs_start :: u64
  vs_rcount :: u16

record saved_timer =
  st_addr :: kptr
  st_auxdata :: vtimer_start

record stacklist =
  sl_next :: "nat \<Rightarrow> nat option"
  sl_timers :: "nat \<Rightarrow> saved_timer list"
  sl_head :: "nat option"

definition stacklist_initialize :: "stacklist \<Rightarrow> stacklist" where
  "stacklist_initialize s =
     s\<lparr>sl_head := Some 0,
       sl_next := (\<lambda>i. if i < max_num_threads - 1 then Some (Suc i)
                       else if i = max_num_threads - 1 then None else sl_next s i)\<rparr>"

definition stacklist_destroy :: "stacklist \<Rightarrow> stacklist" where
  "stacklist_destroy s = s\<lparr>sl_head := None\<rparr>"

definition stacklist_get :: "stacklist \<Rightarrow> (nat \<times> stacklist) option" where
  "stacklist_get s =
     (case sl_head s of
        None \<Rightarrow> None
      | Some i \<Rightarrow> Some (i, s\<lparr>sl_head := sl_next s i\<rparr>))"

definition stacklist_free :: "nat \<Rightarrow> stacklist \<Rightarrow> stacklist" where
  "stacklist_free timers s =
     s\<lparr>sl_next := (sl_next s)(timers := sl_head s), sl_head := Some timers\<rparr>"

section \<open>The stack of free items\<close>

definition sl_inv :: "stacklist \<Rightarrow> bool" where
  "sl_inv s \<longleftrightarrow> (\<exists>is. chain (sl_next s) (sl_head s) is \<and> distinct is \<and> set is \<subseteq> {..<max_num_threads})"

definition sl_avail :: "stacklist \<Rightarrow> nat set" where
  "sl_avail s = {i. \<exists>is. chain (sl_next s) (sl_head s) is \<and> i \<in> set is}"

lemma sl_availI: "chain (sl_next s) (sl_head s) is \<Longrightarrow> sl_avail s = set is"
  by (auto simp: sl_avail_def dest: chain_unique)

lemma init_chain: "n \<le> k \<Longrightarrow> chain (\<lambda>i. if i < k then Some (Suc i) else if i = k then None else f i)
    (Some n) [n..<Suc k]"
proof (induction "k - n" arbitrary: n)
  case 0
  then show ?case by (simp add: upt_rec [of n])
next
  case (Suc d)
  then have "chain (\<lambda>i. if i < k then Some (Suc i) else if i = k then None else f i)
      (Some (Suc n)) [Suc n..<Suc k]" by simp
  then show ?case using Suc by (simp add: upt_conv_Cons del: upt_Suc)
qed

lemma stacklist_initialize_inv:
  "sl_inv (stacklist_initialize s) \<and> sl_avail (stacklist_initialize s) = {..<max_num_threads}"
proof -
  have "chain (sl_next (stacklist_initialize s)) (sl_head (stacklist_initialize s)) [0..<max_num_threads]"
    using init_chain [of 0 "max_num_threads - 1" "sl_next s"]
    by (simp add: stacklist_initialize_def max_num_threads_def del: upt_Suc)
  then show ?thesis by (auto simp: sl_inv_def sl_availI intro!: exI [of _ "[0..<max_num_threads]"])
qed

lemma stacklist_get_spec:
  assumes "sl_inv s" and "stacklist_get s = Some (i, s')"
  shows "i \<in> sl_avail s \<and> sl_avail s' = sl_avail s - {i} \<and> sl_inv s'"
proof -
  obtain ns where ns: "chain (sl_next s) (sl_head s) ns" "distinct ns" "set ns \<subseteq> {..<max_num_threads}"
    using assms(1) by (auto simp: sl_inv_def)
  have i: "sl_head s = Some i" "s' = s\<lparr>sl_head := sl_next s i\<rparr>"
    using assms(2) by (auto simp: stacklist_get_def split: option.splits)
  obtain js where js: "ns = i # js" "chain (sl_next s) (sl_next s i) js" using ns(1) i by (auto simp: chain_Some)
  have "chain (sl_next s') (sl_head s') js" using js i by simp
  then show ?thesis using ns js sl_availI [OF ns(1)] sl_availI [of s' js] by (auto simp: sl_inv_def)
qed

lemma stacklist_free_spec:
  assumes "sl_inv s" and "i < max_num_threads" and "i \<notin> sl_avail s"
  shows "sl_avail (stacklist_free i s) = insert i (sl_avail s) \<and> sl_inv (stacklist_free i s)"
proof -
  obtain ns where ns: "chain (sl_next s) (sl_head s) ns" "distinct ns" "set ns \<subseteq> {..<max_num_threads}"
    using assms(1) by (auto simp: sl_inv_def)
  then have "i \<notin> set ns" using assms(3) sl_availI by blast
  then have c: "chain (sl_next (stacklist_free i s)) (sl_head (stacklist_free i s)) (i # ns)"
    using ns(1) by (simp add: stacklist_free_def)
  moreover have "distinct (i # ns)" "set (i # ns) \<subseteq> {..<max_num_threads}"
    using ns assms(2) \<open>i \<notin> set ns\<close> by auto
  ultimately have "sl_inv (stacklist_free i s)" unfolding sl_inv_def by blast
  then show ?thesis using sl_availI [OF ns(1)] sl_availI [OF c] by simp
qed

interpretation sl: pool stacklist_get stacklist_free sl_avail sl_inv "{..<max_num_threads}"
proof
  fix s assume "sl_inv s" "stacklist_get s = None"
  then show "sl_avail s = {}" by (auto simp: stacklist_get_def sl_avail_def split: option.splits)
qed (use stacklist_get_spec stacklist_free_spec in auto)

section \<open>Properties\<close>

text \<open>
  C24: the stack of free vectors is a pool. However vectors are taken and given back, starting from
  an initialised stack, no vector is held twice at the same time, none is lost, and a request is
  refused only when all 200 vectors are held.
\<close>

theorem stacklist_is_a_pool:
  assumes "fold (pool_client stacklist_get stacklist_free) ops (stacklist_initialize s, []) = (s', held)"
  shows "distinct held \<and> set held \<inter> sl_avail s' = {} \<and> set held \<union> sl_avail s' = {..<max_num_threads} \<and>
    (stacklist_get s' = None \<longrightarrow> set held = {..<max_num_threads})"
proof -
  have init: "sl_inv (stacklist_initialize s)" "sl_avail (stacklist_initialize s) = {..<max_num_threads}"
    using stacklist_initialize_inv by auto
  show ?thesis
    using sl.run_balanced [OF init, of ops] sl.refuses_only_when_empty [OF init assms] assms
    by (auto simp: pool_balanced_def)
qed

theorem stacklist_is_a_pool_witness:
  "\<exists>s' held. fold (pool_client stacklist_get stacklist_free) [PGet, PGet, PPut 0, PGet]
      (stacklist_initialize \<lparr>sl_next = (\<lambda>_. None), sl_timers = (\<lambda>_. []), sl_head = None\<rparr>, []) = (s', held) \<and>
    held = [0, 1] \<and> set held \<inter> sl_avail s' = {}"
proof -
  let ?s0 = "stacklist_initialize \<lparr>sl_next = (\<lambda>_. None), sl_timers = (\<lambda>_. []), sl_head = None\<rparr>"
  obtain s' held where r: "fold (pool_client stacklist_get stacklist_free)
      [PGet, PGet, PPut 0, PGet] (?s0, []) = (s', held)" by fastforce
  then have "held = [0, 1]"
    by (auto simp: stacklist_initialize_def stacklist_get_def stacklist_free_def max_num_threads_def)
  then show ?thesis using stacklist_is_a_pool [OF r] r by blast
qed

text \<open>
  giving back a vector twice breaks the pool. The item then links to itself, and every later
  request is answered with this same vector.
\<close>

theorem double_free_hands_out_twice:
  "\<exists>s1. stacklist_get (stacklist_free v (stacklist_free v s)) = Some (v, s1) \<and>
     stacklist_get s1 = Some (v, s1)"
  by (simp add: stacklist_get_def stacklist_free_def)

end
