(* ===== verification/AllVtimers.thy ===== *)
theory AllVtimers
  imports StackList HashTable
begin

text \<open>
  The driver's vector of virtual timer addresses (\<open>kerninstdriver-linux/src/all_vtimers.c\<close>), at most
  49 of them and a null sentinel, and the removal of a timer from every saved vector the hash
  table refers to. \<open>finish\<close> is the index of the sentinel; \<open>None\<close> is an access outside the vector or
  through a null datum. The spin lock is left out.
\<close>

section \<open>Model\<close>

record all_vtimers =
  vtimer_addresses :: "kptr list"
  av_finish :: int

definition initialize_all_vtimers :: "all_vtimers \<Rightarrow> all_vtimers" where
  "initialize_all_vtimers av = av\<lparr>av_finish := 0, vtimer_addresses := replicate max_num_vtimers 0\<rparr>"

definition destroy_all_vtimers :: "all_vtimers \<Rightarrow> all_vtimers" where
  "destroy_all_vtimers av = av\<lparr>av_finish := 0, vtimer_addresses := (vtimer_addresses av)[0 := 0]\<rparr>"

definition addto_all_vtimers :: "all_vtimers \<Rightarrow> kptr \<Rightarrow> (int \<times> all_vtimers) option" where
  "addto_all_vtimers av vtimer_addr =
     (let f = av_finish av;
          v = vtimer_addresses av
      in if f < 0 \<or> int (length v) \<le> f then None
         else if v ! nat f \<noteq> 0 then Some (-1, av)
         else if f < 0 then Some (1, av)
         else if f + 1 = int max_num_vtimers then Some (-1, av)
         else if int (length v) \<le> f + 1 then None
         else Some (0, av\<lparr>vtimer_addresses := v[nat (f + 1) := 0, nat f := vtimer_addr], av_finish := f + 1\<rparr>))"

text \<open>One saved vector without its first entry for the timer; the others move down.\<close>

definition remove_saved :: "kptr \<Rightarrow> saved_timer list \<Rightarrow> saved_timer list" where
  "remove_saved vtimer_addr v =
     (case find_ndx (\<lambda>t. st_addr t = vtimer_addr) v of
        None \<Rightarrow> v
      | Some j \<Rightarrow>
          take j v @ drop (Suc j) v @ [\<lparr>st_addr = 0, st_auxdata = \<lparr>vs_start = 0, vs_rcount = 0\<rparr>\<rparr>])"

fun removefrom_elems ::
  "nat list \<Rightarrow> nat hash_table \<Rightarrow> kptr \<Rightarrow> stacklist \<Rightarrow> stacklist option" where
  "removefrom_elems [] ht vtimer_addr sl = Some sl"
| "removefrom_elems (i # is) ht vtimer_addr sl =
     (if removed (all_elems ht i) then removefrom_elems is ht vtimer_addr sl
      else
        (case the_data (all_elems ht i) of
           None \<Rightarrow> None
         | Some k \<Rightarrow>
             removefrom_elems is ht vtimer_addr
               (sl\<lparr>sl_timers := (sl_timers sl)(k := remove_saved vtimer_addr (sl_timers sl k))\<rparr>)))"

definition removefrom_hashtable :: "nat hash_table \<Rightarrow> kptr \<Rightarrow> stacklist \<Rightarrow> stacklist option" where
  "removefrom_hashtable ht vtimer_addr sl = removefrom_elems [0..<num_elems ht] ht vtimer_addr sl"

definition removefrom_all_vtimers ::
  "all_vtimers \<Rightarrow> nat hash_table \<Rightarrow> stacklist \<Rightarrow> kptr \<Rightarrow> (int \<times> all_vtimers \<times> stacklist) option" where
  "removefrom_all_vtimers av ht sl vtimer_addr =
     (let f = nat (av_finish av);
          v = vtimer_addresses av
      in if av_finish av < 0 \<or> length v < f then None
         else
           (case find_ndx (\<lambda>a. a = vtimer_addr) (take f v) of
              None \<Rightarrow> Some (-1, av, sl)
            | Some i \<Rightarrow>
                (case removefrom_hashtable ht vtimer_addr sl of
                   None \<Rightarrow> None
                 | Some sl' \<Rightarrow>
                     Some (0, av\<lparr>vtimer_addresses := v[i := v ! (f - 1), f - 1 := 0],
                                 av_finish := int f - 1\<rparr>, sl'))))"

section \<open>The vector as a set of timers\<close>

text \<open>The timers of the vector, and the shape the code keeps: no null address before \<open>finish\<close>, only
  null ones from there on.\<close>

definition av_list :: "all_vtimers \<Rightarrow> kptr list" where
  "av_list av = take (nat (av_finish av)) (vtimer_addresses av)"

definition av_inv :: "all_vtimers \<Rightarrow> bool" where
  "av_inv av \<longleftrightarrow> length (vtimer_addresses av) = max_num_vtimers \<and>
     0 \<le> av_finish av \<and> av_finish av < int max_num_vtimers \<and>
     vtimer_addresses av ! nat (av_finish av) = 0 \<and> 0 \<notin> set (av_list av)"

lemma av_init: "av_inv (initialize_all_vtimers av) \<and> av_list (initialize_all_vtimers av) = []"
  by (simp add: initialize_all_vtimers_def av_inv_def av_list_def max_num_vtimers_def)

lemma addto_spec:
  assumes inv: "av_inv av" and a: "a \<noteq> 0"
  shows "\<exists>r av'. addto_all_vtimers av a = Some (r, av') \<and> av_inv av' \<and>
    (if length (av_list av) < max_num_vtimers - 1 then r = 0 \<and> av_list av' = av_list av @ [a]
     else r = -1 \<and> av' = av)"
proof -
  let ?v = "vtimer_addresses av"
  obtain n where n: "av_finish av = int n" using inv by (metis av_inv_def nonneg_int_cases)
  have f: "n < 50" "length ?v = 50" "?v ! n = 0" "0 \<notin> set (take n ?v)"
    using inv n by (auto simp: av_inv_def max_num_vtimers_def av_list_def)
  have len: "length (av_list av) = n" using f n by (simp add: av_list_def)
  have nf: "nat (int n + 1) = Suc n" "nat (1 + int n) = Suc n" by simp_all
  show ?thesis
  proof (cases "n < 49")
    case True
    have step: "addto_all_vtimers av a =
        Some (0, av\<lparr>vtimer_addresses := ?v[Suc n := 0, n := a], av_finish := int (Suc n)\<rparr>)"
      using f True by (simp add: addto_all_vtimers_def Let_def max_num_vtimers_def n nf)
    have tk: "take (Suc n) (?v[Suc n := 0, n := a]) = take n ?v @ [a]"
      using f(1,2) True by (simp add: take_Suc_conv_app_nth)
    have "?v[Suc n := 0, n := a] ! Suc n = 0" using f True by simp
    then have "av_inv (av\<lparr>vtimer_addresses := ?v[Suc n := 0, n := a], av_finish := int (Suc n)\<rparr>)"
      using f a True by (auto simp: av_inv_def av_list_def max_num_vtimers_def tk simp flip: of_nat_Suc)
    moreover have "av_list (av\<lparr>vtimer_addresses := ?v[Suc n := 0, n := a], av_finish := int (Suc n)\<rparr>) =
        av_list av @ [a]"
      using tk by (simp add: av_list_def n del: of_nat_Suc)
    ultimately show ?thesis using step True len by (auto simp: max_num_vtimers_def simp del: of_nat_Suc)
  next
    case False
    then have "n = 49" using f by simp
    then show ?thesis using f inv len by (simp add: addto_all_vtimers_def Let_def max_num_vtimers_def n)
  qed
qed

lemma removefrom_elems_total:
  "\<forall>i \<in> set is. removed (all_elems ht i) \<or> the_data (all_elems ht i) \<noteq> None \<Longrightarrow>
    \<exists>sl'. removefrom_elems is ht a sl = Some sl'"
  by (induction "is" arbitrary: sl) auto

lemma take_swap_remove:
  assumes "i < Suc f" and "f < length v"
  shows "take f (v[i := v ! f, f := z]) = swap_remove i (take (Suc f) v)"
proof (rule nth_equalityI)
  have "last (take (Suc f) v) = v ! f" using assms(2) by (simp add: take_Suc_conv_app_nth)
  moreover fix j assume "j < length (take f (v[i := v ! f, f := z]))"
  ultimately show "take f (v[i := v ! f, f := z]) ! j = swap_remove i (take (Suc f) v) ! j"
    using assms by (auto simp: swap_remove_def nth_butlast nth_list_update)
qed (use assms in simp)

lemma removefrom_spec:
  assumes inv: "av_inv av" and sl: "removefrom_hashtable ht a sl = Some sl'"
  shows "\<exists>av'. removefrom_all_vtimers av ht sl a =
      Some (if a \<in> set (av_list av) then (0, av', sl') else (-1, av, sl)) \<and>
    (a \<in> set (av_list av) \<longrightarrow> av_inv av' \<and> mset (av_list av') = mset (av_list av) - {#a#})"
proof -
  let ?v = "vtimer_addresses av"
  obtain n where n: "av_finish av = int n" using inv by (metis av_inv_def nonneg_int_cases)
  have f: "n < 50" "length ?v = 50" "?v ! n = 0" "0 \<notin> set (take n ?v)" and l: "av_list av = take n ?v"
    using inv n by (auto simp: av_inv_def max_num_vtimers_def av_list_def)
  show ?thesis
  proof (cases "find_ndx (\<lambda>x. x = a) (take n ?v)")
    case None
    then have "a \<notin> set (av_list av)" using l by (auto simp: find_ndx_None)
    then show ?thesis using None f n
      by (simp add: removefrom_all_vtimers_def Let_def)
  next
    case (Some i)
    then have i: "i < n" "?v ! i = a" using find_ndx_SomeD [OF Some] f by auto
    then obtain k where k: "n = Suc k" by (cases n) auto
    let ?av' = "av\<lparr>vtimer_addresses := ?v[i := ?v ! k, k := 0], av_finish := int k\<rparr>"
    have mem: "a \<in> set (av_list av)" using i l f by (auto simp: in_set_conv_nth)
    have k': "n - 1 = k" "int n - 1 = int k" using k by auto
    have step: "removefrom_all_vtimers av ht sl a = Some (0, ?av', sl')"
      using Some f n sl k' by (simp add: removefrom_all_vtimers_def Let_def)
    have l': "av_list ?av' = swap_remove i (take n ?v)"
      using take_swap_remove [of i k ?v 0] i f k by (simp add: av_list_def)
    then have "mset (av_list ?av') = mset (av_list av) - {#a#}"
      using mset_swap_remove [of i "take n ?v"] i f l by simp
    moreover have "av_inv ?av'"
      using f k i l' set_swap_remove_subset [of i "take n ?v"]
      by (auto simp: av_inv_def max_num_vtimers_def)
    ultimately show ?thesis using step mem by auto
  qed
qed

section \<open>No saved vector keeps a removed timer\<close>

text \<open>The entries of a saved vector that count: those before the null terminator.\<close>

definition saved_live :: "saved_timer list \<Rightarrow> kptr list" where
  "saved_live v = map st_addr (takeWhile (\<lambda>t. st_addr t \<noteq> 0) v)"

lemma saved_live_Cons [simp]:
  "saved_live [] = []"
  "saved_live (t # v) = (if st_addr t = 0 then [] else st_addr t # saved_live v)"
  by (simp_all add: saved_live_def)

lemma saved_live_append_null: "st_addr t = 0 \<Longrightarrow> saved_live (v @ [t]) = saved_live v"
  by (induction v) auto

lemma remove_saved_Cons:
  "remove_saved a (t # v) =
    (if st_addr t = a then v @ [\<lparr>st_addr = 0, st_auxdata = \<lparr>vs_start = 0, vs_rcount = 0\<rparr>\<rparr>]
     else t # remove_saved a v)"
  by (auto simp: remove_saved_def split: option.splits)

lemma remove_saved_live:
  "a \<noteq> 0 \<Longrightarrow> distinct (saved_live v) \<Longrightarrow> saved_live (remove_saved a v) = filter (\<lambda>x. x \<noteq> a) (saved_live v)"
proof (induction v)
  case Nil
  then show ?case by (simp add: remove_saved_def)
next
  case (Cons t v)
  show ?case
  proof (cases "st_addr t = a")
    case True
    then have "filter (\<lambda>x. x \<noteq> a) (saved_live v) = saved_live v"
      using Cons.prems by (intro filter_True) auto
    moreover have "saved_live (v @ [\<lparr>st_addr = 0, st_auxdata = \<lparr>vs_start = 0, vs_rcount = 0\<rparr>\<rparr>]) = saved_live v"
      by (rule saved_live_append_null) simp
    ultimately show ?thesis using True Cons.prems by (simp add: remove_saved_Cons)
  next
    case False
    then show ?thesis using Cons by (auto simp: remove_saved_Cons split: if_splits)
  qed
qed

lemma removefrom_elems_frame:
  assumes "removefrom_elems is ht a sl = Some sl'" and "a \<noteq> 0"
    and "\<forall>k. distinct (saved_live (sl_timers sl k))"
  shows "sl_next sl' = sl_next sl \<and> sl_head sl' = sl_head sl \<and>
    (\<forall>k. distinct (saved_live (sl_timers sl' k)) \<and> set (saved_live (sl_timers sl' k)) \<subseteq> set (saved_live (sl_timers sl k))) \<and>
    (\<forall>i \<in> set is. \<forall>k. \<not> removed (all_elems ht i) \<and> the_data (all_elems ht i) = Some k \<longrightarrow>
      a \<notin> set (saved_live (sl_timers sl' k)))"
  using assms
proof (induction "is" arbitrary: sl)
  case (Cons i "is")
  show ?case
  proof (cases "removed (all_elems ht i)")
    case True
    then show ?thesis using Cons.IH [OF _ Cons.prems(2,3)] Cons.prems(1) by auto
  next
    case False
    then obtain k where k: "the_data (all_elems ht i) = Some k" using Cons.prems(1) by (auto split: option.splits)
    let ?sl = "sl\<lparr>sl_timers := (sl_timers sl)(k := remove_saved a (sl_timers sl k))\<rparr>"
    have d: "\<forall>j. distinct (saved_live (sl_timers ?sl j))"
      and sub: "\<forall>j. set (saved_live (sl_timers ?sl j)) \<subseteq> set (saved_live (sl_timers sl j))"
      and gone: "a \<notin> set (saved_live (sl_timers ?sl k))"
      using Cons.prems(2,3) by (auto simp: remove_saved_live)
    have r: "removefrom_elems is ht a ?sl = Some sl'" using Cons.prems(1) False k by simp
    note ih = Cons.IH [OF r Cons.prems(2) d]
    then have "a \<notin> set (saved_live (sl_timers sl' k))" using gone by blast
    moreover have "sl_next sl' = sl_next sl" "sl_head sl' = sl_head sl" using ih by simp_all
    moreover have "\<forall>j. distinct (saved_live (sl_timers sl' j)) \<and>
        set (saved_live (sl_timers sl' j)) \<subseteq> set (saved_live (sl_timers sl j))"
      using ih sub by blast
    ultimately show ?thesis using ih k by simp
  qed
qed auto

section \<open>Properties\<close>



end
