(* ===== verification/CSwitch.thy ===== *)
theory CSwitch
  imports AllVtimers
begin

text \<open>
  Virtual timers across context switches (\<open>kerninstdriver-linux/src/cswitch_inout.c\<close> and
  \<open>vtimer.h\<close>, i386 build): when a thread is switched out every running timer of its cpu is
  stopped and remembered in a vector from the pool, which the hash table keeps under the thread;
  when the thread comes back they are restarted. The hardware counters are a parameter: \<open>hw r c\<close>
  is what the \<open>r\<close>-th counter read returns (low and high half) when it reads \<open>c\<close>. \<open>None\<close> is an
  access beyond the end of a saved vector or a walk that does not end. The spin lock is left out:
  the routines run one at a time.
\<close>

section \<open>Model\<close>

definition KERNINST_ENABLE_CONTEXTSWITCH :: u32 where
  "KERNINST_ENABLE_CONTEXTSWITCH = push_bit 0 1"

definition KERNINST_ENABLE_P4COUNTERS :: u32 where
  "KERNINST_ENABLE_P4COUNTERS = push_bit 16 1"

record vtimer =
  total_field :: u64
  start_field :: vtimer_start
  counter_type :: u32

definition WALL_TIMER :: u32 where
  "WALL_TIMER = push_bit 15 1"

definition IS_WALL_TIMER :: "u32 \<Rightarrow> bool" where
  "IS_WALL_TIMER t \<longleftrightarrow> t AND WALL_TIMER \<noteq> 0"

definition CTR_OF :: "u32 \<Rightarrow> u32" where
  "CTR_OF t = drop_bit 16 t"

definition KIND_OF :: "u32 \<Rightarrow> u32" where
  "KIND_OF t = t AND 0x00007fff"

definition COUNTER_ADDR :: "u32 \<Rightarrow> u32" where
  "COUNTER_ADDR e = 0x300 + e"

datatype hw_counter = TSC | MSR u32

type_synonym hardware = "nat \<Rightarrow> hw_counter \<Rightarrow> u32 \<times> u32"

text \<open>The counter a timer type selects (\<open>None\<close>: the case that should not happen) and the 48-bit
  value the routines make of the two halves.\<close>

definition hw_source :: "u32 \<Rightarrow> u32 \<Rightarrow> hw_counter option" where
  "hw_source enable_bits type =
     (if KIND_OF type = 1 then Some TSC
      else if KIND_OF type \<noteq> 0 \<and> enable_bits AND KERNINST_ENABLE_P4COUNTERS \<noteq> 0
           then Some (MSR (COUNTER_ADDR (CTR_OF type)))
      else None)"

definition counter_value :: "u32 \<times> u32 \<Rightarrow> u64" where
  "counter_value lh = push_bit 32 (ucast (snd lh AND 0x0000FFFF)) OR ucast (fst lh)"

text \<open>Return value, timer, the saved timer if there is one, and the number of counter reads so far.\<close>

definition generic_vstop_routine ::
  "hardware \<Rightarrow> u32 \<Rightarrow> vtimer \<Rightarrow> saved_timer option \<Rightarrow> u32 \<Rightarrow> nat \<Rightarrow>
     bool \<times> vtimer \<times> saved_timer option \<times> nat" where
  "generic_vstop_routine hw enable_bits vt stimer type r =
     (case hw_source enable_bits type of
        None \<Rightarrow> (False, vt\<lparr>start_field := \<lparr>vs_start = 0, vs_rcount = 0\<rparr>\<rparr>, stimer, r)
      | Some src \<Rightarrow>
          let counter = counter_value (hw r src);
              stimer' = map_option (\<lambda>s. s\<lparr>st_auxdata :=
                \<lparr>vs_start = counter, vs_rcount = vs_rcount (start_field vt)\<rparr>\<rparr>) stimer;
              total = (if counter > vs_start (start_field vt)
                       then total_field vt + (counter - vs_start (start_field vt)) else total_field vt)
          in (True, vt\<lparr>total_field := total, start_field := \<lparr>vs_start = 0, vs_rcount = 0\<rparr>\<rparr>, stimer', Suc r))"

definition generic_vrestart_routine ::
  "hardware \<Rightarrow> u32 \<Rightarrow> vtimer \<Rightarrow> vtimer_start \<Rightarrow> u32 \<Rightarrow> nat \<Rightarrow> vtimer \<times> nat" where
  "generic_vrestart_routine hw enable_bits vt old_start type r =
     (case hw_source enable_bits type of
        None \<Rightarrow> (vt\<lparr>start_field := \<lparr>vs_start = vs_start old_start, vs_rcount = vs_rcount old_start\<rparr>\<rparr>, r)
      | Some src \<Rightarrow>
          let counter = counter_value (hw r src);
              total = (if IS_WALL_TIMER type \<and> counter > vs_start old_start
                       then total_field vt + (counter - vs_start old_start) else total_field vt)
          in (vt\<lparr>start_field := \<lparr>vs_start = counter, vs_rcount = vs_rcount old_start\<rparr>,
                 total_field := total\<rparr>, Suc r))"

definition vtimer_primitive_stride_in_bytes :: u32 where
  "vtimer_primitive_stride_in_bytes = 64"

definition getCPUTimer :: "kptr \<Rightarrow> u32 \<Rightarrow> kptr" where
  "getCPUTimer vt_base cpu = vt_base + cpu * vtimer_primitive_stride_in_bytes"

record cs_state =
  av_vtimers :: all_vtimers
  ht_vtimers :: "nat hash_table"
  sl_heap :: stacklist
  vtimers :: "kptr \<Rightarrow> vtimer"
  number_unsaved_timers :: u32
  cs_reads :: nat

text \<open>The loop of \<open>on_switch_in\<close> from entry \<open>j\<close> of the vector \<open>ts\<close>.\<close>

function switch_in_loop ::
  "hardware \<Rightarrow> u32 \<Rightarrow> u32 \<Rightarrow> saved_timer list \<Rightarrow> nat \<Rightarrow> (kptr \<Rightarrow> vtimer) \<Rightarrow> nat \<Rightarrow>
     ((kptr \<Rightarrow> vtimer) \<times> nat) option" where
  "switch_in_loop hw en cpu ts j vt r =
     (if length ts \<le> j then None
      else
        let theTimer = st_addr (ts ! j)
        in if theTimer = 0 then Some (vt, r)
           else
             let cpu_vt = getCPUTimer theTimer cpu;
                 (v, r') = generic_vrestart_routine hw en (vt cpu_vt) (st_auxdata (ts ! j))
                             (counter_type (vt theTimer)) r
             in switch_in_loop hw en cpu ts (Suc j) (vt(cpu_vt := v)) r')"
  by pat_completeness auto
termination by (relation "measure (\<lambda>(hw, en, cpu, ts, j, vt, r). length ts - j)") auto

declare switch_in_loop.simps [simp del]

definition on_switch_in :: "hardware \<Rightarrow> u32 \<Rightarrow> u32 \<Rightarrow> u32 \<Rightarrow> cs_state \<Rightarrow> cs_state option" where
  "on_switch_in hw en curr_thr curr_cpu st =
     (if en AND KERNINST_ENABLE_CONTEXTSWITCH = 0 then Some st
      else
        (case hash_table_remove (ht_vtimers st) curr_thr of
           None \<Rightarrow> None
         | Some (None, ht) \<Rightarrow> Some (st\<lparr>ht_vtimers := ht\<rparr>)
         | Some (Some timers_start, ht) \<Rightarrow>
             (case switch_in_loop hw en curr_cpu (sl_timers (sl_heap st) timers_start) 0
                     (vtimers st) (cs_reads st) of
                None \<Rightarrow> None
              | Some (vt, r) \<Rightarrow>
                  Some (st\<lparr>ht_vtimers := ht, vtimers := vt, cs_reads := r,
                          sl_heap := stacklist_free timers_start (sl_heap st)\<rparr>))))"

text \<open>A store to entry \<open>j\<close> of the vector of item \<open>i\<close>.\<close>

definition put_saved :: "nat \<Rightarrow> nat \<Rightarrow> saved_timer \<Rightarrow> stacklist \<Rightarrow> stacklist" where
  "put_saved i j t sl = sl\<lparr>sl_timers := (sl_timers sl)(i := (sl_timers sl i)[j := t])\<rparr>"

text \<open>
  The loop of \<open>on_switch_out\<close> over the timer addresses; \<open>vec\<close> is \<open>Some (i, j)\<close> once vector \<open>i\<close> has been
  obtained, with \<open>j\<close> the position of \<open>vec_of_timers_iter\<close> in it.
\<close>

fun switch_out_loop ::
  "hardware \<Rightarrow> u32 \<Rightarrow> u32 \<Rightarrow> kptr list \<Rightarrow> (nat \<times> nat) option \<Rightarrow> cs_state \<Rightarrow>
     ((nat \<times> nat) option \<times> cs_state) option" where
  "switch_out_loop hw en cpu [] vec st = Some (vec, st)"
| "switch_out_loop hw en cpu (theTimer # rest) vec st =
     (let cpu_vt = getCPUTimer theTimer cpu
      in if vs_rcount (start_field (vtimers st cpu_vt)) = 0 then switch_out_loop hw en cpu rest vec st
         else
           let (vec1, st1) =
                 (case vec of
                    Some v \<Rightarrow> (Some v, st)
                  | None \<Rightarrow>
                      (case stacklist_get (sl_heap st) of
                         None \<Rightarrow> (None, st\<lparr>number_unsaved_timers := number_unsaved_timers st + 1\<rparr>)
                       | Some (i, sl) \<Rightarrow> (Some (i, 0), st\<lparr>sl_heap := sl\<rparr>)))
           in (case vec1 of
                 None \<Rightarrow>
                   let (add, v, _, r) = generic_vstop_routine hw en (vtimers st1 cpu_vt) None
                         (counter_type (vtimers st1 theTimer)) (cs_reads st1)
                   in switch_out_loop hw en cpu rest None
                        (st1\<lparr>vtimers := (vtimers st1)(cpu_vt := v), cs_reads := r\<rparr>)
               | Some (i, j) \<Rightarrow>
                   if length (sl_timers (sl_heap st1) i) \<le> j then None
                   else
                     let (add, v, s, r) = generic_vstop_routine hw en (vtimers st1 cpu_vt)
                           (Some (sl_timers (sl_heap st1) i ! j))
                           (counter_type (vtimers st1 theTimer)) (cs_reads st1);
                         s' = (if add then (the s)\<lparr>st_addr := theTimer\<rparr> else the s)
                     in switch_out_loop hw en cpu rest (Some (i, if add then Suc j else j))
                          (st1\<lparr>vtimers := (vtimers st1)(cpu_vt := v), cs_reads := r,
                              sl_heap := put_saved i j s' (sl_heap st1)\<rparr>)))"

definition on_switch_out :: "hardware \<Rightarrow> u32 \<Rightarrow> u32 \<Rightarrow> u32 \<Rightarrow> cs_state \<Rightarrow> cs_state option" where
  "on_switch_out hw en curr_thr curr_cpu st =
     (if en AND KERNINST_ENABLE_CONTEXTSWITCH = 0 then Some st
      else
        (case switch_out_loop hw en curr_cpu (av_list (av_vtimers st)) None st of
           None \<Rightarrow> None
         | Some (None, st1) \<Rightarrow> Some st1
         | Some (Some (i, j), st1) \<Rightarrow>
             if length (sl_timers (sl_heap st1) i) \<le> j then None
             else
               let sl = put_saved i j ((sl_timers (sl_heap st1) i ! j)\<lparr>st_addr := 0\<rparr>) (sl_heap st1)
               in (case hash_table_add (ht_vtimers st1) (Some i) curr_thr of
                     None \<Rightarrow> None
                   | Some (_, ht) \<Rightarrow> Some (st1\<lparr>sl_heap := sl, ht_vtimers := ht\<rparr>))))"

section \<open>What a switch does to the timers\<close>

definition started :: "u32 \<Rightarrow> (kptr \<Rightarrow> vtimer) \<Rightarrow> kptr \<Rightarrow> bool" where
  "started cpu vt a \<longleftrightarrow> vs_rcount (start_field (vt (getCPUTimer a cpu))) \<noteq> 0"

text \<open>The counter value timer \<open>a\<close> gets from the \<open>r\<close>-th read.\<close>

definition ctr_at :: "hardware \<Rightarrow> u32 \<Rightarrow> (kptr \<Rightarrow> vtimer) \<Rightarrow> nat \<Rightarrow> kptr \<Rightarrow> u64" where
  "ctr_at hw en vt r a = counter_value (hw r (the (hw_source en (counter_type (vt a)))))"

definition readable :: "u32 \<Rightarrow> (kptr \<Rightarrow> vtimer) \<Rightarrow> kptr \<Rightarrow> bool" where
  "readable en vt a \<longleftrightarrow> hw_source en (counter_type (vt a)) \<noteq> None"

text \<open>Time that passed from \<open>t\<close> to \<open>c\<close>; none when the counter went backwards.\<close>

definition elapsed :: "u64 \<Rightarrow> u64 \<Rightarrow> u64" where
  "elapsed t c = (if c > t then c - t else 0)"

definition stop1 :: "u64 \<Rightarrow> vtimer \<Rightarrow> vtimer" where
  "stop1 c v = v\<lparr>total_field := total_field v + elapsed (vs_start (start_field v)) c,
     start_field := \<lparr>vs_start = 0, vs_rcount = 0\<rparr>\<rparr>"

definition restart1 :: "u64 \<Rightarrow> vtimer_start \<Rightarrow> bool \<Rightarrow> vtimer \<Rightarrow> vtimer" where
  "restart1 c old wall v = v\<lparr>start_field := \<lparr>vs_start = c, vs_rcount = vs_rcount old\<rparr>,
     total_field := total_field v + (if wall then elapsed (vs_start old) c else 0)\<rparr>"

fun out_entries ::
  "hardware \<Rightarrow> u32 \<Rightarrow> u32 \<Rightarrow> (kptr \<Rightarrow> vtimer) \<Rightarrow> nat \<Rightarrow> kptr list \<Rightarrow> saved_timer list" where
  "out_entries hw en cpu vt r [] = []"
| "out_entries hw en cpu vt r (a # as) =
     (if started cpu vt a
      then \<lparr>st_addr = a, st_auxdata = \<lparr>vs_start = ctr_at hw en vt r a,
             vs_rcount = vs_rcount (start_field (vt (getCPUTimer a cpu)))\<rparr>\<rparr>
           # out_entries hw en cpu vt (Suc r) as
      else out_entries hw en cpu vt r as)"

fun out_vt ::
  "hardware \<Rightarrow> u32 \<Rightarrow> u32 \<Rightarrow> nat \<Rightarrow> kptr list \<Rightarrow> (kptr \<Rightarrow> vtimer) \<Rightarrow> kptr \<Rightarrow> vtimer" where
  "out_vt hw en cpu r [] vt = vt"
| "out_vt hw en cpu r (a # as) vt =
     (if started cpu vt a
      then out_vt hw en cpu (Suc r) as
             (vt(getCPUTimer a cpu := stop1 (ctr_at hw en vt r a) (vt (getCPUTimer a cpu))))
      else out_vt hw en cpu r as vt)"

lemma getCPUTimer_inj [simp]: "getCPUTimer a cpu = getCPUTimer b cpu \<longleftrightarrow> a = b"
  by (simp add: getCPUTimer_def)

lemma stop_fields [simp]:
  "counter_type (stop1 c v) = counter_type v" "counter_type (restart1 c old w v) = counter_type v"
  "vs_rcount (start_field (stop1 c v)) = 0"
  by (simp_all add: stop1_def restart1_def)

lemma vstop_eq:
  assumes "hw_source en type \<noteq> None"
  shows "generic_vstop_routine hw en v (Some s) type r =
    (True, stop1 (counter_value (hw r (the (hw_source en type)))) v,
     Some (s\<lparr>st_auxdata := \<lparr>vs_start = counter_value (hw r (the (hw_source en type))),
       vs_rcount = vs_rcount (start_field v)\<rparr>\<rparr>), Suc r)"
  using assms by (auto simp: generic_vstop_routine_def stop1_def elapsed_def Let_def)

lemma vrestart_eq:
  assumes "hw_source en type \<noteq> None"
  shows "generic_vrestart_routine hw en v old type r =
    (restart1 (counter_value (hw r (the (hw_source en type)))) old (IS_WALL_TIMER type) v, Suc r)"
  using assms by (auto simp: generic_vrestart_routine_def restart1_def elapsed_def Let_def)

text \<open>Timers with the same types and, on this cpu, the same recorded starts give the same entries.\<close>

lemma out_entries_upd:
  assumes "a \<notin> set as" and "counter_type v = counter_type (vt (getCPUTimer a cpu))"
  shows "out_entries hw en cpu (vt(getCPUTimer a cpu := v)) r as = out_entries hw en cpu vt r as"
  using assms by (induction "as" arbitrary: r) (auto simp: started_def ctr_at_def)

lemma readable_upd:
  assumes "counter_type v = counter_type (vt p)"
  shows "readable en (vt(p := v)) a = readable en vt a"
  using assms by (simp add: readable_def)

lemma out_loop_grabbed:
  assumes "distinct L" and "\<forall>a \<in> set L. readable en (vtimers st) a"
    and "length (sl_timers (sl_heap st) i) = max_num_vtimers"
    and "j + length (out_entries hw en cpu (vtimers st) (cs_reads st) L) < max_num_vtimers"
  defines "es \<equiv> out_entries hw en cpu (vtimers st) (cs_reads st) L"
  shows "switch_out_loop hw en cpu L (Some (i, j)) st =
    Some (Some (i, j + length es),
      st\<lparr>vtimers := out_vt hw en cpu (cs_reads st) L (vtimers st), cs_reads := cs_reads st + length es,
        sl_heap := (sl_heap st)\<lparr>sl_timers := (sl_timers (sl_heap st))(i :=
          take j (sl_timers (sl_heap st) i) @ es @ drop (j + length es) (sl_timers (sl_heap st) i))\<rparr>\<rparr>)"
  using assms(1-4) unfolding es_def
proof (induction L arbitrary: j st)
  case Nil
  then show ?case by simp
next
  case (Cons a L)
  let ?vt = "vtimers st" and ?p = "getCPUTimer a cpu" and ?r = "cs_reads st"
    and ?old = "sl_timers (sl_heap st) i"
  show ?case
  proof (cases "started cpu ?vt a")
    case False
    then show ?thesis using Cons by (simp add: started_def)
  next
    case True
    let ?c = "ctr_at hw en ?vt ?r a"
    let ?e = "\<lparr>st_addr = a, st_auxdata = \<lparr>vs_start = ?c, vs_rcount = vs_rcount (start_field (?vt ?p))\<rparr>\<rparr>"
    let ?vt1 = "?vt(?p := stop1 ?c (?vt ?p))"
    let ?st1 = "st\<lparr>vtimers := ?vt1, cs_reads := Suc ?r, sl_heap := put_saved i j ?e (sl_heap st)\<rparr>"
    let ?es = "out_entries hw en cpu ?vt (Suc ?r) L"
    have src: "hw_source en (counter_type (?vt a)) \<noteq> None" using Cons.prems(2) by (simp add: readable_def)
    have rec: "(s\<lparr>st_auxdata := x\<rparr>)\<lparr>st_addr := b\<rparr> = \<lparr>st_addr = b, st_auxdata = x\<rparr>" for s :: saved_timer and x b
      by (cases s) simp
    have same: "out_entries hw en cpu ?vt1 (Suc ?r) L = ?es"
      using Cons.prems(1) by (intro out_entries_upd) auto
    have j: "j < length ?old" using Cons.prems(3,4) by simp
    have "switch_out_loop hw en cpu (a # L) (Some (i, j)) st = switch_out_loop hw en cpu L (Some (i, Suc j)) ?st1"
      using True j src by (simp add: started_def vstop_eq rec ctr_at_def Let_def)
    also have "\<dots> = Some (Some (i, Suc j + length ?es),
      ?st1\<lparr>vtimers := out_vt hw en cpu (Suc ?r) L ?vt1, cs_reads := Suc ?r + length ?es,
        sl_heap := (sl_heap ?st1)\<lparr>sl_timers := (sl_timers (sl_heap ?st1))(i :=
          take (Suc j) (sl_timers (sl_heap ?st1) i) @ ?es @ drop (Suc j + length ?es) (sl_timers (sl_heap ?st1) i))\<rparr>\<rparr>)"
    proof -
      have "vtimers ?st1 = ?vt1" "cs_reads ?st1 = Suc ?r" by simp_all
      moreover have "\<forall>b \<in> set L. readable en ?vt1 b" using Cons.prems(2) by (subst readable_upd) simp_all
      moreover have "length (sl_timers (sl_heap ?st1) i) = max_num_vtimers"
        using Cons.prems(3) by (simp add: put_saved_def)
      moreover have "Suc j + length ?es < max_num_vtimers" using Cons.prems(4) True by simp
      moreover have "distinct L" using Cons.prems(1) by simp
      ultimately show ?thesis using Cons.IH [of ?st1 "Suc j"] same by metis
    qed
    finally show ?thesis using True j
      by (simp add: put_saved_def take_Suc_conv_app_nth fun_upd_same del: fun_upd_apply switch_out_loop.simps)
  qed
qed

lemma out_loop_None:
  "switch_out_loop hw en cpu L None st =
    (if \<forall>a \<in> set L. \<not> started cpu (vtimers st) a then Some (None, st)
     else switch_out_loop hw en cpu L
       (map_option (\<lambda>(i, sl). (i, 0)) (stacklist_get (sl_heap st)))
       (case stacklist_get (sl_heap st) of None \<Rightarrow> st | Some (i, sl) \<Rightarrow> st\<lparr>sl_heap := sl\<rparr>))"
  if "stacklist_get (sl_heap st) \<noteq> None"
  using that
proof (induction L)
  case (Cons a L)
  then show ?case
    by (cases "started cpu (vtimers st) a") (auto simp: started_def Let_def split: option.splits)
qed simp

fun in_vt ::
  "hardware \<Rightarrow> u32 \<Rightarrow> u32 \<Rightarrow> nat \<Rightarrow> saved_timer list \<Rightarrow> (kptr \<Rightarrow> vtimer) \<Rightarrow> kptr \<Rightarrow> vtimer" where
  "in_vt hw en cpu r [] vt = vt"
| "in_vt hw en cpu r (e # es) vt =
     in_vt hw en cpu (Suc r) es
       (vt(getCPUTimer (st_addr e) cpu := restart1 (ctr_at hw en vt r (st_addr e)) (st_auxdata e)
         (IS_WALL_TIMER (counter_type (vt (st_addr e)))) (vt (getCPUTimer (st_addr e) cpu))))"

lemma in_loop_eq:
  assumes "\<forall>e \<in> set es. st_addr e \<noteq> 0 \<and> readable en vt (st_addr e)" and "st_addr z = 0"
    and "length pre = j"
  shows "switch_in_loop hw en cpu (pre @ es @ z # rest) j vt r =
    Some (in_vt hw en cpu r es vt, r + length es)"
  using assms
proof (induction es arbitrary: pre j vt r)
  case Nil
  then show ?case by (subst switch_in_loop.simps) (auto simp: nth_append)
next
  case (Cons e es)
  let ?p = "getCPUTimer (st_addr e) cpu"
  let ?v = "restart1 (ctr_at hw en vt r (st_addr e)) (st_auxdata e)
    (IS_WALL_TIMER (counter_type (vt (st_addr e)))) (vt ?p)"
  have src: "hw_source en (counter_type (vt (st_addr e))) \<noteq> None"
    using Cons.prems(1) by (simp add: readable_def)
  have "switch_in_loop hw en cpu (pre @ (e # es) @ z # rest) j vt r =
      switch_in_loop hw en cpu ((pre @ [e]) @ es @ z # rest) (Suc j) (vt(?p := ?v)) (Suc r)"
    using Cons.prems src
    by (subst switch_in_loop.simps) (simp add: nth_append vrestart_eq ctr_at_def Let_def)
  also have "\<dots> = Some (in_vt hw en cpu (Suc r) es (vt(?p := ?v)), Suc r + length es)"
    using Cons.prems by (intro Cons.IH) (auto simp: readable_upd simp del: fun_upd_apply)
  finally show ?case by simp
qed

text \<open>Stopping and restarting touch only the timers of the cpu, each one once.\<close>

fun round_trip ::
  "hardware \<Rightarrow> u32 \<Rightarrow> u32 \<Rightarrow> nat \<Rightarrow> nat \<Rightarrow> kptr list \<Rightarrow> (kptr \<Rightarrow> vtimer) \<Rightarrow> kptr \<Rightarrow> vtimer" where
  "round_trip hw en cpu r r2 [] vt = vt"
| "round_trip hw en cpu r r2 (a # as) vt =
     (let p = getCPUTimer a cpu; c = ctr_at hw en vt r a
      in if started cpu vt a
         then round_trip hw en cpu (Suc r) (Suc r2) as
           (vt(p := restart1 (ctr_at hw en vt r2 a)
              \<lparr>vs_start = c, vs_rcount = vs_rcount (start_field (vt p))\<rparr>
              (IS_WALL_TIMER (counter_type (vt a))) (stop1 c (vt p))))
         else round_trip hw en cpu r r2 as vt)"

lemma out_vt_type [simp]: "counter_type (out_vt hw en cpu r L vt x) = counter_type (vt x)"
  by (induction L arbitrary: r vt) auto

lemma out_vt_other: "x \<notin> (\<lambda>a. getCPUTimer a cpu) ` set L \<Longrightarrow> out_vt hw en cpu r L vt x = vt x"
  by (induction L arbitrary: r vt) auto

lemma out_vt_upd:
  assumes "a \<notin> set L" and "counter_type v = counter_type (vt (getCPUTimer a cpu))"
  shows "out_vt hw en cpu r L (vt(getCPUTimer a cpu := v)) = (out_vt hw en cpu r L vt)(getCPUTimer a cpu := v)"
  using assms
proof (induction L arbitrary: r vt)
  case (Cons b L)
  let ?p = "getCPUTimer a cpu" and ?q = "getCPUTimer b cpu"
  have ne: "?p \<noteq> ?q" using Cons.prems(1) by simp
  have c: "ctr_at hw en (vt(?p := v)) r b = ctr_at hw en vt r b"
    "started cpu (vt(?p := v)) b = started cpu vt b"
    using Cons.prems ne by (auto simp: ctr_at_def started_def)
  have tw: "(vt(?p := v))(?q := w) = (vt(?q := w))(?p := v)" for w
    using ne by (rule fun_upd_twist)
  show ?case
  proof (cases "started cpu vt b")
    case True
    let ?w = "stop1 (ctr_at hw en vt r b) (vt ?q)"
    have "out_vt hw en cpu (Suc r) L ((vt(?q := ?w))(?p := v)) =
        (out_vt hw en cpu (Suc r) L (vt(?q := ?w)))(?p := v)"
      using Cons.prems ne by (intro Cons.IH) auto
    moreover have "(vt(?p := v)) ?q = vt ?q" using ne by simp
    ultimately show ?thesis using True by (simp only: out_vt.simps c if_True tw)
  next
    case False
    have "out_vt hw en cpu r L (vt(?p := v)) = (out_vt hw en cpu r L vt)(?p := v)"
      using Cons.prems by (intro Cons.IH) auto
    then show ?thesis using False by (simp only: out_vt.simps c if_False)
  qed
qed simp

lemma round_trip_eq:
  assumes "distinct L"
  shows "in_vt hw en cpu r2 (out_entries hw en cpu vt r L) (out_vt hw en cpu r L vt) =
    round_trip hw en cpu r r2 L vt"
  using assms
proof (induction L arbitrary: r r2 vt)
  case (Cons a L)
  let ?p = "getCPUTimer a cpu" and ?c = "ctr_at hw en vt r a"
  let ?vt1 = "vt(?p := stop1 ?c (vt ?p))"
  let ?v = "restart1 (ctr_at hw en vt r2 a) \<lparr>vs_start = ?c, vs_rcount = vs_rcount (start_field (vt ?p))\<rparr>
    (IS_WALL_TIMER (counter_type (vt a))) (stop1 ?c (vt ?p))"
  show ?case
  proof (cases "started cpu vt a")
    case True
    have "out_vt hw en cpu (Suc r) L ?vt1 ?p = stop1 ?c (vt ?p)"
      using Cons.prems by (subst out_vt_other) auto
    moreover have "counter_type (out_vt hw en cpu (Suc r) L ?vt1 x) = counter_type (vt x)" for x by simp
    moreover have "ctr_at hw en (out_vt hw en cpu (Suc r) L ?vt1) r2 a = ctr_at hw en vt r2 a"
      by (simp add: ctr_at_def)
    moreover have "(out_vt hw en cpu (Suc r) L ?vt1)(?p := ?v) = out_vt hw en cpu (Suc r) L (vt(?p := ?v))"
      using Cons.prems out_vt_upd [of a L ?v ?vt1 cpu hw en "Suc r"] by simp
    moreover have "out_entries hw en cpu vt (Suc r) L = out_entries hw en cpu (vt(?p := ?v)) (Suc r) L"
      using Cons.prems by (subst out_entries_upd) auto
    moreover have "in_vt hw en cpu (Suc r2) (out_entries hw en cpu (vt(?p := ?v)) (Suc r) L)
        (out_vt hw en cpu (Suc r) L (vt(?p := ?v))) = round_trip hw en cpu (Suc r) (Suc r2) L (vt(?p := ?v))"
      using Cons.prems by (intro Cons.IH) simp
    ultimately show ?thesis using True
      by (simp only: out_entries.simps out_vt.simps in_vt.simps round_trip.simps if_True Let_def
          saved_timer.select_convs)
  next
    case False
    then show ?thesis using Cons by simp
  qed
qed simp

text \<open>The timer after a switch out at counter value \<open>c1\<close> and a switch in at \<open>c2\<close>: its total grows by the
  time it ran before the switch, and for a wall timer also by the time the thread was away; it runs
  again from \<open>c2\<close>, with the same recursion count.\<close>

definition switched :: "bool \<Rightarrow> u64 \<Rightarrow> u64 \<Rightarrow> vtimer \<Rightarrow> vtimer" where
  "switched wall c1 c2 v = v\<lparr>
     total_field := total_field v + elapsed (vs_start (start_field v)) c1 + (if wall then elapsed c1 c2 else 0),
     start_field := \<lparr>vs_start = c2, vs_rcount = vs_rcount (start_field v)\<rparr>\<rparr>"

lemma switched_eq:
  "restart1 c2 \<lparr>vs_start = c1, vs_rcount = vs_rcount (start_field v)\<rparr> wall (stop1 c1 v) = switched wall c1 c2 v"
  by (simp add: restart1_def stop1_def switched_def)

lemma started_upd:
  "a \<notin> set L \<Longrightarrow> filter (started cpu (vt(getCPUTimer a cpu := v))) L = filter (started cpu vt) L"
  by (intro filter_cong) (auto simp: started_def)

lemma round_trip_step:
  "started cpu vt a \<Longrightarrow> round_trip hw en cpu r r2 (a # L) vt =
    round_trip hw en cpu (Suc r) (Suc r2) L (vt(getCPUTimer a cpu :=
      switched (IS_WALL_TIMER (counter_type (vt a))) (ctr_at hw en vt r a) (ctr_at hw en vt r2 a)
        (vt (getCPUTimer a cpu))))"
  by (simp only: round_trip.simps switched_eq Let_def if_True)

lemma round_trip_other:
  "distinct L \<Longrightarrow> x \<notin> (\<lambda>a. getCPUTimer a cpu) ` set (filter (started cpu vt) L) \<Longrightarrow>
    round_trip hw en cpu r r2 L vt x = vt x"
proof (induction L arbitrary: r r2 vt)
  case (Cons a L)
  show ?case
  proof (cases "started cpu vt a")
    case True
    let ?vt1 = "vt(getCPUTimer a cpu := switched (IS_WALL_TIMER (counter_type (vt a)))
      (ctr_at hw en vt r a) (ctr_at hw en vt r2 a) (vt (getCPUTimer a cpu)))"
    have "round_trip hw en cpu (Suc r) (Suc r2) L ?vt1 x = ?vt1 x"
      using Cons.prems True by (intro Cons.IH) (auto simp: started_upd simp del: fun_upd_apply)
    then show ?thesis unfolding round_trip_step [OF True] using Cons.prems True by simp
  next
    case False
    then show ?thesis using Cons by simp
  qed
qed simp

lemma round_trip_at:
  "distinct L \<Longrightarrow> i < length (filter (started cpu vt) L) \<Longrightarrow> a = filter (started cpu vt) L ! i \<Longrightarrow>
    round_trip hw en cpu r r2 L vt (getCPUTimer a cpu) =
      switched (IS_WALL_TIMER (counter_type (vt a))) (ctr_at hw en vt (r + i) a) (ctr_at hw en vt (r2 + i) a)
        (vt (getCPUTimer a cpu))"
proof (induction L arbitrary: r r2 i vt)
  case (Cons b L)
  show ?case
  proof (cases "started cpu vt b")
    case True
    let ?v = "switched (IS_WALL_TIMER (counter_type (vt b)))
      (ctr_at hw en vt r b) (ctr_at hw en vt r2 b) (vt (getCPUTimer b cpu))"
    let ?vt1 = "vt(getCPUTimer b cpu := ?v)"
    have ty: "counter_type (?vt1 x) = counter_type (vt x)" for x by (simp add: switched_def)
    then have ctr: "ctr_at hw en ?vt1 k x = ctr_at hw en vt k x" for k x by (simp add: ctr_at_def)
    show ?thesis
    proof (cases i)
      case 0
      have "round_trip hw en cpu (Suc r) (Suc r2) L ?vt1 (getCPUTimer b cpu) = ?vt1 (getCPUTimer b cpu)"
        using Cons.prems by (intro round_trip_other) auto
      then show ?thesis unfolding round_trip_step [OF True] using Cons.prems 0 True by simp
    next
      case (Suc k)
      then have k: "k < length (filter (started cpu ?vt1) L)" "a = filter (started cpu ?vt1) L ! k"
        using Cons.prems True by (simp_all add: started_upd del: fun_upd_apply)
      have "filter (started cpu ?vt1) L ! k \<in> set (filter (started cpu ?vt1) L)" using k(1) by (rule nth_mem)
      then have "a \<in> set L" unfolding k(2) [symmetric] by simp
      then have "?vt1 (getCPUTimer a cpu) = vt (getCPUTimer a cpu)" using Cons.prems(1) by auto
      moreover have "round_trip hw en cpu (Suc r) (Suc r2) L ?vt1 (getCPUTimer a cpu) =
          switched (IS_WALL_TIMER (counter_type (?vt1 a))) (ctr_at hw en ?vt1 (Suc r + k) a)
            (ctr_at hw en ?vt1 (Suc r2 + k) a) (?vt1 (getCPUTimer a cpu))"
        by (rule Cons.IH [OF _ k]) (use Cons.prems(1) in simp)
      ultimately show ?thesis unfolding round_trip_step [OF True] using Suc by (simp only: ty ctr) simp
    qed
  next
    case False
    then show ?thesis using Cons by simp
  qed
qed simp

lemma out_entries_addrs: "map st_addr (out_entries hw en cpu vt r L) = filter (started cpu vt) L"
  by (induction L arbitrary: r) auto

lemma out_entries_length: "length (out_entries hw en cpu vt r L) = length (filter (started cpu vt) L)"
  using arg_cong [OF out_entries_addrs, of length] by simp

section \<open>Leaving and coming back\<close>

text \<open>
  The states between two switches: all components well-formed, every vector of full length, every
  registered timer of a type whose counter can be read, and no saved vector of this thread.
\<close>

definition cs_ready :: "u32 \<Rightarrow> u32 \<Rightarrow> cs_state \<Rightarrow> bool" where
  "cs_ready en thr st \<longleftrightarrow> en AND KERNINST_ENABLE_CONTEXTSWITCH \<noteq> 0 \<and>
     av_inv (av_vtimers st) \<and> distinct (av_list (av_vtimers st)) \<and>
     (\<forall>a \<in> set (av_list (av_vtimers st)). readable en (vtimers st) a) \<and>
     ht_inv (ht_vtimers st) \<and> num_elems (ht_vtimers st) < ht_max_num_elems \<and> ht_abs (ht_vtimers st) thr = None \<and>
     sl_inv (sl_heap st) \<and> sl_avail (sl_heap st) \<noteq> {} \<and>
     (\<forall>i. length (sl_timers (sl_heap st) i) = max_num_vtimers)"

lemma switch_out_eq:
  fixes hw :: hardware
  assumes ready: "cs_ready en thr st" and run: "\<exists>a \<in> set (av_list (av_vtimers st)). started cpu (vtimers st) a"
  defines "L \<equiv> av_list (av_vtimers st)"
  defines "es \<equiv> out_entries hw en cpu (vtimers st) (cs_reads st) L"
  shows "\<exists>i sl ht ts z rest. stacklist_get (sl_heap st) = Some (i, sl) \<and>
    on_switch_out hw en thr cpu st = Some (st\<lparr>vtimers := out_vt hw en cpu (cs_reads st) L (vtimers st),
      cs_reads := cs_reads st + length es, sl_heap := sl\<lparr>sl_timers := (sl_timers sl)(i := ts)\<rparr>, ht_vtimers := ht\<rparr>) \<and>
    ts = es @ z # rest \<and> st_addr z = 0 \<and>
    ht_inv ht \<and> ht_abs ht = (ht_abs (ht_vtimers st))(thr \<mapsto> (Some i, False))"
proof -
  have r: "distinct L" "\<forall>a \<in> set L. readable en (vtimers st) a" "length L < max_num_vtimers"
    using ready by (auto simp: cs_ready_def L_def av_inv_def av_list_def)
  have slr: "sl_inv (sl_heap st)" "sl_avail (sl_heap st) \<noteq> {}" using ready by (auto simp: cs_ready_def)
  then have "stacklist_get (sl_heap st) \<noteq> None" using sl.get_None by blast
  then obtain i sl where get: "stacklist_get (sl_heap st) = Some (i, sl)" by auto
  have sl: "sl_timers sl = sl_timers (sl_heap st)" using get by (auto simp: stacklist_get_def split: option.splits)
  have len: "length es < max_num_vtimers" "length (sl_timers sl i) = max_num_vtimers"
    using le_less_trans [OF length_filter_le r(3)] ready
    by (simp_all add: es_def out_entries_length sl cs_ready_def)
  let ?st0 = "st\<lparr>sl_heap := sl\<rparr>"
  let ?ts = "es @ drop (length es) (sl_timers sl i)"
  let ?st1 = "?st0\<lparr>vtimers := out_vt hw en cpu (cs_reads st) L (vtimers st), cs_reads := cs_reads st + length es,
    sl_heap := sl\<lparr>sl_timers := (sl_timers sl)(i := ?ts)\<rparr>\<rparr>"
  have "switch_out_loop hw en cpu L None st = switch_out_loop hw en cpu L (Some (i, 0)) ?st0"
    using run get by (subst out_loop_None) (auto simp: L_def)
  also have "\<dots> = Some (Some (i, length es), ?st1)"
    using out_loop_grabbed [of L en ?st0 i 0 hw cpu] r len by (simp add: es_def)
  finally have loop: "switch_out_loop hw en cpu L None st = Some (Some (i, length es), ?st1)" .
  obtain z0 rest where dr: "drop (length es) (sl_timers sl i) = z0 # rest"
    using len by (cases "drop (length es) (sl_timers sl i)") auto
  let ?z = "z0\<lparr>st_addr := 0\<rparr>"
  have upd: "?ts[length es := ?z] = es @ ?z # rest" "?ts ! length es = z0" by (simp_all add: dr)
  obtain ht where ht: "hash_table_add (ht_vtimers st) (Some i) thr = Some (0, ht)" "ht_inv ht"
      "ht_abs ht = (ht_abs (ht_vtimers st))(thr \<mapsto> (Some i, False))"
    using add_packed_spec [of "ht_vtimers st" "Some i" thr] ready
    by (auto simp: cs_ready_def hash_table_add_def spec_add_def)
  have "on_switch_out hw en thr cpu st = Some (st\<lparr>vtimers := out_vt hw en cpu (cs_reads st) L (vtimers st),
      cs_reads := cs_reads st + length es, sl_heap := sl\<lparr>sl_timers := (sl_timers sl)(i := es @ ?z # rest)\<rparr>,
      ht_vtimers := ht\<rparr>)"
    using ready loop ht(1) upd len
    by (simp add: on_switch_out_def cs_ready_def L_def [symmetric] put_saved_def Let_def fun_upd_same
        del: fun_upd_apply)
  moreover have "st_addr ?z = 0" by (cases z0) simp
  ultimately show ?thesis using get ht(2,3) by blast
qed

lemma sl_timers_irrelevant [simp]:
  "sl_inv (sl\<lparr>sl_timers := t\<rparr>) = sl_inv sl" "sl_avail (sl\<lparr>sl_timers := t\<rparr>) = sl_avail sl"
  by (simp_all add: sl_inv_def sl_avail_def)

lemma remove_absent: "ht_inv ht \<Longrightarrow> ht_abs ht k = None \<Longrightarrow> hash_table_remove ht k = Some (None, ht)"
  by (simp add: hash_table_remove_def keyandbin2elem_eq ht_abs_def)

section \<open>Properties\<close>


text \<open>A thread with one running wall timer, in freshly initialised tables.\<close>

definition demo_vectors :: stacklist where
  "demo_vectors = stacklist_initialize \<lparr>sl_next = (\<lambda>_. None), sl_timers = (\<lambda>_. replicate 50
     \<lparr>st_addr = 0, st_auxdata = \<lparr>vs_start = 0, vs_rcount = 0\<rparr>\<rparr>), sl_head = None\<rparr>"

definition demo_state :: cs_state where
  "demo_state = \<lparr>av_vtimers = \<lparr>vtimer_addresses = 1024 # replicate 49 0, av_finish = 1\<rparr>,
     ht_vtimers = hash_table_initialize ht_zeroed, sl_heap = demo_vectors,
     vtimers = (\<lambda>a. \<lparr>total_field = 10, start_field = \<lparr>vs_start = 100, vs_rcount = 1\<rparr>, counter_type = 0x8001\<rparr>),
     number_unsaved_timers = 0, cs_reads = 0\<rparr>"

lemma demo_list: "av_list (av_vtimers demo_state) = [1024]"
  by (simp add: demo_state_def av_list_def)

lemma demo_sl: "sl_inv demo_vectors" "sl_avail demo_vectors = {..<max_num_threads}"
  "length (sl_timers demo_vectors i) = max_num_vtimers"
  using stacklist_initialize_inv
  by (auto simp: demo_vectors_def) (simp_all add: stacklist_initialize_def max_num_vtimers_def)

lemma demo_ready: "cs_ready 1 7 demo_state"
proof -
  have "av_inv (av_vtimers demo_state)"
    using demo_list by (simp add: av_inv_def) (simp add: demo_state_def max_num_vtimers_def)
  moreover have "0 \<in> sl_avail demo_vectors" by (simp add: demo_sl max_num_threads_def)
  moreover have "readable 1 (vtimers demo_state) 1024"
    by (simp add: readable_def demo_state_def hw_source_def KIND_OF_def)
  ultimately show ?thesis unfolding cs_ready_def using demo_list
    by (auto simp: demo_state_def KERNINST_ENABLE_CONTEXTSWITCH_def init_inv init_abs demo_sl)
      (simp add: hash_table_initialize_def ht_max_num_elems_def)
qed


text \<open>
  a removed hash table entry comes back to life. When a thread whose vector was taken out by an
  earlier switch in is switched out with no running timer, nothing is saved, yet the next switch in
  finds the old entry again: it restarts the timers of the old vector and gives the vector back a
  second time.
\<close>

theorem stale_vector_restarted:
  assumes "en AND KERNINST_ENABLE_CONTEXTSWITCH \<noteq> 0"
    and "\<forall>a \<in> set (av_list (av_vtimers st)). \<not> started cpu (vtimers st) a"
    and "stacklist_get (sl_heap st) \<noteq> None"
    and "ht_inv (ht_vtimers st)" and "ht_abs (ht_vtimers st) thr = Some (Some i, True)"
    and "sl_timers (sl_heap st) i = e # z # rest" and "st_addr e \<noteq> 0" and "st_addr z = 0"
    and "readable en (vtimers st) (st_addr e)"
  shows "on_switch_out hw en thr cpu st = Some st \<and>
    (\<exists>st2. on_switch_in hw en thr cpu st = Some st2 \<and> sl_heap st2 = stacklist_free i (sl_heap st) \<and>
      vs_rcount (start_field (vtimers st2 (getCPUTimer (st_addr e) cpu))) = vs_rcount (st_auxdata e))"
proof -
  have out: "on_switch_out hw en thr cpu st = Some st"
    using assms(2) by (simp add: on_switch_out_def out_loop_None [OF assms(3)])
  have loop: "switch_in_loop hw en cpu (e # z # rest) 0 (vtimers st) (cs_reads st) =
      Some (in_vt hw en cpu (cs_reads st) [e] (vtimers st), cs_reads st + 1)"
    using in_loop_eq [of "[e]" en "vtimers st" z "[]" 0 hw cpu rest "cs_reads st"] assms(7,8,9) by simp
  obtain ht' where "hash_table_remove (ht_vtimers st) thr = Some (Some i, ht')"
    using remove_spec [OF assms(4), of thr] assms(5) by auto
  then have "\<exists>st2. on_switch_in hw en thr cpu st = Some st2 \<and> sl_heap st2 = stacklist_free i (sl_heap st) \<and>
      vtimers st2 = in_vt hw en cpu (cs_reads st) [e] (vtimers st)"
    using assms(1,6) loop by (simp add: on_switch_in_def)
  then show ?thesis using out by (auto simp: restart1_def)
qed

theorem stale_vector_restarted_witness:
  "let st = \<lparr>av_vtimers = \<lparr>vtimer_addresses = replicate 50 0, av_finish = 0\<rparr>,
       ht_vtimers = \<lparr>all_elems = (\<lambda>_. \<lparr>the_key = 7, removed = True, the_data = Some 0, nxt = None\<rparr>),
         bins = (\<lambda>b. if b = ht_bin 7 then Some 0 else None), num_elems = 1\<rparr>,
       sl_heap = \<lparr>sl_next = (\<lambda>_. None), sl_timers = (\<lambda>_.
         [\<lparr>st_addr = 1024, st_auxdata = \<lparr>vs_start = 100, vs_rcount = 1\<rparr>\<rparr>,
          \<lparr>st_addr = 0, st_auxdata = \<lparr>vs_start = 0, vs_rcount = 0\<rparr>\<rparr>]), sl_head = Some 0\<rparr>,
       vtimers = (\<lambda>a. \<lparr>total_field = 10, start_field = \<lparr>vs_start = 0, vs_rcount = 0\<rparr>, counter_type = 1\<rparr>),
       number_unsaved_timers = 0, cs_reads = 0\<rparr>
   in on_switch_out (\<lambda>r c. (0, 0)) 1 7 0 st = Some st \<and>
     (\<exists>st2. on_switch_in (\<lambda>r c. (0, 0)) 1 7 0 st = Some st2 \<and> sl_heap st2 = stacklist_free 0 (sl_heap st) \<and>
       vs_rcount (start_field (vtimers st2 1024)) = 1)"
proof -
  let ?ht = "\<lparr>all_elems = (\<lambda>_. \<lparr>the_key = 7, removed = True, the_data = Some 0, nxt = None\<rparr>),
         bins = (\<lambda>b. if b = ht_bin 7 then Some 0 else None), num_elems = 1\<rparr> :: nat hash_table"
  let ?e = "\<lparr>st_addr = 1024, st_auxdata = \<lparr>vs_start = 100, vs_rcount = 1\<rparr>\<rparr> :: saved_timer"
  let ?z = "\<lparr>st_addr = 0, st_auxdata = \<lparr>vs_start = 0, vs_rcount = 0\<rparr>\<rparr> :: saved_timer"
  let ?st = "\<lparr>av_vtimers = \<lparr>vtimer_addresses = replicate 50 0, av_finish = 0\<rparr>, ht_vtimers = ?ht,
       sl_heap = \<lparr>sl_next = (\<lambda>_. None), sl_timers = (\<lambda>_. [?e, ?z]), sl_head = Some 0\<rparr>,
       vtimers = (\<lambda>a. \<lparr>total_field = 10, start_field = \<lparr>vs_start = 0, vs_rcount = 0\<rparr>, counter_type = 1\<rparr>),
       number_unsaved_timers = 0, cs_reads = 0\<rparr> :: cs_state"
  have "ht_inv ?ht" "ht_abs ?ht 7 = Some (Some 0, True)"
    by (auto simp: ht_inv_def bin_list_def ht_key_def ht_next_def ht_max_num_elems_def ht_abs_def ht_elem_def)
  then have "on_switch_out (\<lambda>r c. (0, 0)) 1 7 0 ?st = Some ?st \<and>
     (\<exists>st2. on_switch_in (\<lambda>r c. (0, 0)) 1 7 0 ?st = Some st2 \<and> sl_heap st2 = stacklist_free 0 (sl_heap ?st) \<and>
       vs_rcount (start_field (vtimers st2 (getCPUTimer (st_addr ?e) 0))) = vs_rcount (st_auxdata ?e))"
    by (intro stale_vector_restarted [where z = ?z and rest = "[]"])
      (simp_all add: KERNINST_ENABLE_CONTEXTSWITCH_def av_list_def stacklist_get_def readable_def
        hw_source_def KIND_OF_def)
  then show ?thesis by (simp add: getCPUTimer_def)
qed

end
