(* ===== verification/HwCounterP4.thy ===== *)
theory HwCounterP4
  imports CSwitch
begin

text \<open>
  The Pentium 4 performance counters (hwcounter_p4.c, hwcounter_p4.h): 18 counters, each with a
  configuration control register (CCCR) that enables it and selects one of eight event selection
  registers (ESCR). The model-specific registers of one processor are a map from register numbers to
  pairs of words (eax, edx). \<open>set_machine_state\<close> executes \<open>wrmsr\<close> without giving a value for edx: the
  high word it stores is the parameter \<open>edx\<close> of the model.
\<close>

unbundle bit_operations_syntax

type_synonym msrs = "u32 \<Rightarrow> u32 \<times> u32"

definition NUM_COUNTERS :: nat where
  "NUM_COUNTERS = 18"

definition CCCR_ADDR :: "u32 \<Rightarrow> u32" where
  "CCCR_ADDR e = 0x360 + e"

definition CCCR_IS_ENABLED :: "u32 \<Rightarrow> bool" where
  "CCCR_IS_ENABLED c \<longleftrightarrow> c AND 0x1000 \<noteq> 0"

definition ESCR_OF_CCCR :: "u32 \<Rightarrow> nat" where
  "ESCR_OF_CCCR c = unat (drop_bit 13 c AND 7)"

datatype ESCR_id =
    BSU_ESCR0 | BSU_ESCR1 | FSB_ESCR0 | FSB_ESCR1 | FIRM_ESCR0 | FIRM_ESCR1 | FLAME_ESCR0 | FLAME_ESCR1
  | DAC_ESCR0 | DAC_ESCR1 | MOB_ESCR0 | MOB_ESCR1 | PMH_ESCR0 | PMH_ESCR1 | SAAT_ESCR0 | SAAT_ESCR1
  | U2L_ESCR0 | U2L_ESCR1 | BPU_ESCR0 | BPU_ESCR1 | IS_ESCR0 | IS_ESCR1 | ITLB_ESCR0 | ITLB_ESCR1
  | CRU_ESCR0 | CRU_ESCR1 | IQ_ESCR0 | IQ_ESCR1 | RAT_ESCR0 | RAT_ESCR1 | SSU_ESCR0
  | MS_ESCR0 | MS_ESCR1 | TBPU_ESCR0 | TBPU_ESCR1 | TC_ESCR0 | TC_ESCR1
  | IX_ESCR0 | IX_ESCR1 | ALF_ESCR0 | ALF_ESCR1 | CRU_ESCR2 | CRU_ESCR3 | CRU_ESCR4 | CRU_ESCR5
  | NO_ESCR

primrec escr_num :: "ESCR_id \<Rightarrow> u32" where
  "escr_num BSU_ESCR0 = 0" | "escr_num BSU_ESCR1 = 1" | "escr_num FSB_ESCR0 = 2" | "escr_num FSB_ESCR1 = 3"
| "escr_num FIRM_ESCR0 = 4" | "escr_num FIRM_ESCR1 = 5" | "escr_num FLAME_ESCR0 = 6" | "escr_num FLAME_ESCR1 = 7"
| "escr_num DAC_ESCR0 = 8" | "escr_num DAC_ESCR1 = 9" | "escr_num MOB_ESCR0 = 10" | "escr_num MOB_ESCR1 = 11"
| "escr_num PMH_ESCR0 = 12" | "escr_num PMH_ESCR1 = 13" | "escr_num SAAT_ESCR0 = 14" | "escr_num SAAT_ESCR1 = 15"
| "escr_num U2L_ESCR0 = 16" | "escr_num U2L_ESCR1 = 17" | "escr_num BPU_ESCR0 = 18" | "escr_num BPU_ESCR1 = 19"
| "escr_num IS_ESCR0 = 20" | "escr_num IS_ESCR1 = 21" | "escr_num ITLB_ESCR0 = 22" | "escr_num ITLB_ESCR1 = 23"
| "escr_num CRU_ESCR0 = 24" | "escr_num CRU_ESCR1 = 25" | "escr_num IQ_ESCR0 = 26" | "escr_num IQ_ESCR1 = 27"
| "escr_num RAT_ESCR0 = 28" | "escr_num RAT_ESCR1 = 29" | "escr_num SSU_ESCR0 = 30"
| "escr_num MS_ESCR0 = 32" | "escr_num MS_ESCR1 = 33" | "escr_num TBPU_ESCR0 = 34" | "escr_num TBPU_ESCR1 = 35"
| "escr_num TC_ESCR0 = 36" | "escr_num TC_ESCR1 = 37"
| "escr_num IX_ESCR0 = 40" | "escr_num IX_ESCR1 = 41" | "escr_num ALF_ESCR0 = 42" | "escr_num ALF_ESCR1 = 43"
| "escr_num CRU_ESCR2 = 44" | "escr_num CRU_ESCR3 = 45" | "escr_num CRU_ESCR4 = 64" | "escr_num CRU_ESCR5 = 65"
| "escr_num NO_ESCR = - 1"

definition ESCR_ADDR :: "ESCR_id \<Rightarrow> u32" where
  "ESCR_ADDR e = 0x3a0 + escr_num e"

definition IA32_PEBS_ENABLE :: u32 where
  "IA32_PEBS_ENABLE = 0x3f1"

definition PEBS_MATRIX_VERT :: u32 where
  "PEBS_MATRIX_VERT = 0x3f2"

definition counter_escrs :: "ESCR_id list list" where
  "counter_escrs = [
     [BPU_ESCR0, IS_ESCR0, MOB_ESCR0, ITLB_ESCR0, PMH_ESCR0, IX_ESCR0, FSB_ESCR0, BSU_ESCR0],
     [BPU_ESCR0, IS_ESCR0, MOB_ESCR0, ITLB_ESCR0, PMH_ESCR0, IX_ESCR0, FSB_ESCR0, BSU_ESCR0],
     [BPU_ESCR1, IS_ESCR1, MOB_ESCR1, ITLB_ESCR1, PMH_ESCR1, IX_ESCR1, FSB_ESCR1, BSU_ESCR1],
     [BPU_ESCR1, IS_ESCR1, MOB_ESCR1, ITLB_ESCR1, PMH_ESCR1, IX_ESCR1, FSB_ESCR1, BSU_ESCR1],
     [MS_ESCR0, TC_ESCR0, TBPU_ESCR0, NO_ESCR, NO_ESCR, NO_ESCR, NO_ESCR, NO_ESCR],
     [MS_ESCR0, TC_ESCR0, TBPU_ESCR0, NO_ESCR, NO_ESCR, NO_ESCR, NO_ESCR, NO_ESCR],
     [MS_ESCR1, TC_ESCR1, TBPU_ESCR1, NO_ESCR, NO_ESCR, NO_ESCR, NO_ESCR, NO_ESCR],
     [MS_ESCR1, TC_ESCR1, TBPU_ESCR1, NO_ESCR, NO_ESCR, NO_ESCR, NO_ESCR, NO_ESCR],
     [FLAME_ESCR0, FIRM_ESCR0, SAAT_ESCR0, U2L_ESCR0, NO_ESCR, DAC_ESCR0, NO_ESCR, NO_ESCR],
     [FLAME_ESCR0, FIRM_ESCR0, SAAT_ESCR0, U2L_ESCR0, NO_ESCR, DAC_ESCR0, NO_ESCR, NO_ESCR],
     [FLAME_ESCR1, FIRM_ESCR1, SAAT_ESCR1, U2L_ESCR1, NO_ESCR, DAC_ESCR1, NO_ESCR, NO_ESCR],
     [FLAME_ESCR1, FIRM_ESCR1, SAAT_ESCR1, U2L_ESCR1, NO_ESCR, DAC_ESCR1, NO_ESCR, NO_ESCR],
     [IQ_ESCR0, ALF_ESCR0, RAT_ESCR0, SSU_ESCR0, CRU_ESCR0, CRU_ESCR2, CRU_ESCR4, NO_ESCR],
     [IQ_ESCR0, ALF_ESCR0, RAT_ESCR0, SSU_ESCR0, CRU_ESCR0, CRU_ESCR2, CRU_ESCR4, NO_ESCR],
     [IQ_ESCR1, ALF_ESCR1, RAT_ESCR1, NO_ESCR, CRU_ESCR1, CRU_ESCR3, CRU_ESCR5, NO_ESCR],
     [IQ_ESCR1, ALF_ESCR1, RAT_ESCR1, NO_ESCR, CRU_ESCR1, CRU_ESCR3, CRU_ESCR5, NO_ESCR],
     [IQ_ESCR0, ALF_ESCR0, RAT_ESCR0, SSU_ESCR0, CRU_ESCR0, CRU_ESCR2, CRU_ESCR4, NO_ESCR],
     [IQ_ESCR1, ALF_ESCR1, RAT_ESCR1, NO_ESCR, CRU_ESCR1, CRU_ESCR3, CRU_ESCR5, NO_ESCR]]"

record perfctr_state =
  cccr_val :: "u32 list"
  escr_val :: "u32 list"
  pebs_msr :: "u32 list"

record perfctr_val =
  pv_ctr :: u32
  pv_low :: u32
  pv_high :: u32

definition reset_perfctr_state :: perfctr_state where
  "reset_perfctr_state = \<lparr>cccr_val = replicate 18 0, escr_val = replicate 18 0, pebs_msr = [0, 0]\<rparr>"

definition retrieve_machine_state :: "msrs \<Rightarrow> perfctr_state" where
  "retrieve_machine_state m =
     \<lparr>cccr_val = map (\<lambda>i. fst (m (CCCR_ADDR (of_nat i)))) [0..<NUM_COUNTERS],
      escr_val = map (\<lambda>i. let cccr_low = fst (m (CCCR_ADDR (of_nat i))) in
                   if CCCR_IS_ENABLED cccr_low
                   then fst (m (ESCR_ADDR (counter_escrs ! i ! ESCR_OF_CCCR cccr_low)))
                   else 0) [0..<NUM_COUNTERS],
      pebs_msr = [fst (m IA32_PEBS_ENABLE), fst (m PEBS_MATRIX_VERT)]\<rparr>"

definition wrmsr :: "(u32 \<Rightarrow> u32) \<Rightarrow> u32 \<Rightarrow> u32 \<Rightarrow> msrs \<Rightarrow> msrs" where
  "wrmsr edx msr_address msr_low m = m(msr_address := (msr_low, edx msr_address))"

definition set_counter :: "(u32 \<Rightarrow> u32) \<Rightarrow> perfctr_state \<Rightarrow> nat \<Rightarrow> msrs \<Rightarrow> msrs" where
  "set_counter edx ps i m =
     (if cccr_val ps ! i \<noteq> - 1 then
        let m1 = wrmsr edx (CCCR_ADDR (of_nat i)) (cccr_val ps ! i) m in
        if CCCR_IS_ENABLED (cccr_val ps ! i)
        then wrmsr edx (ESCR_ADDR (counter_escrs ! i ! ESCR_OF_CCCR (cccr_val ps ! i))) (escr_val ps ! i) m1
        else m1
      else m)"

definition set_machine_state :: "(u32 \<Rightarrow> u32) \<Rightarrow> perfctr_state \<Rightarrow> msrs \<Rightarrow> msrs" where
  "set_machine_state edx ps m =
     (let m1 = fold (set_counter edx ps) [0..<NUM_COUNTERS] m in
      if pebs_msr ps ! 0 \<noteq> - 1
      then wrmsr edx PEBS_MATRIX_VERT (pebs_msr ps ! 1) (wrmsr edx IA32_PEBS_ENABLE (pebs_msr ps ! 0) m1)
      else m1)"

definition get_perfctr_value :: "msrs \<Rightarrow> perfctr_val \<Rightarrow> perfctr_val" where
  "get_perfctr_value m val = val\<lparr>pv_low := fst (m (pv_ctr val)), pv_high := snd (m (pv_ctr val))\<rparr>"

definition set_perfctr_value :: "perfctr_val \<Rightarrow> msrs \<Rightarrow> msrs" where
  "set_perfctr_value val m = m(pv_ctr val := (pv_low val, pv_high val))"

text \<open>The value one processor stores in its slot; \<open>tsc\<close> is its time stamp counter.\<close>

definition read_hwc_all_cpus :: "u32 \<Rightarrow> u32 \<times> u32 \<Rightarrow> msrs \<Rightarrow> u32 \<Rightarrow> u64" where
  "read_hwc_all_cpus enable_bits tsc m type =
     (let kind = KIND_OF type;
          (pmc_low, pmc_high) =
            (if kind = 1 then tsc
             else if kind \<noteq> 0 \<and> enable_bits AND KERNINST_ENABLE_P4COUNTERS \<noteq> 0
             then let v = m (COUNTER_ADDR (CTR_OF type)) in (fst v, snd v AND 0xFF)
             else (0, 0))
      in push_bit 32 (ucast pmc_high) + ucast pmc_low)"

section \<open>Setting and reading the counter state\<close>

definition escr_of :: "perfctr_state \<Rightarrow> nat \<Rightarrow> u32" where
  "escr_of ps i = ESCR_ADDR (counter_escrs ! i ! ESCR_OF_CCCR (cccr_val ps ! i))"

text \<open>A state that can be programmed: no register is left alone (the value \<open>-1\<close>), a disabled counter
  has no ESCR value, and enabled counters that select the same ESCR agree on its value.\<close>

definition ps_ok :: "perfctr_state \<Rightarrow> bool" where
  "ps_ok ps \<longleftrightarrow> length (cccr_val ps) = NUM_COUNTERS \<and> length (escr_val ps) = NUM_COUNTERS \<and>
     length (pebs_msr ps) = 2 \<and> pebs_msr ps ! 0 \<noteq> - 1 \<and>
     (\<forall>i<NUM_COUNTERS. cccr_val ps ! i \<noteq> - 1 \<and>
        (\<not> CCCR_IS_ENABLED (cccr_val ps ! i) \<longrightarrow> escr_val ps ! i = 0) \<and>
        (\<forall>j<NUM_COUNTERS. CCCR_IS_ENABLED (cccr_val ps ! i) \<longrightarrow> CCCR_IS_ENABLED (cccr_val ps ! j) \<longrightarrow>
           escr_of ps i = escr_of ps j \<longrightarrow> escr_val ps ! i = escr_val ps ! j))"

lemma cccr_addr_range: "i < NUM_COUNTERS \<Longrightarrow> unat (CCCR_ADDR (of_nat i)) = 0x360 + i"
  by (simp add: CCCR_ADDR_def NUM_COUNTERS_def unat_word_ariths unat_of_nat)

lemma escr_addr_range: "0x39f \<le> unat (ESCR_ADDR e) \<and> unat (ESCR_ADDR e) \<le> 0x3e1"
  by (cases e) (simp_all add: ESCR_ADDR_def)

lemma unat_ne: "unat a \<noteq> unat b \<Longrightarrow> a \<noteq> b"
  by blast

lemma msr_apart:
  assumes "i < NUM_COUNTERS"
  shows "CCCR_ADDR (of_nat i) \<noteq> ESCR_ADDR e" "CCCR_ADDR (of_nat i) \<noteq> IA32_PEBS_ENABLE"
    "CCCR_ADDR (of_nat i) \<noteq> PEBS_MATRIX_VERT"
    "j < NUM_COUNTERS \<Longrightarrow> i \<noteq> j \<Longrightarrow> CCCR_ADDR (of_nat i) \<noteq> CCCR_ADDR (of_nat j)"
proof -
  have c: "unat (CCCR_ADDR (of_nat i)) = 0x360 + i" "i < 18"
    using cccr_addr_range [OF assms] assms by (simp_all add: NUM_COUNTERS_def)
  have p: "unat IA32_PEBS_ENABLE = 0x3f1" "unat PEBS_MATRIX_VERT = 0x3f2"
    by (simp_all add: IA32_PEBS_ENABLE_def PEBS_MATRIX_VERT_def)
  show "CCCR_ADDR (of_nat i) \<noteq> ESCR_ADDR e"
    by (rule unat_ne) (use c escr_addr_range [of e] in linarith)
  show "CCCR_ADDR (of_nat i) \<noteq> IA32_PEBS_ENABLE" "CCCR_ADDR (of_nat i) \<noteq> PEBS_MATRIX_VERT"
    by (rule unat_ne, use c p in linarith)+
  show "CCCR_ADDR (of_nat i) \<noteq> CCCR_ADDR (of_nat j)" if "j < NUM_COUNTERS" "i \<noteq> j"
    by (rule unat_ne) (use c cccr_addr_range [OF that(1)] that in linarith)
qed

lemma escr_apart: "ESCR_ADDR e \<noteq> IA32_PEBS_ENABLE" "ESCR_ADDR e \<noteq> PEBS_MATRIX_VERT"
proof -
  have p: "unat IA32_PEBS_ENABLE = 0x3f1" "unat PEBS_MATRIX_VERT = 0x3f2"
    by (simp_all add: IA32_PEBS_ENABLE_def PEBS_MATRIX_VERT_def)
  show "ESCR_ADDR e \<noteq> IA32_PEBS_ENABLE" "ESCR_ADDR e \<noteq> PEBS_MATRIX_VERT"
    by (rule unat_ne, use p escr_addr_range [of e] in linarith)+
qed

lemma set_counter_regs:
  assumes "ps_ok ps" and "n < NUM_COUNTERS"
  shows "fst (set_counter edx ps n m (CCCR_ADDR (of_nat n))) = cccr_val ps ! n"
    and "i < NUM_COUNTERS \<Longrightarrow> i \<noteq> n \<Longrightarrow>
      set_counter edx ps n m (CCCR_ADDR (of_nat i)) = m (CCCR_ADDR (of_nat i))"
    and "CCCR_IS_ENABLED (cccr_val ps ! n) \<Longrightarrow> fst (set_counter edx ps n m (escr_of ps n)) = escr_val ps ! n"
    and "i < NUM_COUNTERS \<Longrightarrow> CCCR_IS_ENABLED (cccr_val ps ! i) \<Longrightarrow>
      fst (m (escr_of ps i)) = escr_val ps ! i \<Longrightarrow>
      fst (set_counter edx ps n m (escr_of ps i)) = escr_val ps ! i"
proof -
  have ok: "cccr_val ps ! n \<noteq> - 1" using assms unfolding ps_ok_def by blast
  have st: "set_counter edx ps n m =
      (let m1 = wrmsr edx (CCCR_ADDR (of_nat n)) (cccr_val ps ! n) m in
       if CCCR_IS_ENABLED (cccr_val ps ! n) then wrmsr edx (escr_of ps n) (escr_val ps ! n) m1 else m1)"
    using ok by (simp add: set_counter_def escr_of_def Let_def)
  have ne: "CCCR_ADDR (of_nat j) \<noteq> escr_of ps k" if "j < NUM_COUNTERS" for j k
    unfolding escr_of_def by (rule msr_apart(1) [OF that])
  show "fst (set_counter edx ps n m (CCCR_ADDR (of_nat n))) = cccr_val ps ! n"
    unfolding st using ne [OF assms(2), of n] by (simp add: wrmsr_def Let_def)
  show "set_counter edx ps n m (CCCR_ADDR (of_nat i)) = m (CCCR_ADDR (of_nat i))"
    if "i < NUM_COUNTERS" "i \<noteq> n"
    unfolding st using ne [OF that(1), of n] msr_apart(4) [OF that(1) assms(2) that(2)]
    by (simp add: wrmsr_def Let_def)
  show "fst (set_counter edx ps n m (escr_of ps n)) = escr_val ps ! n"
    if "CCCR_IS_ENABLED (cccr_val ps ! n)"
    unfolding st using that by (simp add: wrmsr_def Let_def)
  show "fst (set_counter edx ps n m (escr_of ps i)) = escr_val ps ! i"
    if "i < NUM_COUNTERS" "CCCR_IS_ENABLED (cccr_val ps ! i)" "fst (m (escr_of ps i)) = escr_val ps ! i"
  proof -
    have "CCCR_IS_ENABLED (cccr_val ps ! n) \<Longrightarrow> escr_of ps i = escr_of ps n \<Longrightarrow>
        escr_val ps ! n = escr_val ps ! i"
      using assms that unfolding ps_ok_def by metis
    then show ?thesis unfolding st using ne [OF assms(2), of i] that(3) by (auto simp: wrmsr_def Let_def)
  qed
qed

lemma set_counters_regs:
  assumes "ps_ok ps" and "n \<le> NUM_COUNTERS" and "i < n"
  shows "fst (fold (set_counter edx ps) [0..<n] m (CCCR_ADDR (of_nat i))) = cccr_val ps ! i \<and>
    (CCCR_IS_ENABLED (cccr_val ps ! i) \<longrightarrow>
      fst (fold (set_counter edx ps) [0..<n] m (escr_of ps i)) = escr_val ps ! i)"
  using assms(2,3)
proof (induction n)
  case (Suc n)
  then have n: "n < NUM_COUNTERS" "i < NUM_COUNTERS" by simp_all
  show ?case
  proof (cases "i = n")
    case True
    then show ?thesis using set_counter_regs(1,3) [OF assms(1) n(1)] by simp
  next
    case False
    then show ?thesis using Suc set_counter_regs(2,4) [OF assms(1) n] by simp
  qed
qed simp

lemma set_then_retrieve:
  assumes "ps_ok ps"
  shows "retrieve_machine_state (set_machine_state edx ps m) = ps"
proof -
  let ?m = "fold (set_counter edx ps) [0..<NUM_COUNTERS] m" and ?m' = "set_machine_state edx ps m"
  have pebs: "pebs_msr ps ! 0 \<noteq> - 1" "length (pebs_msr ps) = 2"
    and len: "length (cccr_val ps) = NUM_COUNTERS" "length (escr_val ps) = NUM_COUNTERS"
    and off: "\<And>i. i < NUM_COUNTERS \<Longrightarrow> \<not> CCCR_IS_ENABLED (cccr_val ps ! i) \<Longrightarrow> escr_val ps ! i = 0"
    using assms unfolding ps_ok_def by blast+
  have c: "fst (?m' (CCCR_ADDR (of_nat i))) = cccr_val ps ! i" if "i < NUM_COUNTERS" for i
    using set_counters_regs [OF assms order_refl that, of edx m] msr_apart(2,3) [OF that] pebs
    by (simp add: set_machine_state_def wrmsr_def Let_def)
  have e: "fst (?m' (escr_of ps i)) = escr_val ps ! i"
    if "i < NUM_COUNTERS" "CCCR_IS_ENABLED (cccr_val ps ! i)" for i
    using set_counters_regs [OF assms order_refl that(1), of edx m] escr_apart that(2) pebs
    by (simp add: set_machine_state_def wrmsr_def Let_def escr_of_def)
  have "map (\<lambda>i. fst (?m' (CCCR_ADDR (of_nat i)))) [0..<NUM_COUNTERS] = cccr_val ps"
    using c len by (auto intro!: nth_equalityI)
  moreover have "map (\<lambda>i. let cccr_low = fst (?m' (CCCR_ADDR (of_nat i))) in
      if CCCR_IS_ENABLED cccr_low then fst (?m' (ESCR_ADDR (counter_escrs ! i ! ESCR_OF_CCCR cccr_low)))
      else 0) [0..<NUM_COUNTERS] = escr_val ps"
    using c e off len by (auto intro!: nth_equalityI simp: escr_of_def Let_def)
  moreover have "[fst (?m' IA32_PEBS_ENABLE), fst (?m' PEBS_MATRIX_VERT)] = pebs_msr ps"
    using pebs by (auto intro!: nth_equalityI simp: set_machine_state_def wrmsr_def Let_def
        IA32_PEBS_ENABLE_def PEBS_MATRIX_VERT_def less_Suc_eq numeral_2_eq_2)
  ultimately show ?thesis by (simp add: retrieve_machine_state_def Let_def)
qed

text \<open>C28: a programmable counter state written to the model-specific registers of a processor is read
  back unchanged, whatever the high words written are.\<close>

theorem machine_state_roundtrip:
  assumes "ps_ok ps"
  shows "retrieve_machine_state (set_machine_state edx ps m) = ps"
  using assms by (rule set_then_retrieve)

lemma ps_ok_reset: "ps_ok reset_perfctr_state"
  by (simp add: ps_ok_def reset_perfctr_state_def NUM_COUNTERS_def CCCR_IS_ENABLED_def)

text \<open>Zeroing a counter does not touch the registers that configure it.\<close>

lemma counter_addr_apart:
  assumes "i < NUM_COUNTERS"
  shows "j < NUM_COUNTERS \<Longrightarrow> COUNTER_ADDR (of_nat i) \<noteq> CCCR_ADDR (of_nat j)"
    and "COUNTER_ADDR (of_nat i) \<noteq> ESCR_ADDR e" "COUNTER_ADDR (of_nat i) \<noteq> IA32_PEBS_ENABLE"
    "COUNTER_ADDR (of_nat i) \<noteq> PEBS_MATRIX_VERT"
proof -
  have c: "unat (COUNTER_ADDR (of_nat i)) = 0x300 + i" "i < 18"
    using assms by (simp_all add: COUNTER_ADDR_def NUM_COUNTERS_def unat_word_ariths unat_of_nat)
  have p: "unat IA32_PEBS_ENABLE = 0x3f1" "unat PEBS_MATRIX_VERT = 0x3f2"
    by (simp_all add: IA32_PEBS_ENABLE_def PEBS_MATRIX_VERT_def)
  show "COUNTER_ADDR (of_nat i) \<noteq> CCCR_ADDR (of_nat j)" if "j < NUM_COUNTERS"
    by (rule unat_ne) (use c cccr_addr_range [OF that] in linarith)
  show "COUNTER_ADDR (of_nat i) \<noteq> ESCR_ADDR e"
    by (rule unat_ne) (use c escr_addr_range [of e] in linarith)
  show "COUNTER_ADDR (of_nat i) \<noteq> IA32_PEBS_ENABLE" "COUNTER_ADDR (of_nat i) \<noteq> PEBS_MATRIX_VERT"
    by (rule unat_ne, use c p in linarith)+
qed

lemma retrieve_set_counter:
  assumes "i < NUM_COUNTERS" and "pv_ctr v = COUNTER_ADDR (of_nat i)"
  shows "retrieve_machine_state (set_perfctr_value v m) = retrieve_machine_state m"
proof -
  note apart = counter_addr_apart [OF assms(1), symmetric]
  have "set_perfctr_value v m (CCCR_ADDR (of_nat j)) = m (CCCR_ADDR (of_nat j))" if "j < NUM_COUNTERS" for j
    using apart(1) [OF that] assms(2) by (simp add: set_perfctr_value_def)
  moreover have "set_perfctr_value v m (ESCR_ADDR e) = m (ESCR_ADDR e)" for e
    using apart(2) assms(2) by (simp add: set_perfctr_value_def)
  moreover have "set_perfctr_value v m IA32_PEBS_ENABLE = m IA32_PEBS_ENABLE"
      "set_perfctr_value v m PEBS_MATRIX_VERT = m PEBS_MATRIX_VERT"
    using apart(3,4) assms(2) by (simp_all add: set_perfctr_value_def)
  ultimately show ?thesis by (simp add: retrieve_machine_state_def Let_def)
qed

text \<open>Counters 12 and 16 enabled, both on \<open>IQ_ESCR0\<close>, the others off.\<close>

definition demo_counters :: perfctr_state where
  "demo_counters = reset_perfctr_state\<lparr>cccr_val := (replicate 18 0)[12 := 0x1000, 16 := 0x1000],
     escr_val := (replicate 18 0)[12 := 0x20C, 16 := 0x20C]\<rparr>"

theorem machine_state_roundtrip_witness:
  "ps_ok demo_counters \<and>
   retrieve_machine_state (set_machine_state (\<lambda>_. 5) demo_counters (\<lambda>_. (7, 7))) = demo_counters"
proof -
  have "ps_ok demo_counters"
    unfolding ps_ok_def NUM_COUNTERS_def
    by (auto simp: demo_counters_def reset_perfctr_state_def nth_list_update CCCR_IS_ENABLED_def
        split: if_splits)
  then show ?thesis using machine_state_roundtrip by blast
qed

end
