(* ===== verification/KerninstDriver.thy ===== *)
theory KerninstDriver
  imports LoggedWrites AllocLog TrapMap CalleeCounter HwCounterP4
begin

text \<open>
  The driver's file operations (\<open>kerninst.c\<close>, i386 build): loading and unloading the module, opening
  and closing the device, and the ioctl requests, over the state of all its components. What a request
  copies from user space is an argument of the request, what it copies back is its output. A kernel
  fault (a null pointer, an overrun of a kernel buffer, a walk that does not end) is \<open>None\<close>.

  The kernel is the parameter \<open>ke\<close>: its allocator for the daemon's blocks, the call that runs a
  function on every processor, the time stamp counters, and the addresses of the module's handler and
  of \<open>av_vtimers\<close>. Whether the driver's own small allocations succeed is a flag of each call.
  Spin locks and kernel log messages are left out.
\<close>

section \<open>State\<close>

record 'h kernel_env =
  ke_kmalloc :: "u32 \<Rightarrow> 'h \<Rightarrow> kptr \<times> 'h"
  ke_kfree :: "kptr \<Rightarrow> 'h \<Rightarrow> 'h"
  ke_on_each_cpu :: "(nat \<Rightarrow> msrs \<Rightarrow> msrs) \<Rightarrow> (nat \<Rightarrow> msrs) \<Rightarrow> int \<times> (nat \<Rightarrow> msrs)"
  ke_edx :: "nat \<Rightarrow> u32 \<Rightarrow> u32"
  ke_tsc :: "nat \<Rightarrow> u32 \<times> u32"
  ke_num_cpus :: nat
  ke_cpu :: nat
  ke_p4 :: bool
  ke_int3_desc :: "u32 \<times> u32"
  ke_handler :: kptr
  ke_av_addr :: kptr

record 'h driver =
  in_use :: int
  mod_use_count :: int
  kerninst_enable_bits :: u32
  kerninst_debug_bits :: u32
  d_callees :: "callee_table option"
  d_cs :: cs_state
  d_traps :: trap_state
  d_mem :: kmem
  d_heap :: 'h
  global_loggedAllocRequests :: lar
  global_loggedWrites :: "oneWrite list option option"
  d_msrs :: "nat \<Rightarrow> msrs"

definition KERNINST_ENABLE_ALL :: u32 where
  "KERNINST_ENABLE_ALL = 0x0000ffff"

definition EBUSY :: int where "EBUSY = 16"

definition EIO :: int where "EIO = 5"

definition ENOMEM :: int where "ENOMEM = 12"

definition ENOTTY :: int where "ENOTTY = 25"

definition EFAULT :: int where "EFAULT = 14"

section \<open>Loading and unloading\<close>

text \<open>\<open>major\<close> is the result of \<open>register_chrdev\<close>, \<open>table\<close> the block \<open>vmalloc\<close> returns for the callee table.\<close>

definition init_kerninst ::
  "'h kernel_env \<Rightarrow> int \<Rightarrow> (nat \<Rightarrow> callee_info) option \<Rightarrow> 'h driver \<Rightarrow> int \<times> 'h driver" where
  "init_kerninst ke major table d =
     (if major < 0 then (major, d)
      else
        (0, d\<lparr>kerninst_debug_bits := 0,
              kerninst_enable_bits :=
                (if ke_p4 ke then KERNINST_ENABLE_ALL OR KERNINST_ENABLE_P4COUNTERS else KERNINST_ENABLE_ALL),
              d_traps := get_int3_handler True (ke_int3_desc ke) (d_mem d) (d_traps d),
              d_callees := kerninst_init_callee_counter table 0\<rparr>))"

definition cleanup_kerninst :: "'h driver \<Rightarrow> 'h driver" where
  "cleanup_kerninst d =
     d\<lparr>d_mem := (if int3_handler_installed (d_traps d)
                 then snd (set_int3_handler (do_int3_addr (d_traps d)) (d_mem d) (d_traps d)) else d_mem d),
       d_callees := None\<rparr>"

section \<open>Opening and closing the device\<close>

text \<open>The loop that zeroes the counters stops at the first failure.\<close>

fun zero_counters :: "'h kernel_env \<Rightarrow> nat list \<Rightarrow> (nat \<Rightarrow> msrs) \<Rightarrow> int \<times> (nat \<Rightarrow> msrs)" where
  "zero_counters ke [] ms = (0, ms)"
| "zero_counters ke (i # is) ms =
     (let (rv, ms') = ke_on_each_cpu ke
            (\<lambda>_. set_perfctr_value \<lparr>pv_ctr = COUNTER_ADDR (of_nat i), pv_low = 0, pv_high = 0\<rparr>) ms
      in if rv \<noteq> 0 then (rv, ms') else zero_counters ke is ms')"

definition clear_perfctr_state :: "'h kernel_env \<Rightarrow> 'h driver \<Rightarrow> 'h driver" where
  "clear_perfctr_state ke d =
     (if kerninst_enable_bits d AND KERNINST_ENABLE_P4COUNTERS \<noteq> 0 then
        let (rv, ms) = ke_on_each_cpu ke (\<lambda>c. set_machine_state (ke_edx ke c) reset_perfctr_state) (d_msrs d);
            (rv', ms') = (if rv = 0 then zero_counters ke [0..<NUM_COUNTERS] ms else (rv, ms))
        in d\<lparr>d_msrs := ms',
             kerninst_enable_bits := (if rv' \<noteq> 0 then kerninst_enable_bits d XOR KERNINST_ENABLE_P4COUNTERS
                                      else kerninst_enable_bits d)\<rparr>
      else d)"

text \<open>\<open>lar_ok\<close> and \<open>lw_ok\<close>: whether the two allocations of each log succeed.\<close>

definition kerninst_open ::
  "'h kernel_env \<Rightarrow> bool \<times> bool \<Rightarrow> bool \<times> bool \<Rightarrow> 'h driver \<Rightarrow> (int \<times> 'h driver) option" where
  "kerninst_open ke lar_ok lw_ok d =
     (if in_use d \<noteq> 0 then (if in_use d > 1 then Some (0, d) else Some (- EBUSY, d))
      else
        (case d_callees d of
           None \<Rightarrow> None
         | Some ct \<Rightarrow>
             Some (0, clear_perfctr_state ke
               (d\<lparr>in_use := in_use d + 1, mod_use_count := mod_use_count d + 1,
                  d_callees := Some (kerninst_reset_callee_counter ct),
                  d_cs := (d_cs d)\<lparr>av_vtimers := initialize_all_vtimers (av_vtimers (d_cs d)),
                                   sl_heap := stacklist_initialize (sl_heap (d_cs d)),
                                   ht_vtimers := hash_table_initialize (ht_vtimers (d_cs d))\<rparr>,
                  d_traps := (d_traps d)\<lparr>ht_traps := hash_table_initialize (ht_traps (d_traps d))\<rparr>,
                  global_loggedAllocRequests := initialize_logged_allocRequests (fst lar_ok) (snd lar_ok),
                  global_loggedWrites := initialize_logged_writes (fst lw_ok) (snd lw_ok)\<rparr>))))"

definition restore_int3 :: "'h driver \<Rightarrow> 'h driver" where
  "restore_int3 d =
     (if int3_handler_installed (d_traps d) then
        d\<lparr>d_mem := snd (set_int3_handler (do_int3_addr (d_traps d)) (d_mem d) (d_traps d)),
          d_traps := (d_traps d)\<lparr>int3_handler_installed := False\<rparr>\<rparr>
      else d)"

definition destroy_structures :: "'h driver \<Rightarrow> 'h driver" where
  "destroy_structures d =
     d\<lparr>d_cs := (d_cs d)\<lparr>av_vtimers := destroy_all_vtimers (av_vtimers (d_cs d)),
                        sl_heap := stacklist_destroy (sl_heap (d_cs d)),
                        ht_vtimers := hash_table_destroy (ht_vtimers (d_cs d))\<rparr>,
       d_traps := (d_traps d)\<lparr>ht_traps := hash_table_destroy (ht_traps (d_traps d))\<rparr>\<rparr>"

definition kerninst_release :: "'h kernel_env \<Rightarrow> 'h driver \<Rightarrow> (int \<times> 'h driver) option" where
  "kerninst_release ke d0 =
     (let d = destroy_structures (d0\<lparr>in_use := in_use d0 - 1, mod_use_count := mod_use_count d0 - 1\<rparr>)
      in (case destroy_logged_writes (kerninst_enable_bits d) (global_loggedWrites d) (d_mem d) of
            None \<Rightarrow> None
          | Some m \<Rightarrow>
              Some (0, restore_int3 (clear_perfctr_state ke
                (d\<lparr>d_mem := m,
                   d_heap := destroy_logged_allocRequests (ke_kfree ke) (global_loggedAllocRequests d) (d_heap d)\<rparr>)))))"

section \<open>Requests\<close>

text \<open>What is copied back to user space. Bytes that were never written are \<open>None\<close>.\<close>

datatype ioctl_out =
    NoOut
  | OutAlloc kernInstAllocStruct
  | OutOrig "u8 list option"
  | OutWords "u32 list"
  | OutCounters "u64 option list"
  | OutPerfState perfctr_state
  | OutPerfVal perfctr_val

type_synonym 'h ioctl_res = "(int \<times> ioctl_out \<times> 'h driver) option"

definition ioctl_alloc_block :: "'h kernel_env \<Rightarrow> kernInstAllocStruct \<Rightarrow> 'h driver \<Rightarrow> 'h ioctl_res" where
  "ioctl_alloc_block ke args d =
     map_option (\<lambda>(retval, lar, h, out).
         (retval, if retval = 0 then OutAlloc out else NoOut, d\<lparr>global_loggedAllocRequests := lar, d_heap := h\<rparr>))
       (kerninst_alloc_block (ke_kmalloc ke) (global_loggedAllocRequests d) (d_heap d) args)"

definition ioctl_free_block :: "'h kernel_env \<Rightarrow> kernInstFreeStruct \<Rightarrow> 'h driver \<Rightarrow> 'h ioctl_res" where
  "ioctl_free_block ke args d =
     (let (retval, lar, h) = kerninst_free_block (ke_kfree ke) (global_loggedAllocRequests d) (d_heap d) args
      in Some (retval, NoOut, d\<lparr>global_loggedAllocRequests := lar, d_heap := h\<rparr>))"

text \<open>\<open>bytes\<close> are the \<open>len\<close> bytes copied to the 16-byte array \<open>newval\<close>.\<close>

definition ioctl_write1insn :: "kptr \<Rightarrow> u8 list \<Rightarrow> nat \<Rightarrow> 'h driver \<Rightarrow> 'h ioctl_res" where
  "ioctl_write1insn a bytes len d =
     (if 16 < len then None
      else map_option (\<lambda>m. (0, NoOut, d\<lparr>d_mem := m\<rparr>)) (write1Insn (kerninst_enable_bits d) (d_mem d) a bytes len))"

text \<open>The log of writes is dereferenced without a check. \<open>alloc_ok\<close>: the allocations for the original
  bytes succeed.\<close>

definition ioctl_wrundoable ::
  "bool \<Rightarrow> kptr \<Rightarrow> u8 list \<Rightarrow> nat \<Rightarrow> u32 \<Rightarrow> 'h driver \<Rightarrow> 'h ioctl_res" where
  "ioctl_wrundoable alloc_ok a bytes len howSoon d =
     (if 16 < len then None
      else
        (case global_loggedWrites d of
           None \<Rightarrow> None
         | Some None \<Rightarrow> None
         | Some (Some ws) \<Rightarrow>
             map_option (\<lambda>(retval, m, ws', orig).
                 (if retval = 0 then 0 else - ENOMEM, if retval = 0 then OutOrig orig else NoOut,
                  d\<lparr>d_mem := m, global_loggedWrites := Some (Some ws')\<rparr>))
               (LW_performUndoableWrite (kerninst_enable_bits d) alloc_ok (d_mem d) ws a len bytes howSoon)))"

definition ioctl_undo_wr :: "kptr \<Rightarrow> nat \<Rightarrow> u8 list \<Rightarrow> 'h driver \<Rightarrow> 'h ioctl_res" where
  "ioctl_undo_wr a len oldval d =
     (if 16 < len then None
      else
        (case global_loggedWrites d of
           None \<Rightarrow> None
         | Some None \<Rightarrow> Some (1, NoOut, d)
         | Some (Some ws) \<Rightarrow>
             map_option (\<lambda>(retval, m, ws'). (retval, NoOut, d\<lparr>d_mem := m, global_loggedWrites := Some (Some ws')\<rparr>))
               (LW_undoWrite1Insn (kerninst_enable_bits d) (d_mem d) ws a len oldval)))"

definition ioctl_chg_howsoon :: "kptr \<Rightarrow> u32 \<Rightarrow> 'h driver \<Rightarrow> 'h ioctl_res" where
  "ioctl_chg_howsoon a howSoon d =
     (case global_loggedWrites d of
        None \<Rightarrow> None
      | Some None \<Rightarrow> Some (1, NoOut, d)
      | Some (Some ws) \<Rightarrow>
          let (retval, ws') = LW_changeUndoableWriteHowSoon ws a howSoon
          in Some (retval, NoOut, d\<lparr>global_loggedWrites := Some (Some ws')\<rparr>))"

definition ioctl_known_callees_size :: "kptr \<Rightarrow> 'h driver \<Rightarrow> 'h ioctl_res" where
  "ioctl_known_callees_size site d =
     (case d_callees d of
        None \<Rightarrow> None
      | Some ct \<Rightarrow> map_option (\<lambda>n. (0, OutWords [n], d)) (kerninst_num_callees_for_site ct site))"

definition ioctl_known_callees_get :: "bool \<Rightarrow> kptr \<Rightarrow> u32 \<Rightarrow> 'h driver \<Rightarrow> 'h ioctl_res" where
  "ioctl_known_callees_get alloc_ok site asked d =
     (case d_callees d of
        None \<Rightarrow> None
      | Some ct \<Rightarrow>
          (case kerninst_num_callees_for_site ct site of
             None \<Rightarrow> None
           | Some n \<Rightarrow>
               if n \<noteq> asked then Some (- EIO, NoOut, d)
               else if n = 0 then Some (0, NoOut, d)
               else if \<not> alloc_ok then Some (- ENOMEM, NoOut, d)
               else
                 (case kerninst_get_callees_for_site ct site n of
                    None \<Rightarrow> None
                  | Some ws \<Rightarrow> if unat (2 * n * 4) < 4 * length ws then None else Some (0, OutWords ws, d))))"

definition ioctl_get_tick_raw :: "'h kernel_env \<Rightarrow> 'h driver \<Rightarrow> 'h ioctl_res" where
  "ioctl_get_tick_raw ke d = Some (0, OutWords [fst (ke_tsc ke (ke_cpu ke)), snd (ke_tsc ke (ke_cpu ke))], d)"

text \<open>\<open>None\<close> as the argument is an address \<open>get_user\<close> cannot read.\<close>

definition ioctl_add_to_allvtimers :: "kptr option \<Rightarrow> 'h driver \<Rightarrow> 'h ioctl_res" where
  "ioctl_add_to_allvtimers arg d =
     (case arg of
        None \<Rightarrow> Some (- EFAULT, NoOut, d)
      | Some a \<Rightarrow>
          map_option (\<lambda>(retval, av). (retval, NoOut, d\<lparr>d_cs := (d_cs d)\<lparr>av_vtimers := av\<rparr>\<rparr>))
            (addto_all_vtimers (av_vtimers (d_cs d)) a))"

definition ioctl_remove_from_allvtimers :: "kptr option \<Rightarrow> 'h driver \<Rightarrow> 'h ioctl_res" where
  "ioctl_remove_from_allvtimers arg d =
     (case arg of
        None \<Rightarrow> Some (- EFAULT, NoOut, d)
      | Some a \<Rightarrow>
          map_option (\<lambda>(retval, av, sl). (retval, NoOut, d\<lparr>d_cs := (d_cs d)\<lparr>av_vtimers := av, sl_heap := sl\<rparr>\<rparr>))
            (removefrom_all_vtimers (av_vtimers (d_cs d)) (ht_vtimers (d_cs d)) (sl_heap (d_cs d)) a))"

definition ioctl_clear_client_state :: "'h driver \<Rightarrow> 'h ioctl_res" where
  "ioctl_clear_client_state d =
     (let d1 = destroy_structures d
      in Some (0, NoOut, d1\<lparr>d_cs := (d_cs d1)\<lparr>av_vtimers := initialize_all_vtimers (av_vtimers (d_cs d1)),
                                              sl_heap := stacklist_initialize (sl_heap (d_cs d1))\<rparr>\<rparr>))"

text \<open>Each processor stores to its slot of a buffer whose size the caller chose.\<close>

definition ioctl_read_hwc_all_cpus :: "'h kernel_env \<Rightarrow> bool \<Rightarrow> u32 \<Rightarrow> u32 \<Rightarrow> 'h driver \<Rightarrow> 'h ioctl_res" where
  "ioctl_read_hwc_all_cpus ke alloc_ok type num_cpus d =
     (let bufsize = 8 * num_cpus
      in if \<not> alloc_ok \<or> unat bufsize < 8 * ke_num_cpus ke then None
         else Some (0, OutCounters (map (\<lambda>c. if c < ke_num_cpus ke
                  then Some (read_hwc_all_cpus (kerninst_enable_bits d) (ke_tsc ke c) (d_msrs d c) type) else None)
                [0..<unat bufsize div 8]), d))"

definition ioctl_register_trap :: "'h kernel_env \<Rightarrow> kptr \<Rightarrow> kptr \<Rightarrow> 'h driver \<Rightarrow> 'h ioctl_res" where
  "ioctl_register_trap ke trapAddr patchAddr d =
     map_option (\<lambda>(retval, m, t). (retval, NoOut, d\<lparr>d_mem := m, d_traps := t\<rparr>))
       (install_trap_mapping (ke_handler ke) trapAddr patchAddr (d_mem d, d_traps d))"

definition ioctl_update_trap :: "kptr \<Rightarrow> kptr \<Rightarrow> 'h driver \<Rightarrow> 'h ioctl_res" where
  "ioctl_update_trap trapAddr patchAddr d =
     map_option (\<lambda>(retval, t). (retval, NoOut, d\<lparr>d_traps := t\<rparr>)) (update_trap_mapping trapAddr patchAddr (d_traps d))"

definition ioctl_unregister_trap :: "kptr \<Rightarrow> 'h driver \<Rightarrow> 'h ioctl_res" where
  "ioctl_unregister_trap a d =
     map_option (\<lambda>(retval, m, t). (retval, NoOut, d\<lparr>d_mem := m, d_traps := t\<rparr>))
       (uninstall_trap_mapping a (d_mem d, d_traps d))"

definition ioctl_get_perf_ctr_state :: "'h kernel_env \<Rightarrow> 'h driver \<Rightarrow> 'h ioctl_res" where
  "ioctl_get_perf_ctr_state ke d =
     Some (0, OutPerfState (if kerninst_enable_bits d AND KERNINST_ENABLE_P4COUNTERS \<noteq> 0
                            then retrieve_machine_state (d_msrs d (ke_cpu ke)) else reset_perfctr_state), d)"

definition disable_on_error :: "int \<Rightarrow> 'h driver \<Rightarrow> 'h driver" where
  "disable_on_error rv d =
     (if rv \<noteq> 0 then d\<lparr>kerninst_enable_bits := kerninst_enable_bits d XOR KERNINST_ENABLE_P4COUNTERS\<rparr> else d)"

definition ioctl_set_perf_ctr_state :: "'h kernel_env \<Rightarrow> perfctr_state \<Rightarrow> 'h driver \<Rightarrow> 'h ioctl_res" where
  "ioctl_set_perf_ctr_state ke ps d =
     (if kerninst_enable_bits d AND KERNINST_ENABLE_P4COUNTERS \<noteq> 0 then
        let (rv, ms) = ke_on_each_cpu ke (\<lambda>c. set_machine_state (ke_edx ke c) ps) (d_msrs d)
        in Some (0, NoOut, disable_on_error rv (d\<lparr>d_msrs := ms\<rparr>))
      else Some (0, NoOut, d))"

definition ioctl_get_perf_ctr_val :: "'h kernel_env \<Rightarrow> perfctr_val \<Rightarrow> 'h driver \<Rightarrow> 'h ioctl_res" where
  "ioctl_get_perf_ctr_val ke val d =
     Some (0, OutPerfVal
       (if kerninst_enable_bits d AND KERNINST_ENABLE_P4COUNTERS \<noteq> 0
        then get_perfctr_value (d_msrs d (ke_cpu ke)) (val\<lparr>pv_ctr := COUNTER_ADDR (pv_ctr val)\<rparr>)
        else \<lparr>pv_ctr = 0, pv_low = 0, pv_high = 0\<rparr>), d)"

definition ioctl_set_perf_ctr_val :: "'h kernel_env \<Rightarrow> perfctr_val \<Rightarrow> 'h driver \<Rightarrow> 'h ioctl_res" where
  "ioctl_set_perf_ctr_val ke val d =
     (if kerninst_enable_bits d AND KERNINST_ENABLE_P4COUNTERS \<noteq> 0 then
        let (rv, ms) = ke_on_each_cpu ke (\<lambda>_. set_perfctr_value (val\<lparr>pv_ctr := COUNTER_ADDR (pv_ctr val)\<rparr>)) (d_msrs d)
        in Some (0, NoOut, disable_on_error rv (d\<lparr>d_msrs := ms\<rparr>))
      else Some (0, NoOut, d))"

text \<open>The function the self test of the instrumentation calls.\<close>

definition kerninst_call_me :: "int \<Rightarrow> int \<Rightarrow> int \<Rightarrow> int" where
  "kerninst_call_me i j k =
     fold (\<lambda>iter rv. (if iter mod 3 = 0 then rv + k else rv) - (if iter mod 4 = 0 then j else 0)) [0..i] j"

definition kerninst_call_once :: int where
  "kerninst_call_once = kerninst_call_me 123 456 789"

definition ioctl_toggle_enable_bits :: "u32 option \<Rightarrow> 'h driver \<Rightarrow> 'h ioctl_res" where
  "ioctl_toggle_enable_bits arg d =
     (case arg of
        None \<Rightarrow> Some (- EFAULT, NoOut, d)
      | Some flag \<Rightarrow> Some (0, NoOut, d\<lparr>kerninst_enable_bits := kerninst_enable_bits d XOR flag\<rparr>))"

definition ioctl_toggle_debug_bits :: "u32 option \<Rightarrow> 'h driver \<Rightarrow> 'h ioctl_res" where
  "ioctl_toggle_debug_bits arg d =
     (case arg of
        None \<Rightarrow> Some (- EFAULT, NoOut, d)
      | Some flag \<Rightarrow> Some (0, NoOut, d\<lparr>kerninst_debug_bits := kerninst_debug_bits d XOR flag\<rparr>))"

text \<open>\<open>while (MOD_IN_USE) MOD_DEC_USE_COUNT\<close> does not end on a negative count.\<close>

definition ioctl_reset :: "'h driver \<Rightarrow> 'h ioctl_res" where
  "ioctl_reset d = (if mod_use_count d < 0 then None else Some (0, NoOut, d\<lparr>mod_use_count := 1\<rparr>))"

datatype ioctl =
    ALLOC_BLOCK kernInstAllocStruct
  | FREE_BLOCK kernInstFreeStruct
  | WRITE1INSN kptr "u8 list" nat
  | WRUNDOABLE_REG bool kptr "u8 list" nat u32
  | UNDO_WR_REG kptr nat "u8 list"
  | CHG_UNDO_HOWSOON kptr u32
  | VIRTUAL_TO_PHYSICAL_ADDR
  | KNOWN_CALLEES_SIZE kptr
  | KNOWN_CALLEES_GET bool kptr u32
  | GET_TICK_RAW
  | GET_ALLVTIMERS_ADDR
  | ADD_TO_ALLVTIMERS "kptr option"
  | REMOVE_FROM_ALLVTIMERS "kptr option"
  | CLEAR_CLIENT_STATE
  | READ_HWC_ALL_CPUS bool u32 u32
  | REGISTER_TRAP_PATCH_MAPPING kptr kptr
  | UPDATE_TRAP_PATCH_MAPPING kptr kptr
  | UNREGISTER_TRAP_PATCH_MAPPING kptr
  | GET_PERF_CTR_STATE
  | SET_PERF_CTR_STATE perfctr_state
  | GET_PERF_CTR_VAL perfctr_val
  | SET_PERF_CTR_VAL perfctr_val
  | CALLONCE
  | TOGGLE_ENABLE_BITS "u32 option"
  | TOGGLE_DEBUG_BITS "u32 option"
  | RESET
  | UNDEFINED_CMD

fun kerninst_ioctl :: "'h kernel_env \<Rightarrow> ioctl \<Rightarrow> 'h driver \<Rightarrow> 'h ioctl_res" where
  "kerninst_ioctl ke (ALLOC_BLOCK a) d = ioctl_alloc_block ke a d"
| "kerninst_ioctl ke (FREE_BLOCK a) d = ioctl_free_block ke a d"
| "kerninst_ioctl ke (WRITE1INSN a bs n) d = ioctl_write1insn a bs n d"
| "kerninst_ioctl ke (WRUNDOABLE_REG ok a bs n h) d = ioctl_wrundoable ok a bs n h d"
| "kerninst_ioctl ke (UNDO_WR_REG a n bs) d = ioctl_undo_wr a n bs d"
| "kerninst_ioctl ke (CHG_UNDO_HOWSOON a h) d = ioctl_chg_howsoon a h d"
| "kerninst_ioctl ke VIRTUAL_TO_PHYSICAL_ADDR d = Some (0, NoOut, d)"
| "kerninst_ioctl ke (KNOWN_CALLEES_SIZE a) d = ioctl_known_callees_size a d"
| "kerninst_ioctl ke (KNOWN_CALLEES_GET ok a n) d = ioctl_known_callees_get ok a n d"
| "kerninst_ioctl ke GET_TICK_RAW d = ioctl_get_tick_raw ke d"
| "kerninst_ioctl ke GET_ALLVTIMERS_ADDR d = Some (0, OutWords [ke_av_addr ke], d)"
| "kerninst_ioctl ke (ADD_TO_ALLVTIMERS a) d = ioctl_add_to_allvtimers a d"
| "kerninst_ioctl ke (REMOVE_FROM_ALLVTIMERS a) d = ioctl_remove_from_allvtimers a d"
| "kerninst_ioctl ke CLEAR_CLIENT_STATE d = ioctl_clear_client_state d"
| "kerninst_ioctl ke (READ_HWC_ALL_CPUS ok ty n) d = ioctl_read_hwc_all_cpus ke ok ty n d"
| "kerninst_ioctl ke (REGISTER_TRAP_PATCH_MAPPING a p) d = ioctl_register_trap ke a p d"
| "kerninst_ioctl ke (UPDATE_TRAP_PATCH_MAPPING a p) d = ioctl_update_trap a p d"
| "kerninst_ioctl ke (UNREGISTER_TRAP_PATCH_MAPPING a) d = ioctl_unregister_trap a d"
| "kerninst_ioctl ke GET_PERF_CTR_STATE d = ioctl_get_perf_ctr_state ke d"
| "kerninst_ioctl ke (SET_PERF_CTR_STATE ps) d = ioctl_set_perf_ctr_state ke ps d"
| "kerninst_ioctl ke (GET_PERF_CTR_VAL v) d = ioctl_get_perf_ctr_val ke v d"
| "kerninst_ioctl ke (SET_PERF_CTR_VAL v) d = ioctl_set_perf_ctr_val ke v d"
| "kerninst_ioctl ke CALLONCE d = (let i = kerninst_call_once in Some (0, NoOut, d))"
| "kerninst_ioctl ke (TOGGLE_ENABLE_BITS f) d = ioctl_toggle_enable_bits f d"
| "kerninst_ioctl ke (TOGGLE_DEBUG_BITS f) d = ioctl_toggle_debug_bits f d"
| "kerninst_ioctl ke RESET d = ioctl_reset d"
| "kerninst_ioctl ke UNDEFINED_CMD d = Some (- ENOTTY, NoOut, d)"

definition ioctl_step :: "'h kernel_env \<Rightarrow> ioctl \<Rightarrow> 'h driver \<Rightarrow> 'h driver option" where
  "ioctl_step ke x d = map_option (\<lambda>r. snd (snd r)) (kerninst_ioctl ke x d)"

end
