(* ===== verification/DriverSession.thy ===== *)
theory DriverSession
  imports KerninstDriver
begin

text \<open>
  A whole connection to the driver: the device is opened, a client sends requests, the device is
  closed. The invariant of an open connection puts together the invariants of the components; the
  requests the daemon is allowed to send keep it, and closing the device uses it to show that the
  kernel is as it was before.
\<close>

section \<open>The invariant of an open connection\<close>

definition writes_ok :: "kmem \<Rightarrow> (kptr \<Rightarrow> nat) \<Rightarrow> kptr set \<Rightarrow> 'h driver \<Rightarrow> bool" where
  "writes_ok m0 lens A d \<longleftrightarrow> (\<exists>ws. global_loggedWrites d = Some (Some ws) \<and>
     lw_state_ok (kerninst_enable_bits d) m0 lens A (d_mem d, ws))"

definition allocs_ok :: "'h kernel_env \<Rightarrow> ('h \<Rightarrow> kptr set) \<Rightarrow> ('h \<Rightarrow> bool) \<Rightarrow> kptr set \<Rightarrow> 'h driver \<Rightarrow> bool" where
  "allocs_ok ke live hinv L0 d \<longleftrightarrow> kernel_heap (ke_kmalloc ke) (ke_kfree ke) live hinv \<and>
     lar_inv live hinv L0 (global_loggedAllocRequests d, d_heap d)"

definition timers_ok :: "'h driver \<Rightarrow> bool" where
  "timers_ok d \<longleftrightarrow> av_inv (av_vtimers (d_cs d)) \<and> num_elems (ht_vtimers (d_cs d)) = 0"

definition traps_idle :: "'h driver \<Rightarrow> bool" where
  "traps_idle d \<longleftrightarrow> \<not> int3_handler_installed (d_traps d) \<and> ht_inv (ht_traps (d_traps d)) \<and>
     ht_abs (ht_traps (d_traps d)) = Map.empty"

definition callees_ok :: "'h driver \<Rightarrow> bool" where
  "callees_ok d \<longleftrightarrow> (\<exists>ct xs. d_callees d = Some ct \<and> ct_rep ct xs)"

definition session_inv ::
  "'h kernel_env \<Rightarrow> ('h \<Rightarrow> kptr set) \<Rightarrow> ('h \<Rightarrow> bool) \<Rightarrow> kptr set \<Rightarrow> kmem \<Rightarrow> (kptr \<Rightarrow> nat) \<Rightarrow> kptr set \<Rightarrow>
     'h driver \<Rightarrow> bool" where
  "session_inv ke live hinv L0 m0 lens A d \<longleftrightarrow> in_use d = 1 \<and> 0 \<le> mod_use_count d \<and>
     writes_ok m0 lens A d \<and> allocs_ok ke live hinv L0 d \<and> timers_ok d \<and> traps_idle d \<and> callees_ok d"

text \<open>The requests of a disciplined client: undoable writes only, in non-overlapping places of a fixed
  length, alignments the kernel's allocator has, a buffer with a slot for every processor; no trap is
  registered and undoing stays enabled.\<close>

fun session_ok :: "'h kernel_env \<Rightarrow> (kptr \<Rightarrow> nat) \<Rightarrow> kptr set \<Rightarrow> ioctl \<Rightarrow> bool" where
  "session_ok ke lens A (ALLOC_BLOCK a) \<longleftrightarrow>
     lar_op_ok (ke_kmalloc ke) (AllocBlock (kas_nbytes a) (kas_requiredAlignment a) (kas_allocType a))"
| "session_ok ke lens A (WRITE1INSN a bs n) \<longleftrightarrow> False"
| "session_ok ke lens A (WRUNDOABLE_REG ok a bs n h) \<longleftrightarrow> ok \<and> a \<in> A \<and> lw_op_ok lens (PerformWrite a n bs h)"
| "session_ok ke lens A (UNDO_WR_REG a n bs) \<longleftrightarrow> n \<le> 16 \<and> a \<in> A \<and> lw_op_ok lens (UndoWrite a n bs)"
| "session_ok ke lens A (CHG_UNDO_HOWSOON a h) \<longleftrightarrow> a \<in> A"
| "session_ok ke lens A (ADD_TO_ALLVTIMERS a) \<longleftrightarrow> a \<noteq> Some 0"
| "session_ok ke lens A (READ_HWC_ALL_CPUS ok ty n) \<longleftrightarrow> ok \<and> 8 * ke_num_cpus ke \<le> unat (8 * n)"
| "session_ok ke lens A (REGISTER_TRAP_PATCH_MAPPING a p) \<longleftrightarrow> False"
| "session_ok ke lens A (TOGGLE_ENABLE_BITS f) \<longleftrightarrow>
     (case f of None \<Rightarrow> True | Some b \<Rightarrow> b AND KERNINST_ENABLE_UNDOMEMORY = 0)"
| "session_ok ke lens A _ \<longleftrightarrow> True"

section \<open>Every request keeps it\<close>

lemma undo_bit_kept:
  "(en XOR f) AND KERNINST_ENABLE_UNDOMEMORY = en AND KERNINST_ENABLE_UNDOMEMORY"
  if "f AND KERNINST_ENABLE_UNDOMEMORY = 0" for f :: u32
proof -
  have "(en XOR f) AND KERNINST_ENABLE_UNDOMEMORY =
      (en AND KERNINST_ENABLE_UNDOMEMORY) XOR (f AND KERNINST_ENABLE_UNDOMEMORY)"
    by (rule bit_word_eqI) (auto simp: bit_simps)
  then show ?thesis using that by simp
qed

lemma p4_bit_apart: "KERNINST_ENABLE_P4COUNTERS AND KERNINST_ENABLE_UNDOMEMORY = 0"
  by (simp add: KERNINST_ENABLE_P4COUNTERS_def KERNINST_ENABLE_UNDOMEMORY_def)

lemma lw_state_ok_xor:
  "f AND KERNINST_ENABLE_UNDOMEMORY = 0 \<Longrightarrow> lw_state_ok (en XOR f) m0 lens A s = lw_state_ok en m0 lens A s"
  by (simp add: lw_state_ok_def undo_bit_kept)

lemmas session_defs = writes_ok_def allocs_ok_def timers_ok_def traps_idle_def callees_ok_def

lemma session_alloc:
  assumes inv: "allocs_ok ke live hinv L0 d" and ok: "session_ok ke lens A (ALLOC_BLOCK a)"
  shows "\<exists>lar h. ioctl_step ke (ALLOC_BLOCK a) d = Some (d\<lparr>global_loggedAllocRequests := lar, d_heap := h\<rparr>) \<and>
    lar_inv live hinv L0 (lar, h)"
proof -
  let ?x = "AllocBlock (kas_nbytes a) (kas_requiredAlignment a) (kas_allocType a)"
  obtain lar h where "lar_step (ke_kmalloc ke) (ke_kfree ke) ?x (global_loggedAllocRequests d, d_heap d) = Some (lar, h)"
      "lar_inv live hinv L0 (lar, h)"
    using lar.progress [of "ke_kmalloc ke" ?x "ke_kfree ke" live hinv L0 "(global_loggedAllocRequests d, d_heap d)"]
      inv ok by (auto simp: allocs_ok_def)
  moreover obtain rs where "global_loggedAllocRequests d = Some (Some rs)" using inv by (auto simp: allocs_ok_def lar_inv_def)
  ultimately show ?thesis
    by (auto simp: ioctl_step_def ioctl_alloc_block_def kerninst_alloc_block_def intro!: exI [of _ lar] exI [of _ h]
        split: option.splits)
qed

lemma session_free:
  assumes inv: "allocs_ok ke live hinv L0 d"
  shows "\<exists>lar h. ioctl_step ke (FREE_BLOCK a) d = Some (d\<lparr>global_loggedAllocRequests := lar, d_heap := h\<rparr>) \<and>
    lar_inv live hinv L0 (lar, h)"
proof -
  let ?x = "FreeBlock (kfs_kernelAddr a) (kfs_mappedKernelAddr a) (kfs_nbytes a)"
  obtain lar h where "lar_step (ke_kmalloc ke) (ke_kfree ke) ?x (global_loggedAllocRequests d, d_heap d) = Some (lar, h)"
      "lar_inv live hinv L0 (lar, h)"
    using lar.progress [of "ke_kmalloc ke" ?x "ke_kfree ke" live hinv L0 "(global_loggedAllocRequests d, d_heap d)"]
      inv by (auto simp: allocs_ok_def)
  moreover obtain rs where "global_loggedAllocRequests d = Some (Some rs)" using inv by (auto simp: allocs_ok_def lar_inv_def)
  ultimately show ?thesis
    by (auto simp: ioctl_step_def ioctl_free_block_def kerninst_free_block_def Let_def split: prod.splits option.splits)
qed

lemma session_write:
  assumes inv: "writes_ok m0 lens A d" and x: "lw_op_addr x \<in> A" "lw_op_ok lens x"
  shows "\<exists>ws m' ws'. global_loggedWrites d = Some (Some ws) \<and>
    lw_step (kerninst_enable_bits d) x (d_mem d, ws) = Some (m', ws') \<and>
    lw_state_ok (kerninst_enable_bits d) m0 lens A (m', ws')"
proof -
  obtain ws where ws: "global_loggedWrites d = Some (Some ws)"
      "lw_state_ok (kerninst_enable_bits d) m0 lens A (d_mem d, ws)"
    using inv by (auto simp: writes_ok_def)
  then show ?thesis
    using lw.progress [of x A lens "kerninst_enable_bits d" m0 "(d_mem d, ws)"] x by auto
qed

lemma session_callees:
  assumes "callees_ok d"
  shows "ioctl_step ke (KNOWN_CALLEES_SIZE a) d = Some d"
    and "ioctl_step ke (KNOWN_CALLEES_GET ok a n) d = Some d"
proof -
  obtain ct xs where ct: "d_callees d = Some ct" "ct_rep ct xs" using assms by (auto simp: callees_ok_def)
  note num = num_callees_eq [OF ct(2), of a] and len = length_site_cells [OF ct(2), of a]
  show "ioctl_step ke (KNOWN_CALLEES_SIZE a) d = Some d"
    using ct num by (simp add: ioctl_step_def ioctl_known_callees_size_def)
  let ?k = "length (site_cells ct a)"
  have "set (site_cells ct a) \<subseteq> {..<NUM_TOTAL}"
    using ct(2) by (auto simp: site_cells_def bin_cells_def ct_rep_def)
  moreover have "distinct (site_cells ct a)" by (simp add: site_cells_def bin_cells_def)
  ultimately have k: "?k \<le> 8192"
    using card_mono [of "{..<NUM_TOTAL}" "set (site_cells ct a)"] distinct_card [of "site_cells ct a"]
    by (simp add: NUM_TOTAL_def)
  have "kerninst_get_callees_for_site ct a (of_nat ?k) =
      Some (concat (map (\<lambda>i. [callee_addr (htable ct i), call_count (htable ct i)]) (site_cells ct a)))"
    by (rule get_callees_cells [OF ct(2)]) (use k in \<open>simp_all add: unat_of_nat\<close>)
  moreover have "length (concat (map (\<lambda>i. [callee_addr (htable ct i), call_count (htable ct i)]) is)) = 2 * length is" for "is"
    by (induction "is") auto
  moreover have "unat (2 * of_nat ?k * 4 :: u32) = 8 * ?k"
    using k by (simp add: unat_word_ariths unat_of_nat)
  ultimately show "ioctl_step ke (KNOWN_CALLEES_GET ok a n) d = Some d"
    using ct num by (auto simp: ioctl_step_def ioctl_known_callees_get_def)
qed

lemma session_logged_write:
  assumes inv: "writes_ok m0 lens A d"
    and ok: "session_ok ke lens A (WRUNDOABLE_REG ok a bs n h)"
  shows "\<exists>m ws. ioctl_step ke (WRUNDOABLE_REG ok a bs n h) d = Some (d\<lparr>d_mem := m, global_loggedWrites := Some (Some ws)\<rparr>) \<and>
    lw_state_ok (kerninst_enable_bits d) m0 lens A (m, ws)"
proof -
  let ?x = "PerformWrite a n bs h"
  obtain ws m' ws' where "global_loggedWrites d = Some (Some ws)"
    "lw_step (kerninst_enable_bits d) ?x (d_mem d, ws) = Some (m', ws')"
    "lw_state_ok (kerninst_enable_bits d) m0 lens A (m', ws')"
    using session_write [OF inv, of ?x] ok by auto
  then show ?thesis using ok by (auto simp: ioctl_step_def ioctl_wrundoable_def intro!: exI [of _ m'] exI [of _ ws'])
qed

lemma session_logged_undo:
  assumes inv: "writes_ok m0 lens A d" and ok: "session_ok ke lens A (UNDO_WR_REG a n bs)"
  shows "\<exists>m ws. ioctl_step ke (UNDO_WR_REG a n bs) d = Some (d\<lparr>d_mem := m, global_loggedWrites := Some (Some ws)\<rparr>) \<and>
    lw_state_ok (kerninst_enable_bits d) m0 lens A (m, ws)"
proof -
  let ?x = "UndoWrite a n bs"
  obtain ws m' ws' where "global_loggedWrites d = Some (Some ws)"
    "lw_step (kerninst_enable_bits d) ?x (d_mem d, ws) = Some (m', ws')"
    "lw_state_ok (kerninst_enable_bits d) m0 lens A (m', ws')"
    using session_write [OF inv, of ?x] ok by auto
  then show ?thesis using ok by (auto simp: ioctl_step_def ioctl_undo_wr_def intro!: exI [of _ m'] exI [of _ ws'])
qed

lemma session_logged_change:
  assumes inv: "writes_ok m0 lens A d" and ok: "session_ok ke lens A (CHG_UNDO_HOWSOON a h)"
  shows "\<exists>ws. ioctl_step ke (CHG_UNDO_HOWSOON a h) d = Some (d\<lparr>global_loggedWrites := Some (Some ws)\<rparr>) \<and>
    lw_state_ok (kerninst_enable_bits d) m0 lens A (d_mem d, ws)"
proof -
  let ?x = "ChangeHowSoon a h"
  obtain ws m' ws' where "global_loggedWrites d = Some (Some ws)"
    "lw_step (kerninst_enable_bits d) ?x (d_mem d, ws) = Some (m', ws')"
    "lw_state_ok (kerninst_enable_bits d) m0 lens A (m', ws')"
    using session_write [OF inv, of ?x] ok by auto
  then show ?thesis using ok
    by (auto simp: ioctl_step_def ioctl_chg_howsoon_def Let_def split: prod.splits intro!: exI [of _ ws'])
qed

lemma session_timers:
  assumes inv: "timers_ok d"
  shows "a \<noteq> Some 0 \<Longrightarrow> \<exists>cs. ioctl_step ke (ADD_TO_ALLVTIMERS a) d = Some (d\<lparr>d_cs := cs\<rparr>) \<and> timers_ok (d\<lparr>d_cs := cs\<rparr>)"
    and "\<exists>cs. ioctl_step ke (REMOVE_FROM_ALLVTIMERS a) d = Some (d\<lparr>d_cs := cs\<rparr>) \<and> timers_ok (d\<lparr>d_cs := cs\<rparr>)"
proof -
  let ?av = "av_vtimers (d_cs d)" and ?sl = "sl_heap (d_cs d)"
  have av: "av_inv ?av" and n: "num_elems (ht_vtimers (d_cs d)) = 0" using inv by (auto simp: timers_ok_def)
  have id: "d\<lparr>d_cs := d_cs d\<rparr> = d" by simp
  show "\<exists>cs. ioctl_step ke (ADD_TO_ALLVTIMERS a) d = Some (d\<lparr>d_cs := cs\<rparr>) \<and> timers_ok (d\<lparr>d_cs := cs\<rparr>)" if nz: "a \<noteq> Some 0"
  proof (cases a)
    case None
    then show ?thesis using inv id by (auto simp: ioctl_step_def ioctl_add_to_allvtimers_def intro!: exI [of _ "d_cs d"])
  next
    case (Some v)
    obtain r av' where "addto_all_vtimers ?av v = Some (r, av')" "av_inv av'"
      using addto_spec [OF av, of v] nz Some by auto
    then show ?thesis using Some n by (auto simp: ioctl_step_def ioctl_add_to_allvtimers_def timers_ok_def)
  qed
  show "\<exists>cs. ioctl_step ke (REMOVE_FROM_ALLVTIMERS a) d = Some (d\<lparr>d_cs := cs\<rparr>) \<and> timers_ok (d\<lparr>d_cs := cs\<rparr>)"
  proof (cases a)
    case None
    then show ?thesis using inv id by (auto simp: ioctl_step_def ioctl_remove_from_allvtimers_def intro!: exI [of _ "d_cs d"])
  next
    case (Some v)
    have "removefrom_hashtable (ht_vtimers (d_cs d)) v ?sl = Some ?sl" using n by (simp add: removefrom_hashtable_def)
    from removefrom_spec [OF av this] obtain av' where
      rm: "removefrom_all_vtimers ?av (ht_vtimers (d_cs d)) ?sl v =
        Some (if v \<in> set (av_list ?av) then (0, av', ?sl) else (-1, ?av, ?sl))"
      and av': "v \<in> set (av_list ?av) \<longrightarrow> av_inv av'" by blast
    show ?thesis
    proof (cases "v \<in> set (av_list ?av)")
      case True
      then show ?thesis using Some n rm av' by (auto simp: ioctl_step_def ioctl_remove_from_allvtimers_def timers_ok_def)
    next
      case False
      then show ?thesis using Some n rm av
        by (auto simp: ioctl_step_def ioctl_remove_from_allvtimers_def timers_ok_def intro!: exI [of _ "d_cs d"])
    qed
  qed
qed

lemma session_traps:
  assumes "traps_idle d"
  shows "\<exists>t. ioctl_step ke (UPDATE_TRAP_PATCH_MAPPING a p) d = Some (d\<lparr>d_traps := t\<rparr>) \<and> traps_idle (d\<lparr>d_traps := t\<rparr>)"
    and "\<exists>t. ioctl_step ke (UNREGISTER_TRAP_PATCH_MAPPING a) d = Some (d\<lparr>d_traps := t\<rparr>) \<and> traps_idle (d\<lparr>d_traps := t\<rparr>)"
proof -
  let ?ht = "ht_traps (d_traps d)"
  have t: "\<not> int3_handler_installed (d_traps d)" "ht_inv ?ht" "ht_abs ?ht = Map.empty"
    using assms by (auto simp: traps_idle_def)
  obtain ht1 where "hash_table_update ?ht a (as_ptr p) = Some (-1, ht1)" "ht_inv ht1" "ht_abs ht1 = Map.empty"
    using update_spec [OF t(2), of a "as_ptr p"] t(3) by auto
  then show "\<exists>t. ioctl_step ke (UPDATE_TRAP_PATCH_MAPPING a p) d = Some (d\<lparr>d_traps := t\<rparr>) \<and> traps_idle (d\<lparr>d_traps := t\<rparr>)"
    using t by (auto simp: ioctl_step_def ioctl_update_trap_def update_trap_mapping_def traps_idle_def)
  obtain ht2 where "hash_table_remove ?ht a = Some (None, ht2)" "ht_inv ht2" "ht_abs ht2 = Map.empty"
    using remove_spec [OF t(2), of a] t(3) by auto
  then show "\<exists>t. ioctl_step ke (UNREGISTER_TRAP_PATCH_MAPPING a) d = Some (d\<lparr>d_traps := t\<rparr>) \<and> traps_idle (d\<lparr>d_traps := t\<rparr>)"
    using t by (auto simp: ioctl_step_def ioctl_unregister_trap_def uninstall_trap_mapping_def traps_idle_def
        intro!: exI [of _ "(d_traps d)\<lparr>ht_traps := ht2\<rparr>"])
qed

lemma session_clear:
  assumes "session_inv ke live hinv L0 m0 lens A d"
  shows "\<exists>d'. ioctl_step ke CLEAR_CLIENT_STATE d = Some d' \<and> session_inv ke live hinv L0 m0 lens A d'"
proof -
  have n: "num_elems (hash_table_initialize h) = 0" for h :: "nat hash_table"
    by (simp add: hash_table_initialize_def)
  show ?thesis using assms
    by (simp add: ioctl_step_def ioctl_clear_client_state_def destroy_structures_def Let_def session_inv_def
        session_defs hash_table_destroy_def av_init init_inv init_abs n)
qed

lemma session_inv_msrs [simp]: "session_inv ke live hinv L0 m0 lens A (d\<lparr>d_msrs := ms\<rparr>) = session_inv ke live hinv L0 m0 lens A d"
  by (simp add: session_inv_def session_defs)

lemma session_inv_bits:
  assumes "session_inv ke live hinv L0 m0 lens A d" and "f AND KERNINST_ENABLE_UNDOMEMORY = 0"
  shows "session_inv ke live hinv L0 m0 lens A (d\<lparr>kerninst_enable_bits := kerninst_enable_bits d XOR f\<rparr>)"
  using assms by (auto simp: session_inv_def session_defs lw_state_ok_xor)

lemma session_inv_disable:
  "session_inv ke live hinv L0 m0 lens A d \<Longrightarrow> session_inv ke live hinv L0 m0 lens A (disable_on_error rv d)"
  by (auto simp: disable_on_error_def intro: session_inv_bits p4_bit_apart)

lemma session_perf:
  assumes "session_inv ke live hinv L0 m0 lens A d"
  shows "\<exists>d'. ioctl_step ke (SET_PERF_CTR_STATE ps) d = Some d' \<and> session_inv ke live hinv L0 m0 lens A d'"
    and "\<exists>d'. ioctl_step ke (SET_PERF_CTR_VAL v) d = Some d' \<and> session_inv ke live hinv L0 m0 lens A d'"
  using assms
  by (simp_all add: ioctl_step_def ioctl_set_perf_ctr_state_def ioctl_set_perf_ctr_val_def Let_def session_inv_disable
      split: prod.splits)

lemma session_step:
  assumes ok: "session_ok ke lens A x" and inv: "session_inv ke live hinv L0 m0 lens A d"
  shows "\<exists>d'. ioctl_step ke x d = Some d' \<and> session_inv ke live hinv L0 m0 lens A d'"
proof -
  have w: "writes_ok m0 lens A d" and al: "allocs_ok ke live hinv L0 d" and ti: "timers_ok d" and tr: "traps_idle d"
    and ca: "callees_ok d" and use: "in_use d = 1" "0 \<le> mod_use_count d"
    using inv by (auto simp: session_inv_def)
  note rest = w al ti tr ca use
  show ?thesis
  proof (cases x)
    case (ALLOC_BLOCK a)
    then show ?thesis using session_alloc [OF al, of lens A a] ok rest by (auto simp: session_inv_def session_defs)
  next
    case (FREE_BLOCK a)
    then show ?thesis using session_free [OF al, of a] rest by (auto simp: session_inv_def session_defs)
  next
    case (WRUNDOABLE_REG al_ok a bs n h)
    then show ?thesis using session_logged_write [OF w, of ke al_ok a bs n h] ok rest
      by (auto simp: session_inv_def session_defs)
  next
    case (UNDO_WR_REG a n bs)
    then show ?thesis using session_logged_undo [OF w, of ke a n bs] ok rest by (auto simp: session_inv_def session_defs)
  next
    case (CHG_UNDO_HOWSOON a h)
    then show ?thesis using session_logged_change [OF w, of ke a h] ok rest by (auto simp: session_inv_def session_defs)
  next
    case (KNOWN_CALLEES_SIZE a)
    then show ?thesis using session_callees(1) [OF ca] inv by simp
  next
    case (KNOWN_CALLEES_GET al_ok a n)
    then show ?thesis using session_callees(2) [OF ca] inv by simp
  next
    case (ADD_TO_ALLVTIMERS a)
    then show ?thesis using session_timers(1) [OF ti, of a ke] ok rest by (auto simp: session_inv_def session_defs)
  next
    case (REMOVE_FROM_ALLVTIMERS a)
    then show ?thesis using session_timers(2) [OF ti, of ke a] rest by (auto simp: session_inv_def session_defs)
  next
    case CLEAR_CLIENT_STATE
    then show ?thesis using session_clear [OF inv] by simp
  next
    case (UPDATE_TRAP_PATCH_MAPPING a p)
    then show ?thesis using session_traps(1) [OF tr, of ke a p] rest by (auto simp: session_inv_def session_defs)
  next
    case (UNREGISTER_TRAP_PATCH_MAPPING a)
    then show ?thesis using session_traps(2) [OF tr, of ke a] rest by (auto simp: session_inv_def session_defs)
  next
    case (SET_PERF_CTR_STATE ps)
    then show ?thesis using session_perf(1) [OF inv] by simp
  next
    case (SET_PERF_CTR_VAL v)
    then show ?thesis using session_perf(2) [OF inv] by simp
  next
    case (TOGGLE_ENABLE_BITS f)
    then show ?thesis using session_inv_bits [OF inv] inv ok
      by (cases f) (simp_all add: ioctl_step_def ioctl_toggle_enable_bits_def)
  next
    case (TOGGLE_DEBUG_BITS f)
    then show ?thesis using inv
      by (cases f) (auto simp: ioctl_step_def ioctl_toggle_debug_bits_def session_inv_def session_defs)
  next
    case RESET
    then show ?thesis using rest by (auto simp: ioctl_step_def ioctl_reset_def session_inv_def session_defs)
  qed (use ok inv in \<open>simp_all add: ioctl_step_def ioctl_get_tick_raw_def ioctl_read_hwc_all_cpus_def
      ioctl_get_perf_ctr_state_def ioctl_get_perf_ctr_val_def Let_def\<close>)
qed

text \<open>The open device as a component: a disciplined request never faults and keeps the invariant.\<close>

interpretation dr: guarded_machine "ioctl_step ke" "session_ok ke lens A" "session_inv ke live hinv L0 m0 lens A"
  for ke lens A live hinv L0 m0
  by unfold_locales (rule session_step)

section \<open>Opening and closing\<close>

lemma zero_counters_bits:
  "\<exists>ms en. clear_perfctr_state ke d = d\<lparr>d_msrs := ms, kerninst_enable_bits := en\<rparr> \<and>
    (en = kerninst_enable_bits d \<or> en = kerninst_enable_bits d XOR KERNINST_ENABLE_P4COUNTERS)"
proof (cases "kerninst_enable_bits d AND KERNINST_ENABLE_P4COUNTERS = 0")
  case True
  then have "clear_perfctr_state ke d = d\<lparr>d_msrs := d_msrs d, kerninst_enable_bits := kerninst_enable_bits d\<rparr>"
    by (simp add: clear_perfctr_state_def)
  then show ?thesis by blast
next
  case False
  obtain rv ms where 1: "ke_on_each_cpu ke (\<lambda>c. set_machine_state (ke_edx ke c) reset_perfctr_state) (d_msrs d) = (rv, ms)"
    by fastforce
  obtain rv' ms' where 2: "(if rv = 0 then zero_counters ke [0..<NUM_COUNTERS] ms else (rv, ms)) = (rv', ms')"
    by fastforce
  let ?en = "if rv' \<noteq> 0 then kerninst_enable_bits d XOR KERNINST_ENABLE_P4COUNTERS else kerninst_enable_bits d"
  have "clear_perfctr_state ke d = d\<lparr>d_msrs := ms', kerninst_enable_bits := ?en\<rparr>"
    unfolding clear_perfctr_state_def using False 1 2 by (simp only: Let_def split if_True simp_thms)
  moreover have "?en = kerninst_enable_bits d \<or> ?en = kerninst_enable_bits d XOR KERNINST_ENABLE_P4COUNTERS" by simp
  ultimately show ?thesis by blast
qed

lemma session_inv_clear_perf:
  assumes "session_inv ke live hinv L0 m0 lens A d"
  shows "session_inv ke live hinv L0 m0 lens A (clear_perfctr_state ke d)"
proof -
  obtain ms en where c: "clear_perfctr_state ke d = d\<lparr>d_msrs := ms, kerninst_enable_bits := en\<rparr>"
    and en: "en = kerninst_enable_bits d \<or> en = kerninst_enable_bits d XOR KERNINST_ENABLE_P4COUNTERS"
    using zero_counters_bits by blast
  have "session_inv ke live hinv L0 m0 lens A (d\<lparr>kerninst_enable_bits := en\<rparr>)"
    using en session_inv_bits [OF assms p4_bit_apart] assms by auto
  then show ?thesis by (simp add: c session_inv_def session_defs)
qed

lemma clear_perf_keeps [simp]:
  "d_mem (clear_perfctr_state ke d) = d_mem d" "d_heap (clear_perfctr_state ke d) = d_heap d"
  "in_use (clear_perfctr_state ke d) = in_use d" "mod_use_count (clear_perfctr_state ke d) = mod_use_count d"
  "d_traps (clear_perfctr_state ke d) = d_traps d" "global_loggedWrites (clear_perfctr_state ke d) = global_loggedWrites d"
  using zero_counters_bits [of ke d] by auto

lemma open_session:
  assumes "kernel_heap (ke_kmalloc ke) (ke_kfree ke) live hinv" and "hinv (d_heap d)"
    and "in_use d = 0" and "0 \<le> mod_use_count d" and "d_callees d \<noteq> None"
    and "\<not> int3_handler_installed (d_traps d)" and "kerninst_enable_bits d AND KERNINST_ENABLE_UNDOMEMORY \<noteq> 0"
    and "lw_layout lens A"
  shows "\<exists>d'. kerninst_open ke (True, True) (True, True) d = Some (0, d') \<and>
    session_inv ke live hinv (live (d_heap d)) (d_mem d) lens A d'"
proof -
  obtain ct where ct: "d_callees d = Some ct" using assms(5) by auto
  have n: "num_elems (hash_table_initialize h) = 0" for h :: "nat hash_table"
    by (simp add: hash_table_initialize_def)
  have "session_inv ke live hinv (live (d_heap d)) (d_mem d) lens A
    (d\<lparr>in_use := 1, mod_use_count := mod_use_count d + 1, d_callees := Some (kerninst_reset_callee_counter ct),
       d_cs := (d_cs d)\<lparr>av_vtimers := initialize_all_vtimers (av_vtimers (d_cs d)),
                        sl_heap := stacklist_initialize (sl_heap (d_cs d)),
                        ht_vtimers := hash_table_initialize (ht_vtimers (d_cs d))\<rparr>,
       d_traps := (d_traps d)\<lparr>ht_traps := hash_table_initialize (ht_traps (d_traps d))\<rparr>,
       global_loggedAllocRequests := Some (Some []), global_loggedWrites := Some (Some [])\<rparr>)"
    using assms reset_rep [of ct]
    by (auto simp: session_inv_def session_defs lw_state_ok_def lw_inv_init lw_sized_def lar_inv_init av_init n
        init_inv init_abs)
  then show ?thesis using assms(3) ct session_inv_clear_perf
    by (simp add: kerninst_open_def initialize_logged_allocRequests_def initialize_logged_writes_def)
qed

lemma release_session:
  assumes "session_inv ke live hinv L0 m0 lens A d"
  shows "\<exists>d'. kerninst_release ke d = Some (0, d') \<and> d_mem d' = m0 \<and> live (d_heap d') = L0 \<and> in_use d' = 0"
proof -
  obtain ws where ws: "global_loggedWrites d = Some (Some ws)" and
      ok: "lw_state_ok (kerninst_enable_bits d) m0 lens A (d_mem d, ws)"
    using assms by (auto simp: session_inv_def writes_ok_def)
  have "destroy_logged_writes (kerninst_enable_bits d) (Some (Some ws)) (d_mem d) = Some m0"
    using ok by (intro destroy_restores) (auto simp: lw_state_ok_def)
  moreover have "live (destroy_logged_allocRequests (ke_kfree ke) (global_loggedAllocRequests d) (d_heap d)) = L0"
    using assms destroy_frees [of "ke_kmalloc ke" "ke_kfree ke" live hinv L0] by (auto simp: session_inv_def allocs_ok_def)
  ultimately show ?thesis using assms ws
    by (simp add: kerninst_release_def destroy_structures_def restore_int3_def session_inv_def traps_idle_def Let_def)
qed


text \<open>A machine with two processors and a kernel whose allocator has two blocks.\<close>

definition demo_env :: "kptr set kernel_env" where
  "demo_env = \<lparr>ke_kmalloc = two_block_malloc, ke_kfree = two_block_free,
     ke_on_each_cpu = (\<lambda>f ms. (0, \<lambda>c. f c (ms c))), ke_edx = (\<lambda>_ _. 0), ke_tsc = (\<lambda>_. (1, 0)), ke_num_cpus = 2,
     ke_cpu = 0, ke_p4 = True, ke_int3_desc = (0x00609000, 0xC0108E00), ke_handler = 0xD0801234, ke_av_addr = 0xD0810000\<rparr>"

definition demo_driver :: "kptr set driver" where
  "demo_driver = \<lparr>in_use = 0, mod_use_count = 0, kerninst_enable_bits = 0x1ffff, kerninst_debug_bits = 0,
     d_callees = Some demo_table, d_cs = demo_state,
     d_traps = \<lparr>ht_traps = ht_zeroed, num_traps_installed = 0, do_int3_addr = 0xC0109500,
       int3_handler_addr = 0xC0109000, int3_handler_installed = False\<rparr>,
     d_mem = (\<lambda>_. 0x90), d_heap = {}, global_loggedAllocRequests = None, global_loggedWrites = None,
     d_msrs = (\<lambda>_ _. (3, 0))\<rparr>"


section \<open>Performance counters are stopped\<close>

lemma zero_counters_all:
  assumes "\<And>f ms. ke_on_each_cpu ke f ms = (0, \<lambda>c. f c (ms c))" and "set is \<subseteq> {..<NUM_COUNTERS}"
  shows "\<exists>ms'. zero_counters ke is ms = (0, ms') \<and>
    (\<forall>c. retrieve_machine_state (ms' c) = retrieve_machine_state (ms c)) \<and>
    (\<forall>c a. ms' c a = (if a \<in> (\<lambda>i. COUNTER_ADDR (of_nat i)) ` set is then (0, 0) else ms c a))"
  using assms(2)
proof (induction "is" arbitrary: ms)
  case (Cons i "is")
  let ?v = "\<lparr>pv_ctr = COUNTER_ADDR (of_nat i), pv_low = 0, pv_high = 0\<rparr>"
  have i: "i < NUM_COUNTERS" using Cons.prems by simp
  obtain ms' where ms': "zero_counters ke is (\<lambda>c. set_perfctr_value ?v (ms c)) = (0, ms')"
    "\<forall>c. retrieve_machine_state (ms' c) = retrieve_machine_state (set_perfctr_value ?v (ms c))"
    "\<forall>c a. ms' c a = (if a \<in> (\<lambda>i. COUNTER_ADDR (of_nat i)) ` set is then (0, 0) else set_perfctr_value ?v (ms c) a)"
    using Cons by fastforce
  have "zero_counters ke (i # is) ms = (0, ms')" using ms'(1) by (simp add: assms(1))
  moreover have "retrieve_machine_state (ms' c) = retrieve_machine_state (ms c)" for c
    using ms'(2) retrieve_set_counter [OF i, of ?v] by simp
  moreover have "ms' c a = (if a \<in> (\<lambda>i. COUNTER_ADDR (of_nat i)) ` set (i # is) then (0, 0) else ms c a)" for c a
    using ms'(3) by (simp add: set_perfctr_value_def)
  ultimately show ?case by blast
qed simp

lemma clear_perf_all:
  assumes "\<And>f ms. ke_on_each_cpu ke f ms = (0, \<lambda>c. f c (ms c))"
    and "kerninst_enable_bits d AND KERNINST_ENABLE_P4COUNTERS \<noteq> 0"
  shows "retrieve_machine_state (d_msrs (clear_perfctr_state ke d) c) = reset_perfctr_state \<and>
    (i < NUM_COUNTERS \<longrightarrow> d_msrs (clear_perfctr_state ke d) c (COUNTER_ADDR (of_nat i)) = (0, 0)) \<and>
    kerninst_enable_bits (clear_perfctr_state ke d) = kerninst_enable_bits d"
proof -
  let ?ms = "\<lambda>c. set_machine_state (ke_edx ke c) reset_perfctr_state (d_msrs d c)"
  have sub: "set [0..<NUM_COUNTERS] \<subseteq> {..<NUM_COUNTERS}" by auto
  from zero_counters_all [OF assms(1) sub, of ?ms]
  obtain ms' where ms': "zero_counters ke [0..<NUM_COUNTERS] ?ms = (0, ms')"
    "\<forall>c. retrieve_machine_state (ms' c) = retrieve_machine_state (?ms c)"
    "\<forall>c a. ms' c a = (if a \<in> (\<lambda>i. COUNTER_ADDR (of_nat i)) ` set [0..<NUM_COUNTERS] then (0, 0) else ?ms c a)"
    by blast
  then show ?thesis using assms
    by (simp add: clear_perfctr_state_def set_then_retrieve [OF ps_ok_reset])
qed

text \<open>
  closing the device stops the performance counters. When the kernel runs a function on every
  processor as asked, then after closing no counter of any processor is enabled, the event selections
  are cleared and all counters are zero, whatever the client had programmed.
\<close>

theorem release_stops_counters:
  assumes "\<And>f ms. ke_on_each_cpu ke f ms = (0, \<lambda>c. f c (ms c))"
    and "kerninst_enable_bits d AND KERNINST_ENABLE_P4COUNTERS \<noteq> 0" and "kerninst_release ke d = Some (r, d')"
  shows "\<forall>c. retrieve_machine_state (d_msrs d' c) = reset_perfctr_state \<and>
    (\<forall>i < NUM_COUNTERS. d_msrs d' c (COUNTER_ADDR (of_nat i)) = (0, 0))"
proof -
  obtain m where d': "d' = restore_int3 (clear_perfctr_state ke
      ((destroy_structures (d\<lparr>in_use := in_use d - 1, mod_use_count := mod_use_count d - 1\<rparr>))\<lparr>d_mem := m,
        d_heap := destroy_logged_allocRequests (ke_kfree ke) (global_loggedAllocRequests d) (d_heap d)\<rparr>))"
    using assms(3) by (auto simp: kerninst_release_def destroy_structures_def Let_def split: option.splits)
  have keep: "d_msrs (restore_int3 s) = d_msrs s" for s :: "'a driver" by (simp add: restore_int3_def)
  show ?thesis unfolding d' keep
    using clear_perf_all [OF assms(1)] assms(2) by (simp add: destroy_structures_def)
qed

theorem release_stops_counters_witness:
  "\<exists>d'. kerninst_release demo_env (demo_driver\<lparr>d_msrs := \<lambda>_ _. (0x1000, 9)\<rparr>) = Some (0, d') \<and>
    retrieve_machine_state (d_msrs d' 1) = reset_perfctr_state \<and> d_msrs d' 1 (COUNTER_ADDR (of_nat 12)) = (0, 0)"
proof -
  let ?d = "demo_driver\<lparr>d_msrs := \<lambda>_ _. (0x1000, 9)\<rparr>"
  obtain d' where d': "kerninst_release demo_env ?d = Some (0, d')"
    by (simp add: kerninst_release_def destroy_structures_def destroy_logged_writes_def demo_driver_def Let_def)
  have "\<forall>c. retrieve_machine_state (d_msrs d' c) = reset_perfctr_state \<and>
      (\<forall>i < NUM_COUNTERS. d_msrs d' c (COUNTER_ADDR (of_nat i)) = (0, 0))"
    by (rule release_stops_counters [OF _ _ d'])
      (simp_all add: demo_env_def demo_driver_def KERNINST_ENABLE_P4COUNTERS_def)
  then have "retrieve_machine_state (d_msrs d' 1) = reset_perfctr_state"
    "\<forall>i < NUM_COUNTERS. d_msrs d' 1 (COUNTER_ADDR (of_nat i)) = (0, 0)" by blast+
  moreover from this(2) have "d_msrs d' 1 (COUNTER_ADDR (of_nat 12)) = (0, 0)"
    by (rule allE [of _ 12]) (simp add: NUM_COUNTERS_def)
  ultimately show ?thesis using d' by blast
qed

section \<open>The breakpoint handler stays behind\<close>

text \<open>
  registering a trap redirects the kernel's int3 entry to the module, and neither closing the
  device nor unloading the module undoes it: the flag that says so is never set. After unloading, the
  entry code still calls the address of the module's handler.
\<close>

theorem int3_hook_survives_unload:
  assumes "session_inv ke live hinv L0 m0 lens A d" and "global_loggedWrites d = Some (Some [])"
    and "ke_handler ke \<noteq> 0"
  shows "\<exists>d1 d2. kerninst_ioctl ke (REGISTER_TRAP_PATCH_MAPPING a p) d = Some (0, NoOut, d1) \<and>
    kerninst_release ke d1 = Some (0, d2) \<and>
    un_le32 (read_bytes (d_mem (cleanup_kerninst d2)) (int3_handler_addr (d_traps d) + 3) 4) = ke_handler ke"
proof -
  let ?ht = "ht_traps (d_traps d)" and ?m = "write_bytes (d_mem d) (int3_handler_addr (d_traps d) + 3) (le32 (ke_handler ke))"
  have t: "\<not> int3_handler_installed (d_traps d)" "ht_inv ?ht" "ht_abs ?ht = Map.empty"
    using assms(1) by (auto simp: session_inv_def traps_idle_def)
  have n: "num_elems ?ht = 0"
  proof (rule ccontr)
    assume "num_elems ?ht \<noteq> 0"
    then have "ht_elem ?ht (ht_key ?ht 0) \<noteq> None" by (auto simp: ht_elem_def find_None_iff)
    then show False using t(3) by (auto simp: ht_abs_def fun_eq_iff)
  qed
  then obtain ht' where ht': "hash_table_add ?ht (as_ptr p) a = Some (0, ht')"
    using add_packed_spec [OF t(2), of "as_ptr p" a] t(3)
    by (auto simp: hash_table_add_def ht_max_num_elems_def spec_add_def)
  let ?t = "(d_traps d)\<lparr>int3_handler_installed := False, ht_traps := ht', num_traps_installed := num_traps_installed (d_traps d) + 1\<rparr>"
  have 1: "kerninst_ioctl ke (REGISTER_TRAP_PATCH_MAPPING a p) d = Some (0, NoOut, d\<lparr>d_mem := ?m, d_traps := ?t\<rparr>)"
    using t(1) ht' assms(3) by (simp add: ioctl_register_trap_def install_trap_mapping_def set_int3_handler_def Let_def)
  have "\<exists>d2. kerninst_release ke (d\<lparr>d_mem := ?m, d_traps := ?t\<rparr>) = Some (0, d2) \<and> d_mem d2 = ?m \<and>
      \<not> int3_handler_installed (d_traps d2)"
    using assms(2) by (simp add: kerninst_release_def destroy_structures_def destroy_logged_writes_def restore_int3_def Let_def)
  then obtain d2 where 2: "kerninst_release ke (d\<lparr>d_mem := ?m, d_traps := ?t\<rparr>) = Some (0, d2)" "d_mem d2 = ?m"
      "\<not> int3_handler_installed (d_traps d2)" by blast
  have "read_bytes ?m (int3_handler_addr (d_traps d) + 3) 4 = le32 (ke_handler ke)"
    using read_write_same [of "le32 (ke_handler ke)"] by simp
  then show ?thesis using 1 2 by (simp add: cleanup_kerninst_def)
qed

theorem int3_hook_survives_unload_witness:
  "\<exists>d0 d1 d2. kerninst_open demo_env (True, True) (True, True) demo_driver = Some (0, d0) \<and>
    kerninst_ioctl demo_env (REGISTER_TRAP_PATCH_MAPPING 0xC0200000 0xC8800000) d0 = Some (0, NoOut, d1) \<and>
    kerninst_release demo_env d1 = Some (0, d2) \<and>
    un_le32 (read_bytes (d_mem (cleanup_kerninst d2)) (int3_handler_addr (d_traps d0) + 3) 4) = 0xD0801234"
proof -
  have heap: "kernel_heap (ke_kmalloc demo_env) (ke_kfree demo_env) id (\<lambda>_. True)"
    using two_block_heap by (simp add: demo_env_def)
  have "\<exists>d'. kerninst_open demo_env (True, True) (True, True) demo_driver = Some (0, d') \<and>
      session_inv demo_env id (\<lambda>_. True) (id (d_heap demo_driver)) (d_mem demo_driver) (\<lambda>_. 1) {} d'"
    by (rule open_session [OF heap]) (simp_all add: demo_driver_def KERNINST_ENABLE_UNDOMEMORY_def lw_layout_def)
  then obtain d0 where d0: "kerninst_open demo_env (True, True) (True, True) demo_driver = Some (0, d0)"
      "session_inv demo_env id (\<lambda>_. True) (id (d_heap demo_driver)) (d_mem demo_driver) (\<lambda>_. 1) {} d0" by blast
  have "global_loggedWrites d0 = Some (Some [])"
    using d0(1) by (auto simp: kerninst_open_def initialize_logged_writes_def demo_driver_def)
  then show ?thesis
    using int3_hook_survives_unload [OF d0(2), of "0xC0200000" "0xC8800000"] d0(1) by (auto simp: demo_env_def)
qed

section \<open>One user at a time\<close>

text \<open>
  The device as the kernel's file layer sees it: \<open>n\<close> is the number of open files. An open that fails
  gives no file; requests and closing need one.
\<close>

inductive dev_step :: "'h kernel_env \<Rightarrow> 'h driver \<times> nat \<Rightarrow> 'h driver \<times> nat \<Rightarrow> bool" for ke where
  dev_open: "kerninst_open ke a b d = Some (0, d') \<Longrightarrow> dev_step ke (d, n) (d', Suc n)"
| dev_refused: "kerninst_open ke a b d = Some (r, d') \<Longrightarrow> r \<noteq> 0 \<Longrightarrow> dev_step ke (d, n) (d', n)"
| dev_ioctl: "kerninst_ioctl ke x d = Some (r, out, d') \<Longrightarrow> 0 < n \<Longrightarrow> dev_step ke (d, n) (d', n)"
| dev_release: "kerninst_release ke d = Some (r, d') \<Longrightarrow> dev_step ke (d, Suc n) (d', n)"

inductive_cases dev_stepE: "dev_step ke s s'"

inductive_simps dev_step_idle: "dev_step ke (d, 0) (d', 0)"

lemma ioctl_keeps_use:
  assumes "kerninst_ioctl ke x d = Some (r, out, d')"
  shows "in_use d' = in_use d \<and> (mod_use_count d' = mod_use_count d \<or> mod_use_count d' = 1)"
  using assms
  by (cases x)
    (auto simp: ioctl_alloc_block_def ioctl_free_block_def ioctl_write1insn_def ioctl_wrundoable_def ioctl_undo_wr_def
      ioctl_chg_howsoon_def ioctl_known_callees_size_def ioctl_known_callees_get_def ioctl_get_tick_raw_def
      ioctl_add_to_allvtimers_def ioctl_remove_from_allvtimers_def ioctl_clear_client_state_def destroy_structures_def
      ioctl_read_hwc_all_cpus_def ioctl_register_trap_def ioctl_update_trap_def ioctl_unregister_trap_def
      ioctl_get_perf_ctr_state_def ioctl_set_perf_ctr_state_def disable_on_error_def ioctl_get_perf_ctr_val_def
      ioctl_set_perf_ctr_val_def ioctl_toggle_enable_bits_def ioctl_toggle_debug_bits_def ioctl_reset_def Let_def
      split: option.splits prod.splits if_splits)

lemma open_use:
  assumes "kerninst_open ke a b d = Some (r, d')"
  shows "if in_use d = 0 then r = 0 \<and> in_use d' = 1 \<and> mod_use_count d' = mod_use_count d + 1
    else d' = d \<and> (r = 0 \<longleftrightarrow> in_use d > 1)"
  using assms by (auto simp: kerninst_open_def EBUSY_def split: option.splits if_splits)

lemma release_use:
  assumes "kerninst_release ke d = Some (r, d')"
  shows "in_use d' = in_use d - 1 \<and> mod_use_count d' = mod_use_count d - 1"
  using assms by (auto simp: kerninst_release_def destroy_structures_def restore_int3_def Let_def split: option.splits)



end
