(* ===== verification/KerninstMalloc.thy ===== *)
theory KerninstMalloc
  imports AllocLog
begin

text \<open>
  The allocator of bolted kernel pages for POWER
  (\<open>kerninstdriver-linux/kerninstmalloc/src/kerninstmalloc.c\<close>): areas of the region
  \<open>KTALLOC_START .. KTALLOC_END\<close> handed out first fit from an address-ordered list, a page table
  entry and a hash table entry for each page. What the module takes from the kernel is the
  parameter \<open>ppc_kernel\<close>: the free page supply, the construction of page table entries, the hash
  table insertion and the bit masks of its headers. Spin locks are left out; \<open>None\<close> is \<open>panic\<close>.
\<close>

section \<open>Addresses of kernel symbols\<close>

datatype kernel_symbol =
    Get_lock_slot | Bolted_pgd | Hash_table_lock | Pmd_alloc | Pte_alloc | Ppc_md | Btmalloc_mm
  | Local_free_bolted_pages | Smp_call_function | Ste_allocate | Htab_data | Hpte_remove
  | Find_linux_pte | PSeries_tlbie_lock | Plpar_pte_remove | Plpar_hcall_norets | Paca | Cur_cpu_spec

text \<open>The variable, the index read first and the index read when that entry is null.\<close>

definition requested_pointers :: "(kernel_symbol \<times> nat \<times> nat option) list" where
  "requested_pointers =
     [(Get_lock_slot, 0, None), (Bolted_pgd, 1, None), (Hash_table_lock, 2, None),
      (Pmd_alloc, 3, None), (Pte_alloc, 4, Some 19), (Ppc_md, 5, None), (Btmalloc_mm, 6, None),
      (Local_free_bolted_pages, 7, None), (Smp_call_function, 8, None), (Ste_allocate, 9, None),
      (Htab_data, 10, None), (Hpte_remove, 11, None), (Find_linux_pte, 12, None),
      (PSeries_tlbie_lock, 13, None), (Plpar_pte_remove, 14, None), (Plpar_hcall_norets, 18, None),
      (Paca, 20, None), (Cur_cpu_spec, 21, None)]"

fun init_pointers ::
  "(kernel_symbol \<times> nat \<times> nat option) list \<Rightarrow> (nat \<Rightarrow> u64) \<Rightarrow> (kernel_symbol \<Rightarrow> u64) \<Rightarrow>
     int \<times> (kernel_symbol \<Rightarrow> u64)" where
  "init_pointers [] kernelptrs st = (0, st)"
| "init_pointers ((v, i, alt) # rest) kernelptrs st =
     (let p = (case alt of
                 Some j \<Rightarrow> if kernelptrs i = 0 then kernelptrs j else kernelptrs i
               | None \<Rightarrow> kernelptrs i);
          st' = st(v := p)
      in if p = 0 then (-1, st') else init_pointers rest kernelptrs st')"

definition init_requested_pointers_to_kernel ::
  "(nat \<Rightarrow> u64) \<Rightarrow> (kernel_symbol \<Rightarrow> u64) \<Rightarrow> int \<times> (kernel_symbol \<Rightarrow> u64)" where
  "init_requested_pointers_to_kernel kernelptrs st = init_pointers requested_pointers kernelptrs st"

section \<open>The list of areas\<close>

definition KTALLOC_START :: u64 where
  "KTALLOC_START = 0xbfffffffff000000"

definition KTALLOC_END :: u64 where
  "KTALLOC_END = 0xbfffffffffffffff"

record vm_struct =
  vm_flags :: u64
  vm_addr :: u64
  vm_size :: u64

text \<open>
  The loop of \<open>get_kerninst_area\<close> from the address \<open>addr\<close> on, with the list insertion its end does
  at the position reached; \<open>None\<close> is the null result.
\<close>

fun area_insert :: "u64 \<Rightarrow> u64 \<Rightarrow> u64 \<Rightarrow> vm_struct list \<Rightarrow> (u64 \<times> vm_struct list) option" where
  "area_insert sz flags addr [] =
     (if addr + sz > KTALLOC_END then None
      else Some (addr, [\<lparr>vm_flags = flags, vm_addr = addr, vm_size = sz\<rparr>]))"
| "area_insert sz flags addr (tmp # rest) =
     (if sz + addr < vm_addr tmp then
        (if addr + sz > KTALLOC_END then None
         else Some (addr, \<lparr>vm_flags = flags, vm_addr = addr, vm_size = sz\<rparr> # tmp # rest))
      else
        let addr' = vm_size tmp + vm_addr tmp
        in if addr' + sz > KTALLOC_END then None
           else map_option (\<lambda>(a, l). (a, tmp # l)) (area_insert sz flags addr' rest))"

definition get_kerninst_area ::
  "bool \<Rightarrow> u64 \<Rightarrow> u64 \<Rightarrow> vm_struct list \<Rightarrow> (u64 \<times> vm_struct list) option" where
  "get_kerninst_area alloc_ok sz flags ktmlist =
     (if alloc_ok then area_insert sz flags KTALLOC_START ktmlist else None)"

section \<open>Pages\<close>

definition PAGE_SHIFT :: nat where
  "PAGE_SHIFT = 12"

definition PAGE_SIZE :: u64 where
  "PAGE_SIZE = 4096"

definition PAGE_ALIGN :: "u64 \<Rightarrow> u64" where
  "PAGE_ALIGN sz = (sz + (PAGE_SIZE - 1)) AND NOT (PAGE_SIZE - 1)"

text \<open>What the module uses of the kernel; \<open>'e\<close> is the rest of the kernel's state.\<close>

record 'e ppc_kernel =
  pk_kmalloc_ok :: "'e \<Rightarrow> bool \<times> 'e"
  pk_get_free_page :: "'e \<Rightarrow> u64 \<times> 'e"
  pk_free_page :: "u64 \<Rightarrow> 'e \<Rightarrow> 'e"
  pk_mk_pte_phys :: "u64 \<Rightarrow> u64"
  pk_pte_page :: "u64 \<Rightarrow> u64"
  pk_pte_cleared :: u64
  pk_hpte_insert :: "u64 \<Rightarrow> u64 \<Rightarrow> 'e \<Rightarrow> u64 \<times> 'e"
  pk_set_dword0 :: "u64 \<Rightarrow> u64 \<Rightarrow> 'e \<Rightarrow> 'e"
  pk_tlbie :: "u64 \<Rightarrow> 'e \<Rightarrow> 'e"
  pk_USER_START :: u64
  pk_USER_END :: u64
  pk_get_vsid :: "u64 \<Rightarrow> u64 \<Rightarrow> u64"
  pk_get_kernel_vsid :: "u64 \<Rightarrow> u64"
  pk_hpt_hash :: "u64 \<Rightarrow> u64"
  pk_htab_hash_mask :: u64
  pk_hptes_per_group :: u64
  pk_num_physpages :: u64
  pk_vsid_randomizer :: u64
  pk_vsid_mask :: u64
  pk_htabstress :: bool
  PAGE_HPTEFLAGS :: u64
  PAGE_HASHPTE :: u64
  PAGE_PRESENT :: u64
  PAGE_GROUP_IX :: u64
  PAGE_SECONDARY :: u64

record 'e kmstate =
  ktmlist :: "vm_struct list"
  linux_pte :: "u64 \<Rightarrow> u64"
  kenv :: 'e

definition kerninst_get_kernel_vsid :: "'e ppc_kernel \<Rightarrow> u64 \<Rightarrow> u64" where
  "kerninst_get_kernel_vsid k ea =
     (let ordinal = push_bit 15 (drop_bit 28 (ea AND 0x0ffffffff0000000)) OR drop_bit 60 ea
      in if pk_htabstress k then (drop_bit 28 ea OR drop_bit 44 ea) AND pk_vsid_mask k
         else ordinal * pk_vsid_randomizer k)"

text \<open>The virtual page number under which a page enters the hash table.\<close>

definition kerninst_vpn :: "'e ppc_kernel \<Rightarrow> u64 \<Rightarrow> u64" where
  "kerninst_vpn k ea =
     (let va = push_bit 28 (kerninst_get_kernel_vsid k ea) OR (ea AND 0xfffffff)
      in drop_bit PAGE_SHIFT va)"

text \<open>One round of the page loop of \<open>kerninst_malloc\<close>: \<open>pte\<close> is read before \<open>set_pte\<close> stores the new
  entry and written back at the end.\<close>

definition map_page :: "'e ppc_kernel \<Rightarrow> u64 \<Rightarrow> 'e kmstate \<Rightarrow> 'e kmstate" where
  "map_page k ea st =
     (let (pa, e1) = pk_get_free_page k (kenv st);
          vpn = kerninst_vpn k ea;
          rpn = drop_bit PAGE_SHIFT pa;
          pte = linux_pte st ea;
          pt1 = (linux_pte st)(ea := pk_mk_pte_phys k (pa AND NOT (PAGE_SIZE - 1)));
          pte1 = ((pte AND NOT (PAGE_HPTEFLAGS k)) OR PAGE_HASHPTE k) OR PAGE_PRESENT k;
          (slot, e2) = pk_hpte_insert k vpn rpn e1;
          pte2 = pte1 OR (push_bit 12 slot AND (PAGE_GROUP_IX k OR PAGE_SECONDARY k))
      in st\<lparr>linux_pte := pt1(ea := pte2), kenv := e2\<rparr>)"

fun map_pages :: "'e ppc_kernel \<Rightarrow> u64 \<Rightarrow> nat \<Rightarrow> 'e kmstate \<Rightarrow> 'e kmstate" where
  "map_pages k ea 0 st = st"
| "map_pages k ea (Suc n) st = map_pages k (ea + PAGE_SIZE) n (map_page k ea st)"

definition kerninst_malloc :: "'e ppc_kernel \<Rightarrow> u64 \<Rightarrow> 'e kmstate \<Rightarrow> u64 \<times> 'e kmstate" where
  "kerninst_malloc k size0 st =
     (let sz = PAGE_ALIGN size0
      in if sz = 0 \<or> drop_bit PAGE_SHIFT sz > pk_num_physpages k then (0, st)
         else
           let (ok, e1) = pk_kmalloc_ok k (kenv st)
           in (case get_kerninst_area ok sz 0 (ktmlist st) of
                 None \<Rightarrow> (0, st\<lparr>kenv := e1\<rparr>)
               | Some (ea_base, l) \<Rightarrow>
                   (ea_base, map_pages k ea_base (unat (drop_bit PAGE_SHIFT sz))
                      (st\<lparr>ktmlist := l, kenv := e1\<rparr>))))"

text \<open>The entry of the slot is zeroed (a store to the kernel's hash table) and the translation flushed.\<close>

definition kerninst_hpte_invalidate :: "'e ppc_kernel \<Rightarrow> u64 \<Rightarrow> u64 \<Rightarrow> 'e \<Rightarrow> 'e" where
  "kerninst_hpte_invalidate k slot va e = pk_tlbie k va (pk_set_dword0 k slot 0 e)"

text \<open>\<open>pSeries\<close>: \<open>True\<close> for the platform whose hash table the module may write itself.\<close>

definition kerninst_flush_hash_page ::
  "'e ppc_kernel \<Rightarrow> bool \<Rightarrow> u64 \<Rightarrow> u64 \<Rightarrow> 'e kmstate \<Rightarrow> 'e kmstate" where
  "kerninst_flush_hash_page k pSeries ctxt ea st =
     (let vsid = (if pk_USER_START k \<le> ea \<and> ea \<le> pk_USER_END k then pk_get_vsid k ctxt ea
                  else pk_get_kernel_vsid k ea);
          va = push_bit 28 vsid OR (ea AND 0x0fffffff);
          vpn = drop_bit PAGE_SHIFT va;
          pte = linux_pte st ea;
          st1 = st\<lparr>linux_pte := (linux_pte st)(ea := pte AND NOT (PAGE_HPTEFLAGS k))\<rparr>;
          secondary = drop_bit 15 (pte AND PAGE_SECONDARY k);
          hash = (if secondary \<noteq> 0 then NOT (pk_hpt_hash k vpn) else pk_hpt_hash k vpn);
          slot = (hash AND pk_htab_hash_mask k) * pk_hptes_per_group k
                   + drop_bit 12 (pte AND PAGE_GROUP_IX k)
      in if pte AND PAGE_HASHPTE k \<noteq> 0 \<and> pSeries
         then st1\<lparr>kenv := kerninst_hpte_invalidate k slot va (kenv st1)\<rparr> else st1)"

text \<open>\<open>find_linux_pte\<close> finds an entry when it is present.\<close>

fun kerninst_local_free_bolted_pages ::
  "'e ppc_kernel \<Rightarrow> bool \<Rightarrow> u64 \<Rightarrow> nat \<Rightarrow> 'e kmstate \<Rightarrow> 'e kmstate option" where
  "kerninst_local_free_bolted_pages k ps ea 0 st = Some st"
| "kerninst_local_free_bolted_pages k ps ea (Suc n) st =
     (let pte = linux_pte st ea
      in if pte AND PAGE_PRESENT k = 0 then None
         else
           let st1 = st\<lparr>linux_pte := (linux_pte st)(ea := pk_pte_cleared k),
                 kenv := pk_free_page k (pk_pte_page k pte) (kenv st)\<rparr>
           in kerninst_local_free_bolted_pages k ps (ea + PAGE_SIZE) n
                (kerninst_flush_hash_page k ps 0 ea st1))"

definition kerninst_free :: "'e ppc_kernel \<Rightarrow> bool \<Rightarrow> u64 \<Rightarrow> 'e kmstate \<Rightarrow> 'e kmstate option" where
  "kerninst_free k ps ea st =
     (if ea = 0 \<or> (PAGE_SIZE - 1) AND ea \<noteq> 0 then Some st
      else
        (case find_ndx (\<lambda>v. vm_addr v = ea) (ktmlist st) of
           None \<Rightarrow> Some st
         | Some i \<Rightarrow>
             let sz = vm_size (ktmlist st ! i)
             in if sz = 0 then Some st
                else
                  map_option (\<lambda>st'. st'\<lparr>ktmlist := take i (ktmlist st) @ drop (Suc i) (ktmlist st)\<rparr>)
                    (kerninst_local_free_bolted_pages k ps ea (unat (drop_bit PAGE_SHIFT sz)) st)))"

section \<open>The area list stays ordered and disjoint\<close>

text \<open>Page aligned, non-empty areas in ascending order from \<open>lo\<close> to the end of the region.\<close>

fun areas_ok :: "nat \<Rightarrow> vm_struct list \<Rightarrow> bool" where
  "areas_ok lo [] \<longleftrightarrow> True"
| "areas_ok lo (v # vs) \<longleftrightarrow> lo \<le> unat (vm_addr v) \<and> vm_size v \<noteq> 0 \<and>
     4096 dvd unat (vm_addr v) \<and> 4096 dvd unat (vm_size v) \<and>
     unat (vm_addr v) + unat (vm_size v) \<le> unat KTALLOC_END \<and>
     areas_ok (unat (vm_addr v) + unat (vm_size v)) vs"

lemma unat_KTALLOC_END: "unat KTALLOC_END = 0xbfffffffffffffff"
  by (simp add: KTALLOC_END_def)

lemma unat_KTALLOC_START: "unat KTALLOC_START = 0xbfffffffff000000"
  by (simp add: KTALLOC_START_def)

lemma unat_plus64: "unat a + unat b < 2 ^ 64 \<Longrightarrow> unat (a + b :: u64) = unat a + unat b"
  by (simp add: unat_plus_if')

lemma areas_ok_weaken: "areas_ok lo l \<Longrightarrow> lo' \<le> lo \<Longrightarrow> areas_ok lo' l"
  by (cases l) auto

lemma areas_ok_member:
  "areas_ok lo l \<Longrightarrow> v \<in> set l \<Longrightarrow> lo \<le> unat (vm_addr v) \<and> vm_size v \<noteq> 0 \<and>
    4096 dvd unat (vm_addr v) \<and> 4096 dvd unat (vm_size v) \<and>
    unat (vm_addr v) + unat (vm_size v) \<le> unat KTALLOC_END"
  by (induction l arbitrary: lo) fastforce+

lemma areas_ok_distinct: "areas_ok lo l \<Longrightarrow> distinct (map vm_addr l)"
proof (induction l arbitrary: lo)
  case (Cons v l)
  have "0 < unat (vm_size v)" using Cons.prems by (simp add: unat_gt_0)
  then have "vm_addr w \<noteq> vm_addr v" if "w \<in> set l" for w
    using areas_ok_member [OF _ that] Cons.prems by fastforce
  with Cons show ?case by fastforce
qed simp

lemma areas_ok_append:
  "areas_ok lo (l1 @ l2) \<longleftrightarrow> areas_ok lo l1 \<and> areas_ok lo l2 \<and>
    (\<forall>v \<in> set l1. \<forall>w \<in> set l2. unat (vm_addr v) + unat (vm_size v) \<le> unat (vm_addr w))"
proof (induction l1 arbitrary: lo)
  case (Cons v l1)
  have "areas_ok (unat (vm_addr v) + unat (vm_size v)) l2 \<longleftrightarrow> areas_ok lo l2 \<and>
      (\<forall>w \<in> set l2. unat (vm_addr v) + unat (vm_size v) \<le> unat (vm_addr w))"
    if "lo \<le> unat (vm_addr v)"
    using that areas_ok_member areas_ok_weaken by (cases l2) fastforce+
  with Cons show ?case by auto
qed auto

lemma areas_ok_remove: "areas_ok lo (l1 @ v # l2) \<Longrightarrow> areas_ok lo (l1 @ l2)"
  using areas_ok_weaken by (fastforce simp: areas_ok_append)

text \<open>First fit: the new area lands between two parts of the list, and the list stays ordered.\<close>

lemma area_insert_ok:
  assumes "area_insert sz fl addr l = Some (a, l')" and "areas_ok (unat addr) l"
    and "unat addr \<le> unat KTALLOC_END" and "4096 dvd unat addr" and "4096 dvd unat sz" and "sz \<noteq> 0"
    and "unat sz < 2 ^ 62"
  shows "areas_ok (unat addr) l' \<and>
    (\<exists>l1 l2. l = l1 @ l2 \<and> l' = l1 @ \<lparr>vm_flags = fl, vm_addr = a, vm_size = sz\<rparr> # l2)"
  using assms(1-4)
proof (induction l arbitrary: addr l')
  case Nil
  have "unat (addr + sz) = unat addr + unat sz"
    using Nil.prems(3) assms(7) by (intro unat_plus64) (simp add: unat_KTALLOC_END)
  then show ?case using Nil assms(5,6) by (auto simp: not_less word_le_nat_alt split: if_splits)
next
  case (Cons tmp rest)
  have sum: "unat (addr + sz) = unat addr + unat sz"
    using Cons.prems(3) assms(7) by (intro unat_plus64) (simp add: unat_KTALLOC_END)
  show ?case
  proof (cases "sz + addr < vm_addr tmp")
    case True
    then have "unat addr + unat sz \<le> unat (vm_addr tmp)"
      using sum by (simp add: word_less_nat_alt add.commute)
    then show ?thesis using Cons.prems True sum assms(5,6)
      by (auto simp: not_less word_le_nat_alt split: if_splits intro: exI [of _ "[]"])
  next
    case False
    let ?a' = "vm_size tmp + vm_addr tmp"
    have a': "unat ?a' = unat (vm_addr tmp) + unat (vm_size tmp)"
      using Cons.prems(2) by (subst unat_plus64) (auto simp: unat_KTALLOC_END)
    obtain l1' where r: "area_insert sz fl ?a' rest = Some (a, l1')" "l' = tmp # l1'"
      using Cons.prems(1) False by (auto simp: Let_def split: if_splits)
    have ih: "areas_ok (unat ?a') l1' \<and>
        (\<exists>la lb. rest = la @ lb \<and> l1' = la @ \<lparr>vm_flags = fl, vm_addr = a, vm_size = sz\<rparr> # lb)"
      using Cons.prems(2) a' by (intro Cons.IH [OF r(1)]) auto
    then obtain la lb where "tmp # rest = (tmp # la) @ lb"
        "l' = (tmp # la) @ \<lparr>vm_flags = fl, vm_addr = a, vm_size = sz\<rparr> # lb"
      using r(2) by auto
    moreover have "areas_ok (unat addr) l'" using ih Cons.prems(2) r(2) a' by auto
    ultimately show ?thesis by blast
  qed
qed

section \<open>Pages of an area\<close>

fun pages :: "u64 \<Rightarrow> nat \<Rightarrow> u64 list" where
  "pages ea 0 = []"
| "pages ea (Suc n) = ea # pages (ea + PAGE_SIZE) n"

lemma pages_bounds:
  assumes "x \<in> set (pages ea n)" and "unat ea + n * 4096 < 2 ^ 64"
  shows "unat ea \<le> unat x \<and> unat x < unat ea + n * 4096"
  using assms
proof (induction n arbitrary: ea)
  case (Suc n)
  have "unat (ea + PAGE_SIZE) = unat ea + 4096"
    using Suc.prems(2) by (subst unat_plus64) (auto simp: PAGE_SIZE_def)
  with Suc show ?case by fastforce
qed simp

lemma pages_distinct: "unat ea + n * 4096 < 2 ^ 64 \<Longrightarrow> distinct (pages ea n)"
proof (induction n arbitrary: ea)
  case (Suc n)
  have step: "unat (ea + PAGE_SIZE) = unat ea + 4096"
    using Suc.prems by (subst unat_plus64) (auto simp: PAGE_SIZE_def)
  then have "ea \<notin> set (pages (ea + PAGE_SIZE) n)"
    using pages_bounds [of ea "ea + PAGE_SIZE" n] Suc.prems by auto
  with Suc step show ?case by simp
qed simp

definition page_present :: "'e ppc_kernel \<Rightarrow> 'e kmstate \<Rightarrow> u64 \<Rightarrow> bool" where
  "page_present k st x \<longleftrightarrow> linux_pte st x AND PAGE_PRESENT k \<noteq> 0"

lemma page_present_update [simp]:
  "page_present k (st\<lparr>ktmlist := l, kenv := e\<rparr>) x = page_present k st x"
  "page_present k (st\<lparr>ktmlist := l\<rparr>) x = page_present k st x"
  by (simp_all add: page_present_def)

lemma or_and_present: "((x OR p) OR y) AND p = (p :: u64)"
  by (rule bit_word_eqI) (auto simp: bit_simps)

lemma map_page_present:
  "PAGE_PRESENT k \<noteq> 0 \<Longrightarrow> page_present k (map_page k ea st) x = (x = ea \<or> page_present k st x)"
  by (auto simp: map_page_def page_present_def Let_def or_and_present split: prod.splits)

lemma map_page_ktmlist [simp]: "ktmlist (map_page k ea st) = ktmlist st"
  by (simp add: map_page_def Let_def split: prod.splits)

lemma map_pages_ktmlist [simp]: "ktmlist (map_pages k ea n st) = ktmlist st"
  by (induction n arbitrary: ea st) auto

lemma map_pages_present:
  "PAGE_PRESENT k \<noteq> 0 \<Longrightarrow>
    page_present k (map_pages k ea n st) x = (x \<in> set (pages ea n) \<or> page_present k st x)"
  by (induction n arbitrary: ea st) (auto simp: map_page_present)

lemma flush_pte:
  "linux_pte (kerninst_flush_hash_page k ps c ea st) x =
    (if x = ea then linux_pte st ea AND NOT (PAGE_HPTEFLAGS k) else linux_pte st x)"
  and flush_ktmlist: "ktmlist (kerninst_flush_hash_page k ps c ea st) = ktmlist st"
  by (simp_all add: kerninst_flush_hash_page_def Let_def)

lemma free_pages_present:
  assumes "distinct (pages ea n)" and "\<forall>x \<in> set (pages ea n). page_present k st x"
  shows "\<exists>st'. kerninst_local_free_bolted_pages k ps ea n st = Some st' \<and> ktmlist st' = ktmlist st \<and>
    (\<forall>x. x \<notin> set (pages ea n) \<longrightarrow> page_present k st' x = page_present k st x)"
  using assms
proof (induction n arbitrary: ea st)
  case (Suc n)
  let ?st1 = "kerninst_flush_hash_page k ps 0 ea
    (st\<lparr>linux_pte := (linux_pte st)(ea := pk_pte_cleared k),
        kenv := pk_free_page k (pk_pte_page k (linux_pte st ea)) (kenv st)\<rparr>)"
  have keep: "page_present k ?st1 x = page_present k st x" if "x \<noteq> ea" for x
    using that by (simp add: page_present_def flush_pte)
  have "page_present k ?st1 x" if "x \<in> set (pages (ea + PAGE_SIZE) n)" for x
    using that Suc.prems by (subst keep) auto
  then have "\<forall>x \<in> set (pages (ea + PAGE_SIZE) n). page_present k ?st1 x" by blast
  with Suc.IH [of "ea + PAGE_SIZE" ?st1] Suc.prems keep show ?case
    by (auto simp: page_present_def flush_ktmlist Let_def)
qed simp

section \<open>An allocator of the kernel's kind\<close>

text \<open>
  The states of the module: an ordered area list and a present page table entry for every page of
  every area. The machine has less than \<open>2 ^ 50\<close> pages, so that no sum of an address and a size
  wraps.
\<close>

definition area_pages :: "vm_struct \<Rightarrow> u64 list" where
  "area_pages v = pages (vm_addr v) (unat (drop_bit PAGE_SHIFT (vm_size v)))"

definition km_inv :: "'e ppc_kernel \<Rightarrow> 'e kmstate \<Rightarrow> bool" where
  "km_inv k st \<longleftrightarrow> PAGE_PRESENT k \<noteq> 0 \<and> pk_num_physpages k < 2 ^ 50 \<and>
     areas_ok (unat KTALLOC_START) (ktmlist st) \<and>
     (\<forall>v \<in> set (ktmlist st). \<forall>x \<in> set (area_pages v). page_present k st x)"

definition km_live :: "'e kmstate \<Rightarrow> u64 set" where
  "km_live st = vm_addr ` set (ktmlist st)"

definition km_release :: "'e ppc_kernel \<Rightarrow> bool \<Rightarrow> u64 \<Rightarrow> 'e kmstate \<Rightarrow> 'e kmstate" where
  "km_release k ps p st = (case kerninst_free k ps p st of None \<Rightarrow> st | Some st' \<Rightarrow> st')"

lemma page_count: "4096 dvd unat (x :: u64) \<Longrightarrow> unat (drop_bit PAGE_SHIFT x) * 4096 = unat x"
  by (simp add: PAGE_SHIFT_def drop_bit_eq_div unat_div)

lemma PAGE_ALIGN_dvd: "4096 dvd unat (PAGE_ALIGN x)"
proof -
  have "w AND NOT (mask 12) = push_bit 12 (drop_bit 12 w)" for w :: u64
    by (rule bit_word_eqI) (auto simp: bit_simps)
  moreover have "PAGE_SIZE - 1 = mask 12" by (simp add: PAGE_SIZE_def mask_eq_exp_minus_1)
  ultimately have "PAGE_ALIGN x = push_bit 12 (drop_bit 12 (x + mask 12))"
    by (simp add: PAGE_ALIGN_def)
  then show ?thesis
    by (simp add: push_bit_eq_mult unat_word_ariths dvd_mod)
qed

lemma aligned_not_bad:
  assumes "4096 dvd unat ea"
  shows "(PAGE_SIZE - 1) AND ea = 0"
proof -
  have "PAGE_SIZE - 1 = mask 12" by (simp add: PAGE_SIZE_def mask_eq_exp_minus_1)
  then have "(PAGE_SIZE - 1) AND ea = take_bit 12 ea" by (simp add: take_bit_eq_mask and.commute)
  also have "unat \<dots> = 0" using assms by (simp add: take_bit_eq_mod unat_mod)
  finally show ?thesis by (simp add: unat_eq_zero)
qed

lemma area_pages_bounds:
  assumes "areas_ok lo l" and "v \<in> set l"
  shows "distinct (area_pages v)" and "\<forall>x \<in> set (area_pages v).
    unat (vm_addr v) \<le> unat x \<and> unat x < unat (vm_addr v) + unat (vm_size v)"
proof -
  have "unat (vm_addr v) + unat (vm_size v) < 2 ^ 64" "4096 dvd unat (vm_size v)"
    using areas_ok_member [OF assms] by (auto simp: unat_KTALLOC_END)
  then show "distinct (area_pages v)" and "\<forall>x \<in> set (area_pages v).
    unat (vm_addr v) \<le> unat x \<and> unat x < unat (vm_addr v) + unat (vm_size v)"
    using pages_distinct [of "vm_addr v" "unat (drop_bit PAGE_SHIFT (vm_size v))"]
      pages_bounds [of _ "vm_addr v" "unat (drop_bit PAGE_SHIFT (vm_size v))"]
    by (auto simp: area_pages_def page_count)
qed

lemma kerninst_malloc_inv:
  assumes inv: "km_inv k st" and m: "kerninst_malloc k n st = (p, st')"
  shows "km_inv k st' \<and> (p = 0 \<longrightarrow> ktmlist st' = ktmlist st) \<and>
    (p \<noteq> 0 \<longrightarrow> p \<notin> km_live st \<and> km_live st' = insert p (km_live st))"
proof -
  let ?sz = "PAGE_ALIGN n"
  obtain ok e1 where e1: "pk_kmalloc_ok k (kenv st) = (ok, e1)" by (cases "pk_kmalloc_ok k (kenv st)")
  show ?thesis
  proof (cases "?sz = 0 \<or> drop_bit PAGE_SHIFT ?sz > pk_num_physpages k \<or>
      get_kerninst_area ok ?sz 0 (ktmlist st) = None")
    case True
    then have "p = 0 \<and> ktmlist st' = ktmlist st \<and> linux_pte st' = linux_pte st"
      using m e1 by (auto simp: kerninst_malloc_def Let_def split: if_splits)
    then show ?thesis using inv by (simp add: km_inv_def page_present_def)
  next
    case False
    then obtain a l where al: "area_insert ?sz 0 KTALLOC_START (ktmlist st) = Some (a, l)"
      by (auto simp: get_kerninst_area_def split: if_splits)
    have st': "p = a" "st' = map_pages k a (unat (drop_bit PAGE_SHIFT ?sz)) (st\<lparr>ktmlist := l, kenv := e1\<rparr>)"
      using m e1 False al by (auto simp: kerninst_malloc_def Let_def get_kerninst_area_def split: if_splits)
    have "unat (drop_bit PAGE_SHIFT ?sz) < 2 ^ 50"
      using False inv by (auto simp: km_inv_def word_less_nat_alt not_less)
    then have "unat ?sz < 2 ^ 62" using page_count [OF PAGE_ALIGN_dvd, of n] by simp
    then obtain l1 l2 where l: "ktmlist st = l1 @ l2"
        "l = l1 @ \<lparr>vm_flags = 0, vm_addr = a, vm_size = ?sz\<rparr> # l2" "areas_ok (unat KTALLOC_START) l"
      using area_insert_ok [OF al] inv False PAGE_ALIGN_dvd
      by (auto simp: km_inv_def unat_KTALLOC_START unat_KTALLOC_END)
    have "a \<noteq> 0" using l(3) by (auto simp: l(2) areas_ok_append unat_KTALLOC_START)
    moreover have "a \<notin> km_live st"
      using l(3) by (fastforce simp: l(1,2) areas_ok_append km_live_def unat_eq_zero dest: areas_ok_member)
    moreover have "km_inv k st'" using inv l(1,3)
      by (auto simp: km_inv_def st'(2) map_pages_present l(2) area_pages_def)
    ultimately show ?thesis using l by (auto simp: km_live_def st')
  qed
qed

lemma kerninst_free_inv:
  assumes inv: "km_inv k st" and p: "p \<in> km_live st"
  shows "\<exists>st'. kerninst_free k ps p st = Some st' \<and> km_inv k st' \<and> km_live st' = km_live st - {p}"
proof -
  let ?l = "ktmlist st"
  obtain i where i: "find_ndx (\<lambda>v. vm_addr v = p) ?l = Some i"
    using p find_ndx_None [of "\<lambda>v. vm_addr v = p" ?l] by (auto simp: km_live_def)
  let ?v = "?l ! i" and ?l' = "take i ?l @ drop (Suc i) ?l"
  have bnd: "i < length ?l" "vm_addr ?v = p" using find_ndx_SomeD [OF i] by auto
  have l: "?l = take i ?l @ ?v # drop (Suc i) ?l" using bnd(1) by (rule id_take_nth_drop)
  have ok: "areas_ok (unat KTALLOC_START) (take i ?l @ ?v # drop (Suc i) ?l)"
    using inv l by (simp add: km_inv_def)
  have v: "vm_size ?v \<noteq> 0" "4096 dvd unat p" "p \<noteq> 0"
    using ok bnd(2) by (auto simp: areas_ok_append unat_KTALLOC_START)
  have dj: "set (area_pages w) \<inter> set (area_pages ?v) = {}" if w: "w \<in> set ?l'" for w
  proof -
    have "w \<in> set (take i ?l @ ?v # drop (Suc i) ?l)" using w by auto
    note bw = area_pages_bounds(2) [OF ok this]
    have bv: "\<forall>x \<in> set (area_pages ?v). unat (vm_addr ?v) \<le> unat x \<and>
        unat x < unat (vm_addr ?v) + unat (vm_size ?v)"
      by (rule area_pages_bounds(2) [OF ok]) simp
    have "unat (vm_addr w) + unat (vm_size w) \<le> unat (vm_addr ?v) \<or>
        unat (vm_addr ?v) + unat (vm_size ?v) \<le> unat (vm_addr w)"
      using ok w by (auto simp: areas_ok_append dest: areas_ok_member)
    then show ?thesis using bw bv by fastforce
  qed
  have "?v \<in> set ?l" using bnd(1) by simp
  then have pv: "\<forall>x \<in> set (area_pages ?v). page_present k st x" "distinct (area_pages ?v)"
    using inv area_pages_bounds(1) [of "unat KTALLOC_START" ?l] by (auto simp: km_inv_def)
  obtain st' where st': "kerninst_local_free_bolted_pages k ps p
        (unat (drop_bit PAGE_SHIFT (vm_size ?v))) st = Some st'"
      "\<forall>x. x \<notin> set (area_pages ?v) \<longrightarrow> page_present k st' x = page_present k st x"
    using free_pages_present [OF pv(2,1) [unfolded area_pages_def bnd(2)]]
    unfolding area_pages_def bnd(2) by blast
  have "km_inv k (st'\<lparr>ktmlist := ?l'\<rparr>)"
    unfolding km_inv_def
  proof (intro conjI ballI)
    fix w x assume w: "w \<in> set (ktmlist (st'\<lparr>ktmlist := ?l'\<rparr>))" and x: "x \<in> set (area_pages w)"
    then have "x \<notin> set (area_pages ?v)" using dj [of w] by auto
    moreover have "w \<in> set ?l" using w by (auto dest: in_set_takeD in_set_dropD)
    ultimately show "page_present k (st'\<lparr>ktmlist := ?l'\<rparr>) x"
      using x inv st'(2) by (auto simp: km_inv_def)
  qed (use inv areas_ok_remove [OF ok] in \<open>auto simp: km_inv_def\<close>)
  moreover have "vm_addr ` set ?l' = vm_addr ` set ?l - {p}"
  proof -
    have "p \<notin> vm_addr ` set ?l'" using areas_ok_distinct [OF ok] bnd(2) by auto
    moreover have "set ?l = insert ?v (set ?l')" by (subst l) auto
    ultimately show ?thesis using bnd(2) by auto
  qed
  ultimately show ?thesis
    using i v st'(1) aligned_not_bad [OF v(2)]
    by (auto simp: kerninst_free_def Let_def km_live_def)
qed

interpretation km: kernel_heap "kerninst_malloc k" "km_release k ps" km_live "km_inv k"
  for k :: "'e ppc_kernel" and ps
proof
  fix h :: "'e kmstate" and n p h'
  show "km_inv k h \<Longrightarrow> kerninst_malloc k n h = (0, h') \<Longrightarrow> km_live h' = km_live h \<and> km_inv k h'"
    using kerninst_malloc_inv [of k h n 0 h'] by (simp add: km_live_def)
  show "km_inv k h \<Longrightarrow> kerninst_malloc k n h = (p, h') \<Longrightarrow> p \<noteq> 0 \<Longrightarrow>
      p \<notin> km_live h \<and> km_live h' = insert p (km_live h) \<and> km_inv k h'"
    using kerninst_malloc_inv [of k h n p h'] by simp
  show "km_live (km_release k ps p h) = km_live h - {p} \<and> km_inv k (km_release k ps p h)"
    if h: "km_inv k h" "p \<in> km_live h"
  proof -
    obtain st' where "kerninst_free k ps p h = Some st'" "km_inv k st'" "km_live st' = km_live h - {p}"
      using kerninst_free_inv [OF h] by blast
    then show ?thesis by (simp add: km_release_def)
  qed
qed

section \<open>Properties\<close>

datatype km_op = KMalloc u64 | KFree u64

fun km_step :: "'e ppc_kernel \<Rightarrow> bool \<Rightarrow> km_op \<Rightarrow> 'e kmstate \<Rightarrow> 'e kmstate option" where
  "km_step k ps (KMalloc n) st = Some (snd (kerninst_malloc k n st))"
| "km_step k ps (KFree p) st = kerninst_free k ps p st"

interpretation kmm: guarded_machine "km_step k ps" "\<lambda>_. True" "km_inv k"
  for k :: "'e ppc_kernel" and ps
proof
  fix x and s :: "'e kmstate" assume inv: "km_inv k s"
  show "\<exists>s'. km_step k ps x s = Some s' \<and> km_inv k s'"
  proof (cases x)
    case (KMalloc n)
    then show ?thesis using kerninst_malloc_inv [OF inv] by (cases "kerninst_malloc k n s") simp
  next
    case (KFree p)
    show ?thesis
    proof (cases "p \<in> km_live s")
      case True
      then show ?thesis using kerninst_free_inv [OF inv True, of ps] KFree by auto
    next
      case False
      then have "find_ndx (\<lambda>v. vm_addr v = p) (ktmlist s) = None"
        by (auto simp: find_ndx_None km_live_def)
      then show ?thesis using KFree inv by (simp add: kerninst_free_def)
    qed
  qed
qed

lemma areas_ok_sorted:
  "areas_ok lo l \<Longrightarrow> sorted_wrt (\<lambda>v w. unat (vm_addr v) + unat (vm_size v) \<le> unat (vm_addr w)) l"
  by (induction l arbitrary: lo) (auto dest: areas_ok_member)

text \<open>
  C22: whatever the sequence of allocations and frees (of any size and any address), the module
  never panics, and the areas it has handed out are always page aligned, inside the reserved
  region, in ascending order and pairwise disjoint.
\<close>

theorem bolted_areas_disjoint:
  assumes "PAGE_PRESENT k \<noteq> 0" and "pk_num_physpages k < 2 ^ 50" and "ktmlist st0 = []"
  shows "\<exists>st. run_ops (km_step k ps) ops st0 = Some st \<and>
    sorted_wrt (\<lambda>v w. unat (vm_addr v) + unat (vm_size v) \<le> unat (vm_addr w)) (ktmlist st) \<and>
    (\<forall>v \<in> set (ktmlist st). KTALLOC_START \<le> vm_addr v \<and>
       4096 dvd unat (vm_addr v) \<and> 4096 dvd unat (vm_size v) \<and>
       unat (vm_addr v) + unat (vm_size v) \<le> unat KTALLOC_END)"
proof -
  have "km_inv k st0" using assms by (simp add: km_inv_def)
  then obtain st where st: "run_ops (km_step k ps) ops st0 = Some st" "km_inv k st"
    using kmm.run_total [of ops k st0 ps] by (auto simp: list_all_iff)
  then have "areas_ok (unat KTALLOC_START) (ktmlist st)" by (simp add: km_inv_def)
  then show ?thesis using st areas_ok_sorted areas_ok_member
    by (fastforce simp: word_le_nat_alt)
qed

text \<open>A kernel in which the contracts can be tried out: pages are numbered by a counter.\<close>

definition demo_kernel :: "nat ppc_kernel" where
  "demo_kernel = \<lparr>pk_kmalloc_ok = (\<lambda>e. (True, e)), pk_get_free_page = (\<lambda>e. (of_nat e * 4096, Suc e)),
     pk_free_page = (\<lambda>p e. e), pk_mk_pte_phys = (\<lambda>p. p), pk_pte_page = (\<lambda>p. p), pk_pte_cleared = 0,
     pk_hpte_insert = (\<lambda>v r e. (0, e)), pk_set_dword0 = (\<lambda>s v e. e), pk_tlbie = (\<lambda>v e. e),
     pk_USER_START = 0, pk_USER_END = 0x7fffffff, pk_get_vsid = (\<lambda>c x. x), pk_get_kernel_vsid = (\<lambda>x. x), pk_hpt_hash = (\<lambda>x. x), pk_htab_hash_mask = 0xffff,
     pk_hptes_per_group = 8, pk_num_physpages = 1024, pk_vsid_randomizer = 42470972311, pk_vsid_mask = 0xfffffffff, pk_htabstress = False,
     PAGE_HPTEFLAGS = 0xf400, PAGE_HASHPTE = 0x400, PAGE_PRESENT = 1, PAGE_GROUP_IX = 0x7000,
     PAGE_SECONDARY = 0x8000\<rparr>"

theorem bolted_areas_disjoint_witness:
  "\<exists>st. run_ops (km_step demo_kernel True)
       [KMalloc 100, KMalloc 5000, KFree KTALLOC_START, KMalloc 1, KFree 17]
       \<lparr>ktmlist = [], linux_pte = (\<lambda>_. 0), kenv = 1\<rparr> = Some st \<and>
    sorted_wrt (\<lambda>v w. unat (vm_addr v) + unat (vm_size v) \<le> unat (vm_addr w)) (ktmlist st) \<and>
    (\<forall>v \<in> set (ktmlist st). KTALLOC_START \<le> vm_addr v \<and>
       4096 dvd unat (vm_addr v) \<and> 4096 dvd unat (vm_size v) \<and>
       unat (vm_addr v) + unat (vm_size v) \<le> unat KTALLOC_END)"
  by (rule bolted_areas_disjoint) (simp_all add: demo_kernel_def)

text \<open>
  the page table entry \<open>kerninst_malloc\<close> leaves for a page with no entry before does not hold
  the physical page \<open>pa\<close> it obtained, since the entry read before \<open>set_pte\<close> is written back over the
  new one; and freeing the page clears the entry before the hash table is looked at. So the page
  that goes back to the kernel is named by flag bits alone, and the hash table entry is never
  invalidated, whatever the platform.
\<close>

theorem bolted_page_lost:
  assumes "linux_pte st ea = 0" and "PAGE_PRESENT k \<noteq> 0" and "pk_pte_cleared k AND PAGE_HASHPTE k = 0"
    and "pk_get_free_page k (kenv st) = (pa, e1)"
    and "pk_hpte_insert k (kerninst_vpn k ea) (drop_bit PAGE_SHIFT pa) e1 = (slot, e2)"
  shows "\<exists>st'. kerninst_local_free_bolted_pages k ps ea 1 (map_page k ea st) = Some st' \<and>
    kenv st' = pk_free_page k (pk_pte_page k ((PAGE_HASHPTE k OR PAGE_PRESENT k) OR
      (push_bit 12 slot AND (PAGE_GROUP_IX k OR PAGE_SECONDARY k)))) e2"
proof -
  let ?pte = "(PAGE_HASHPTE k OR PAGE_PRESENT k) OR
      (push_bit 12 slot AND (PAGE_GROUP_IX k OR PAGE_SECONDARY k))"
  have st1: "linux_pte (map_page k ea st) ea = ?pte" "kenv (map_page k ea st) = e2"
    using assms(1,4,5) by (simp_all add: map_page_def Let_def)
  have flush: "kenv (kerninst_flush_hash_page k ps 0 ea s) = kenv s"
    if "linux_pte s ea = pk_pte_cleared k" for s
    using that assms(3) by (simp add: kerninst_flush_hash_page_def Let_def)
  have "?pte AND PAGE_PRESENT k \<noteq> 0" using assms(2) or_and_present by metis
  then show ?thesis by (simp add: st1 flush)
qed

theorem bolted_page_lost_witness:
  "\<exists>st'. kerninst_local_free_bolted_pages (demo_kernel\<lparr>pk_free_page := (\<lambda>p e. unat p)\<rparr>) True 4096 1
      (map_page (demo_kernel\<lparr>pk_free_page := (\<lambda>p e. unat p)\<rparr>) 4096
        \<lparr>ktmlist = [], linux_pte = (\<lambda>_. 0), kenv = 7\<rparr>) = Some st' \<and> kenv st' = 0x401"
  using bolted_page_lost [of "\<lparr>ktmlist = [], linux_pte = (\<lambda>_. 0), kenv = 7\<rparr>" 4096
      "demo_kernel\<lparr>pk_free_page := (\<lambda>p e. unat p)\<rparr>" "7 * 4096" 8 0 8 True]
  by (simp add: demo_kernel_def)

end
