(* ===== verification/BitUtils.thy ===== *)
theory BitUtils
  imports Kerninst_Prelude "HOL-Library.Monad_Syntax"
begin

text \<open>
  Bit manipulation of the daemon: the field accessors of \<open>kerninstd/bitutils/src/bitUtils.C\<close> and
  \<open>bitUtils.h\<close>, and the bit counting of \<open>util/h/popc.h\<close> and \<open>util/h/ffs.h\<close>. All values are 32-bit
  words. A failed assertion, and a shift by the width of the word or more (undefined in C), is the
  result \<^const>\<open>None\<close>; bit numbers are 32-bit unsigned integers too, so their arithmetic wraps.
\<close>

named_theorems bits_simps \<open>single bits of the results of the bit utilities\<close>

section \<open>Shifts and assertions of C\<close>

definition shl32 :: "u32 \<Rightarrow> u32 \<Rightarrow> u32 option" where
  "shl32 x n = (if n < 32 then Some (push_bit (unat n) x) else None)"

definition shr32 :: "u32 \<Rightarrow> u32 \<Rightarrow> u32 option" where
  "shr32 x n = (if n < 32 then Some (drop_bit (unat n) x) else None)"

definition assert :: "bool \<Rightarrow> unit option" where
  "assert b = (if b then Some () else None)"

section \<open>Fields of a word\<close>

definition getBits :: "u32 \<Rightarrow> u32 \<Rightarrow> u32 \<Rightarrow> u32 option" where
  "getBits value lobit hibit = do {
     assert (lobit \<le> hibit);
     m \<leftarrow> shl32 1 (hibit - lobit + 1);
     v \<leftarrow> shr32 value lobit;
     Some (v AND (m - 1))
   }"

definition getBitsFrom0 :: "u32 \<Rightarrow> u32 \<Rightarrow> u32 option" where
  "getBitsFrom0 value hibit = do {
     m \<leftarrow> shl32 1 (hibit + 1);
     Some (value AND (m - 1))
   }"

text \<open>The result is the bit pattern of the signed integer that is returned.\<close>

definition signExtend :: "u32 \<Rightarrow> u32 \<Rightarrow> u32 option" where
  "signExtend bits numbits = do {
     s \<leftarrow> shl32 1 (numbits - 1);
     if bits AND s = 0 then Some bits
     else do {
       m \<leftarrow> shl32 1 numbits;
       Some (bits OR NOT (m - 1))
     }
   }"

definition replaceBits :: "u32 \<Rightarrow> u32 \<Rightarrow> u32 \<Rightarrow> u32 \<Rightarrow> u32 option" where
  "replaceBits value loBitNum hiBitNum replacementValue = do {
     savedLowBits \<leftarrow> (if loBitNum = 0 then Some 0 else getBitsFrom0 value (loBitNum - 1));
     v1 \<leftarrow> shr32 value loBitNum;
     v2 \<leftarrow> shr32 v1 (hiBitNum - loBitNum + 1);
     v3 \<leftarrow> shl32 v2 (hiBitNum - loBitNum + 1);
     v4 \<leftarrow> shl32 (v3 OR replacementValue) loBitNum;
     Some (v4 OR savedLowBits)
   }"

definition getRs1Bits :: "u32 \<Rightarrow> u32" where
  "getRs1Bits value = drop_bit 14 value AND 0x1f"

definition getRs2Bits :: "u32 \<Rightarrow> u32" where
  "getRs2Bits value = value AND 0x1f"

definition getRdBits :: "u32 \<Rightarrow> u32" where
  "getRdBits value = drop_bit 25 value AND 0x1f"

definition getOp3Bits :: "u32 \<Rightarrow> u32" where
  "getOp3Bits value = drop_bit 19 value AND 0x3f"

definition getUimm13Bits :: "u32 \<Rightarrow> u32" where
  "getUimm13Bits value = value AND 0x1fff"

definition getIBit :: "u32 \<Rightarrow> bool" where
  "getIBit value = (drop_bit 13 value AND 0x1 \<noteq> 0)"

definition clearBit :: "u32 \<Rightarrow> u32 \<Rightarrow> u32 option" where
  "clearBit value bitnum = do { mask \<leftarrow> shl32 1 bitnum; Some (value AND NOT mask) }"

text \<open>As written, \<open>setBit\<close> masks, and \<open>replaceBit\<close> drops the result of \<open>clearBit\<close>.\<close>

definition setBit :: "u32 \<Rightarrow> u32 \<Rightarrow> u32 option" where
  "setBit value bitnum = do { m \<leftarrow> shl32 1 bitnum; Some (value AND m) }"

definition replaceBit :: "u32 \<Rightarrow> u32 \<Rightarrow> bool \<Rightarrow> u32 option" where
  "replaceBit value bitnum newval =
     (if newval then setBit value bitnum
      else do { _ \<leftarrow> clearBit value bitnum; Some value })"

section \<open>Counting bits\<close>

lemma and_minus_one_less:
  fixes x :: "'a::len word"
  assumes "x \<noteq> 0"
  shows "unat (x AND (x - 1)) < unat x"
proof -
  have "unat (x AND (x - 1)) \<le> unat (x - 1)"
    using word_and_le2 [of "x - 1" x] by (simp add: word_le_nat_alt and.commute)
  then show ?thesis using assms by (simp add: unat_minus_one unat_gt_0 flip: unat_gt_0)
qed

function do_popc :: "'a::len word \<Rightarrow> nat \<Rightarrow> nat" where
  "do_popc num result = (if num = 0 then result else do_popc (num AND (num - 1)) (result + 1))"
  by pat_completeness auto
termination
  by (relation "measure (\<lambda>(x, _). unat x)") (auto simp: and_minus_one_less)

declare do_popc.simps [simp del]

text \<open>
  \<open>ari_popc\<close> at every unsigned width; the overloads for signed integers reinterpret their argument.
\<close>

definition ari_popc :: "'a::len word \<Rightarrow> nat" where
  "ari_popc num = do_popc num 0"

text \<open>
  \<open>ari_ffs\<close> for 32 and 64 bits; the narrower overloads compute in the 32-bit \<open>int\<close> their argument
  is promoted to.
\<close>

definition ari_ffs :: "'a::len word \<Rightarrow> nat" where
  "ari_ffs num = ari_popc (num XOR NOT (- num)) - 1"

definition ari_ffs8 :: "u8 \<Rightarrow> nat" where
  "ari_ffs8 num = ari_ffs (ucast num :: u32)"

definition ari_ffs16 :: "u16 \<Rightarrow> nat" where
  "ari_ffs16 num = ari_ffs (ucast num :: u32)"

text \<open>The C library's \<open>ffs\<close>: one more than the number of the lowest set bit, 0 for 0.\<close>

definition libc_ffs :: "u32 \<Rightarrow> nat" where
  "libc_ffs x = (case find (bit x) [0..<32] of None \<Rightarrow> 0 | Some i \<Rightarrow> Suc i)"

definition get_ffs :: "u32 \<Rightarrow> nat option" where
  "get_ffs bits = do { assert (bits \<noteq> 0); Some (libc_ffs bits - 1) }"

section \<open>Lemmas on fields\<close>

lemma shl32_Some: "n < 32 \<Longrightarrow> shl32 x n = Some (push_bit (unat n) x)"
  by (simp add: shl32_def)

lemma shr32_Some: "n < 32 \<Longrightarrow> shr32 x n = Some (drop_bit (unat n) x)"
  by (simp add: shr32_def)

lemma assert_True [simp]: "assert True = Some ()"
  by (simp add: assert_def)

lemma assert_False [simp]: "assert False = None"
  by (simp add: assert_def)

text \<open>The mask \<open>(1U << n) - 1\<close> keeps the low \<open>n\<close> bits.\<close>

lemma and_low_mask: "x AND (push_bit n 1 - 1) = take_bit n (x :: 'a::len word)"
  by (simp add: take_bit_eq_mask mask_eq_exp_minus_1 push_bit_of_1)

lemma and_low_mask_Suc: "x AND (2 * 2 ^ n - 1) = take_bit (Suc n) (x :: 'a::len word)"
  by (simp add: take_bit_eq_mask mask_eq_exp_minus_1)

lemma getBitsFrom0_eq: "unat hi < 31 \<Longrightarrow> getBitsFrom0 v hi = Some (take_bit (Suc (unat hi)) v)"
proof -
  assume h: "unat hi < 31"
  then have "unat (hi + 1) = Suc (unat hi)" by (subst unat_add_lem [THEN iffD1]) auto
  then show ?thesis using h
    by (simp add: getBitsFrom0_def shl32_def and_low_mask_Suc word_less_nat_alt)
qed

text \<open>The width of the field from \<open>lo\<close> to \<open>hi\<close>, as the code computes it.\<close>

lemma field_width:
  fixes lo hi :: u32
  assumes "lo \<le> hi" and "unat hi < 32"
  shows "unat (hi - lo + 1) = unat hi - unat lo + 1"
proof -
  have d: "unat (hi - lo) = unat hi - unat lo" using assms(1) by (simp add: unat_sub)
  have "unat (hi - lo) + unat (1 :: u32) < 2 ^ LENGTH(32)" unfolding d using assms(2) by simp
  then have "unat (hi - lo + 1) = unat (hi - lo) + unat (1 :: u32)" using unat_add_lem by blast
  then show ?thesis using d by simp
qed

lemma getBits_eq:
  assumes "lo \<le> hi" and "unat hi < 32" and "unat hi - unat lo < 31"
  shows "getBits v lo hi = Some (take_bit (unat hi - unat lo + 1) (drop_bit (unat lo) v))"
  using assms field_width [OF assms(1,2)]
  by (simp add: getBits_def shl32_def shr32_def and_low_mask_Suc word_less_nat_alt word_le_nat_alt)

lemma bit_take_bit32 [bits_simps]: "bit (take_bit n (x :: u32)) i \<longleftrightarrow> i < n \<and> bit x i"
  by (simp add: bit_take_bit_iff)

text \<open>\<open>replaceBits\<close> bit by bit.\<close>

lemma replaceBits_bits:
  assumes "lo \<le> hi" and "unat hi < 32" and "unat hi - unat lo < 31"
  obtains w where "replaceBits v lo hi r = Some w"
    and "\<And>i. bit w i \<longleftrightarrow> i < 32 \<and>
      (if i < unat lo then bit v i
       else if i \<le> unat hi then bit r (i - unat lo)
       else bit v i \<or> bit r (i - unat lo))"
proof -
  define n where "n = unat hi - unat lo + 1"
  have n: "unat (hi - lo + 1) = n" using field_width [OF assms(1,2)] by (simp add: n_def)
  have lo: "unat lo < 32" using assms by (simp add: word_le_nat_alt)
  have saved: "(if lo = 0 then Some 0 else getBitsFrom0 v (lo - 1)) = Some (take_bit (unat lo) v)"
  proof (cases "lo = 0")
    case False
    then have "unat (lo - 1) = unat lo - 1" "0 < unat lo" by (auto simp: unat_minus_one unat_gt_0)
    then show ?thesis using False lo by (simp add: getBitsFrom0_eq)
  qed simp
  define w where "w = push_bit (unat lo) (push_bit n (drop_bit n (drop_bit (unat lo) v)) OR r) OR take_bit (unat lo) v"
  have "replaceBits v lo hi r = Some w"
    using saved n lo assms by (simp add: replaceBits_def shl32_def shr32_def w_def word_less_nat_alt n_def)
  moreover have "bit w i \<longleftrightarrow> i < 32 \<and>
      (if i < unat lo then bit v i
       else if i \<le> unat hi then bit r (i - unat lo)
       else bit v i \<or> bit r (i - unat lo))" for i
  proof -
    have "unat lo \<le> unat hi" using assms(1) by (simp add: word_le_nat_alt)
    then have k: "unat lo + n = unat hi + 1" by (simp add: n_def)
    show ?thesis
    proof (cases "i < 32")
      case True
      have "bit w i \<longleftrightarrow> (i < unat lo \<and> bit v i) \<or>
        (unat lo \<le> i \<and> (n + unat lo \<le> i \<and> bit v i \<or> bit r (i - unat lo)))"
        using True by (auto simp: w_def bit_simps)
      then show ?thesis using k True by auto
    next
      case False
      then have "\<not> bit w i" using bit_imp_le_length [of w i] by auto
      then show ?thesis using False by simp
    qed
  qed
  ultimately show ?thesis by (rule that)
qed

lemma take_bit_unat_small: "unat r < 2 ^ n \<Longrightarrow> take_bit n (r :: 'a::len word) = r"
  by (rule word_unat_eq_iff [THEN iffD2]) (simp add: unsigned_take_bit_eq take_bit_nat_eq_self)

text \<open>Reading a field back after replacing it, and the bits the replacement leaves alone.\<close>

lemma getBits_replaceBits:
  assumes f: "lo \<le> hi" "unat hi < 32" "unat hi - unat lo < 31"
    and small: "unat r < 2 ^ (unat hi - unat lo + 1)"
  obtains w where "replaceBits v lo hi r = Some w" and "getBits w lo hi = Some r"
    and "\<And>i. i < unat lo \<or> unat hi < i \<Longrightarrow> bit w i = bit v i"
proof -
  have le: "unat lo \<le> unat hi" using f(1) by (simp add: word_le_nat_alt)
  have r: "take_bit (unat hi - unat lo + 1) r = r"
    using small by (intro take_bit_unat_small)
  have hi_r: "\<not> bit r j" if "unat hi - unat lo < j" for j
    using arg_cong [OF r, of "\<lambda>x. bit x j"] that by (simp add: bit_take_bit_iff)
  obtain w where w: "replaceBits v lo hi r = Some w"
    and b: "\<And>i. bit w i \<longleftrightarrow> i < 32 \<and>
      (if i < unat lo then bit v i
       else if i \<le> unat hi then bit r (i - unat lo)
       else bit v i \<or> bit r (i - unat lo))"
    using replaceBits_bits [OF f, of v r] by blast
  have len: "bit v i \<Longrightarrow> i < 32" for i using bit_imp_le_length [of v i] by simp
  have "take_bit (unat hi - unat lo + 1) (drop_bit (unat lo) w) = r"
  proof (rule bit_word_eqI)
    fix i assume "i < LENGTH(32)"
    show "bit (take_bit (unat hi - unat lo + 1) (drop_bit (unat lo) w)) i = bit r i"
      using b [of "unat lo + i"] hi_r [of i] le f(2) by (auto simp: bit_simps)
  qed
  then have "getBits w lo hi = Some r" using getBits_eq [OF f] by simp
  moreover have "bit w i = bit v i" if "i < unat lo \<or> unat hi < i" for i
    using b [of i] that le hi_r [of "i - unat lo"] len [of i] by auto
  ultimately show ?thesis using that w by blast
qed

text \<open>\<open>signExtend\<close> of a value of \<open>numbits\<close> bits is its value in two's complement.\<close>

lemma signExtend_eq:
  assumes "0 < n" and "n < 32" and "take_bit (unat n) x = x"
  shows "signExtend x n = Some (signed_take_bit (unat n - 1) x)"
proof -
  have "n \<noteq> 0" using assms(1) by auto
  then have u: "unat (n - 1) = unat n - 1" "0 < unat n" "unat n < 32"
    using assms(1,2) unat_minus_one [of n] by (auto simp: word_less_nat_alt)
  have top: "x AND push_bit (unat n - 1) 1 = 0 \<longleftrightarrow> \<not> bit x (unat n - 1)"
    by (simp add: and_exp_eq_0_iff_not_bit push_bit_of_1)
  have above: "\<not> bit x i" if "unat n \<le> i" for i
    using arg_cong [OF assms(3), of "\<lambda>y. bit y i"] that by (simp add: bit_take_bit_iff)
  have m: "push_bit (unat n) 1 - 1 = (mask (unat n) :: u32)" by (simp add: mask_eq_exp_minus_1 push_bit_of_1)
  have last: "i = unat n - 1" if "unat n - Suc 0 \<le> i" "i < unat n" for i using that by arith
  show ?thesis
  proof (cases "bit x (unat n - 1)")
    case True
    have "x OR NOT (mask (unat n)) = signed_take_bit (unat n - 1) x"
      by (rule bit_word_eqI) (use True u(2) in \<open>auto simp: bit_simps min_def dest: last\<close>)
    then show ?thesis using True u assms(2) top m
      by (simp add: signExtend_def shl32_def word_less_nat_alt)
  next
    case False
    have "\<not> bit x i" if "unat n - Suc 0 \<le> i" for i
      using False above [of i] last [OF that] by (cases "i < unat n") auto
    then have "x = signed_take_bit (unat n - 1) x"
      by (intro bit_word_eqI) (auto simp: bit_simps min_def not_le)
    then show ?thesis using False u assms(2) top
      by (simp add: signExtend_def shl32_def word_less_nat_alt)
  qed
qed

section \<open>Lemmas on counting\<close>

text \<open>
  The arithmetic behind \<open>num & (num - 1)\<close> and \<open>num ^ (num - 1)\<close>, on natural numbers, by halving.
\<close>

lemma bits_double: "{i. bit (2 * m) i} = Suc ` {i. bit (m :: nat) i}"
  by (auto simp: bit_double_iff image_iff gr0_conv_Suc)

lemma bits_Suc_double: "{i. bit (Suc (2 * m)) i} = insert 0 (Suc ` {i. bit (m :: nat) i})"
  by (auto simp: bit_Suc image_iff gr0_conv_Suc bit_0) (metis bit_Suc even_Suc_div_two even_mult_iff nonzero_mult_div_cancel_left not0_implies_Suc numeral_2_eq_2 dvd_refl nat.distinct(1))

lemma finite_bits_nat [simp]: "finite {i. bit (n :: nat) i}"
proof (rule finite_subset)
  show "{i. bit n i} \<subseteq> {..<n}"
  proof (clarsimp)
    fix i assume "bit n i"
    then have "2 ^ i \<le> n" by (metis bit_nat_def div_less even_zero not_le)
    then show "i < n" using less_exp [of i] by linarith
  qed
qed simp

lemma card_and_pred: "0 < n \<Longrightarrow> Suc (card {i. bit (n AND (n - 1)) i}) = card {i. bit (n :: nat) i}"
proof (induction n rule: less_induct)
  case (less n)
  show ?case
  proof (cases "even n")
    case True
    then obtain m where m: "n = 2 * m" by (auto elim: evenE)
    with less.prems have "0 < m" "m < n" by auto
    then have "n AND (n - 1) = 2 * (m AND (m - 1))"
      unfolding m by (cases m) (simp_all add: and_nat_rec [of "Suc (Suc _)"])
    then show ?thesis using less.IH [OF \<open>m < n\<close> \<open>0 < m\<close>] m
      by (simp add: bits_double card_image)
  next
    case False
    then obtain m where m: "n = Suc (2 * m)" by (auto elim: oddE)
    then have "n AND (n - 1) = 2 * m" by (simp add: and_nat_rec [of "Suc _"])
    then show ?thesis using m by (simp add: bits_double bits_Suc_double card_image)
  qed
qed

lemma xor_pred: "0 < n \<Longrightarrow> \<exists>k. bit n k \<and> (\<forall>j < k. \<not> bit n j) \<and> {i. bit (n XOR (n - 1)) i} = {..(k :: nat)}" for n :: nat
proof (induction n rule: less_induct)
  case (less n)
  show ?case
  proof (cases "even n")
    case True
    then obtain m where m: "n = 2 * m" by (auto elim: evenE)
    with less.prems have "0 < m" "m < n" by auto
    then obtain k where k: "bit m k" "\<forall>j < k. \<not> bit m j" "{i. bit (m XOR (m - 1)) i} = {..k}"
      using less.IH by blast
    have "n XOR (n - 1) = Suc (2 * (m XOR (m - 1)))"
      using \<open>0 < m\<close> unfolding m by (cases m) (simp_all add: xor_nat_rec [of "Suc (Suc _)"])
    then have "{i. bit (n XOR (n - 1)) i} = {..Suc k}"
      using k(3) by (simp add: bits_Suc_double atMost_Suc_eq_insert_0)
    moreover have "bit n (Suc k)" "\<forall>j < Suc k. \<not> bit n j"
      using k m by (auto simp: bit_double_iff)
    ultimately show ?thesis by blast
  next
    case False
    then obtain m where m: "n = Suc (2 * m)" by (auto elim: oddE)
    then have "n XOR (n - 1) = 1" by (simp add: xor_nat_rec [of "Suc _"])
    then have "{i. bit (n XOR (n - 1)) i} = {..0}" by (auto simp: bit_Suc_0_iff)
    then show ?thesis using m by (intro exI [of _ 0]) (simp add: bit_0)
  qed
qed

lemma bit_unat: "bit (unat x) i \<longleftrightarrow> bit (x :: 'a::len word) i"
  by (auto simp: bit_unsigned_iff dest: bit_imp_le_length)

lemma unat_with_pred:
  fixes x :: "'a::len word"
  assumes "x \<noteq> 0"
  shows "unat x AND (unat x - 1) = unat (x AND (x - 1))" and "unat x XOR (unat x - 1) = unat (x XOR (x - 1))"
  using assms by (simp_all add: unsigned_and_eq unsigned_xor_eq unat_minus_one)

lemma do_popc_eq: "do_popc x r = r + card {i. bit (x :: 'a::len word) i}"
proof (induction x r rule: do_popc.induct)
  case (1 x r)
  show ?case
  proof (cases "x = 0")
    case True
    then show ?thesis by (simp add: do_popc.simps [of 0])
  next
    case False
    have "Suc (card {i. bit (x AND (x - 1)) i}) = card {i. bit x i}"
      using card_and_pred [of "unat x", unfolded unat_with_pred [OF False]] False
      by (simp add: bit_unat unat_gt_0)
    then show ?thesis using False 1 by (simp add: do_popc.simps [of x])
  qed
qed

lemma ari_popc_eq: "ari_popc x = card {i. bit (x :: 'a::len word) i}"
  by (simp add: ari_popc_def do_popc_eq)

lemma ari_ffs_lowest:
  fixes x :: "'a::len word"
  assumes "x \<noteq> 0"
  shows "bit x (ari_ffs x)" and "\<forall>j < ari_ffs x. \<not> bit x j"
proof -
  have n: "NOT (- x) = x - 1" by (simp add: minus_eq_not_minus_1)
  obtain k where k: "bit x k" "\<forall>j < k. \<not> bit x j" "{i. bit (x XOR (x - 1)) i} = {..k}"
    using xor_pred [of "unat x", unfolded unat_with_pred [OF assms]] assms
    by (auto simp: bit_unat unat_gt_0)
  then have "ari_ffs x = k" by (simp add: ari_ffs_def ari_popc_eq n)
  then show "bit x (ari_ffs x)" and "\<forall>j < ari_ffs x. \<not> bit x j" using k by auto
qed

lemma libc_ffs_eq:
  assumes "x \<noteq> 0"
  shows "libc_ffs x = Suc (ari_ffs x)"
proof -
  let ?k = "ari_ffs x"
  have k: "bit x ?k" "\<forall>j < ?k. \<not> bit x j" using ari_ffs_lowest [OF assms] by auto
  then have "?k < 32" using bit_imp_le_length [of x ?k] by simp
  then have "find (bit x) [0..<32] = Some ?k"
    unfolding find_Some_iff using k by (intro exI [of _ ?k]) auto
  then show ?thesis by (simp add: libc_ffs_def)
qed

section \<open>Properties\<close>

text \<open>
  C35: Replacing a field of a word by a value that fits it succeeds for every field that lies within
  the word and is not all of it; reading the field back gives that value, and no other bit changes.
\<close>

theorem replace_then_get:
  assumes "lo \<le> hi" and "hi < 32" and "hi - lo < 31" and "unat r < 2 ^ (unat hi - unat lo + 1)"
  shows "\<exists>w. replaceBits v lo hi r = Some w \<and> getBits w lo hi = Some r \<and>
    (\<forall>i. i < unat lo \<or> unat hi < i \<longrightarrow> bit w i = bit v i)"
proof -
  have "unat hi - unat lo < 31" using assms(1,3) by (simp add: word_less_nat_alt unat_sub)
  moreover have "unat hi < 32" using assms(2) by (simp add: word_less_nat_alt)
  ultimately obtain w where "replaceBits v lo hi r = Some w" "getBits w lo hi = Some r"
    "\<And>i. i < unat lo \<or> unat hi < i \<Longrightarrow> bit w i = bit v i"
    using getBits_replaceBits [OF assms(1) _ _ assms(4)] by blast
  then show ?thesis by blast
qed

theorem replace_then_get_witness:
  "\<exists>w. replaceBits 0xffffffff 14 18 3 = Some w \<and> getBits w 14 18 = Some 3 \<and>
    (\<forall>i. i < unat (14 :: u32) \<or> unat (18 :: u32) < i \<longrightarrow> bit w i = bit (0xffffffff :: u32) i)"
  by (rule replace_then_get) simp_all

text \<open>
  C36: The population count, a loop that clears the lowest set bit until none is left, ends and
  returns the number of set bits at every width; the find-first-set built on it returns the number of
  the lowest set bit of a nonzero word, which is what \<open>get_ffs\<close> computes with the C library.
\<close>

theorem popc_and_ffs:
  "ari_popc (x :: 'a::len word) = card {i. bit x i} \<and>
   (x \<noteq> 0 \<longrightarrow> bit x (ari_ffs x) \<and> (\<forall>j < ari_ffs x. \<not> bit x j)) \<and>
   (y \<noteq> 0 \<longrightarrow> get_ffs y = Some (ari_ffs y))"
  using ari_popc_eq ari_ffs_lowest libc_ffs_eq by (auto simp: get_ffs_def)

theorem popc_and_ffs_witness:
  "ari_popc (40 :: u16) = card {i. bit (40 :: u16) i} \<and> bit (40 :: u16) (ari_ffs (40 :: u16)) \<and>
   get_ffs 96 = Some (ari_ffs (96 :: u32))"
  using popc_and_ffs [of "40 :: u16" 96] by simp

text \<open>
  \<open>setBit\<close> never sets a bit: every bit of the result but the named one is cleared, and that one
  keeps its value; and \<open>replaceBit\<close> with a false value returns its argument unchanged.
\<close>

theorem setBit_never_sets:
  assumes "n < 32"
  shows "\<exists>w. setBit v n = Some w \<and> (\<forall>i. bit w i \<longleftrightarrow> i = unat n \<and> bit v i) \<and>
    replaceBit v n True = Some w \<and> replaceBit v n False = Some v"
  using assms by (auto simp: setBit_def replaceBit_def clearBit_def shl32_def bit_simps word_less_nat_alt)

theorem setBit_never_sets_witness:
  "\<exists>w. setBit 8 2 = Some w \<and> (\<forall>i. bit w i \<longleftrightarrow> i = unat (2 :: u32) \<and> bit (8 :: u32) i) \<and>
    replaceBit 8 2 True = Some w \<and> replaceBit 8 2 False = Some 8"
  by (rule setBit_never_sets) simp

end
