(* ===== verification/Immediates.thy ===== *)
theory Immediates
  imports BitUtils
begin

text \<open>
  Immediate operands of machine instructions: the templates \<open>simmediate<numbits>\<close> and
  \<open>uimmediate<numbits>\<close> of \<open>kerninstd/immediates/src/simm.h\<close> and \<open>uimm.h\<close>, with which the daemon
  assembles instruction words field by field. The template parameter is the argument \<open>n\<close>; the single
  member \<open>value\<close> is its 32-bit pattern. A \<open>long\<close> argument is an integer, converted to 32 bits where
  the code converts it.
\<close>

section \<open>Signed immediates\<close>

definition simm_getMaxUnsignedAllowableValue :: "u32 \<Rightarrow> u32" where
  "simm_getMaxUnsignedAllowableValue n = word_of_int (2 ^ unat n - 1)"

definition simm_getMaxAllowableValue :: "u32 \<Rightarrow> int" where
  "simm_getMaxAllowableValue n = 2 ^ (unat n - 1) - 1"

definition simm_getMinAllowableValue :: "u32 \<Rightarrow> int" where
  "simm_getMinAllowableValue n = - (2 ^ (unat n - 1))"

definition simm_inrange :: "u32 \<Rightarrow> int \<Rightarrow> bool" where
  "simm_inrange n v =
     (if 0 < v then (word_of_int v :: u32) \<le> simm_getMaxUnsignedAllowableValue n
      else simm_getMinAllowableValue n \<le> v)"

text \<open>The constructor and the assignment from a \<open>long\<close> check the range alike.\<close>

definition simmediate :: "u32 \<Rightarrow> int \<Rightarrow> u32 option" where
  "simmediate n ivalue = do { assert (simm_inrange n ivalue); Some (word_of_int ivalue) }"

definition simm_assign :: "u32 \<Rightarrow> u32 \<Rightarrow> int \<Rightarrow> u32 option" where
  "simm_assign n value newvalue = do { assert (simm_inrange n newvalue); Some (word_of_int newvalue) }"

text \<open>\<open>operator|=\<close>, with the check that the upper bits have not changed.\<close>

definition simm_or :: "u32 \<Rightarrow> u32 \<Rightarrow> u32 \<Rightarrow> u32 option" where
  "simm_or n result imm = do {
     m \<leftarrow> shl32 1 n;
     let mask = m - 1;
     let result' = result OR (imm AND mask);
     assert (result AND NOT mask = result' AND NOT mask);
     Some result'
   }"

definition simm_replaceBits :: "u32 \<Rightarrow> u32 \<Rightarrow> u32 \<Rightarrow> u32 \<Rightarrow> u32 option" where
  "simm_replaceBits n orig loBit imm = do {
     m \<leftarrow> shl32 1 n;
     replaceBits orig loBit (loBit + n - 1) (imm AND (m - 1))
   }"

definition simm_rollin :: "u32 \<Rightarrow> u32 \<Rightarrow> u32 \<Rightarrow> u32 option" where
  "simm_rollin n result imm = do { r \<leftarrow> shl32 result n; simm_or n r imm }"

section \<open>Unsigned immediates\<close>

definition uimm_getMaxAllowableValue :: "u32 \<Rightarrow> u32 option" where
  "uimm_getMaxAllowableValue n = do { m \<leftarrow> shl32 1 n; Some (m - 1) }"

definition uimm_inrange :: "u32 \<Rightarrow> u32 \<Rightarrow> bool option" where
  "uimm_inrange n v = do { maxallowablevalue \<leftarrow> uimm_getMaxAllowableValue n; Some (v \<le> maxallowablevalue) }"

definition uimmediate :: "u32 \<Rightarrow> u32 \<Rightarrow> u32 option" where
  "uimmediate n ivalue = do { ok \<leftarrow> uimm_inrange n ivalue; assert ok; Some ivalue }"

definition uimm_assign :: "u32 \<Rightarrow> u32 \<Rightarrow> u32 \<Rightarrow> u32 option" where
  "uimm_assign n value newvalue = do { ok \<leftarrow> uimm_inrange n newvalue; assert ok; Some newvalue }"

definition uimm_or :: "u32 \<Rightarrow> u32 \<Rightarrow> u32" where
  "uimm_or result imm = result OR imm"

definition uimm_replaceBits :: "u32 \<Rightarrow> u32 \<Rightarrow> u32 \<Rightarrow> u32 \<Rightarrow> u32 option" where
  "uimm_replaceBits n orig loBit imm = replaceBits orig loBit (loBit + n - 1) imm"

definition uimm_rollin :: "u32 \<Rightarrow> u32 \<Rightarrow> u32 \<Rightarrow> u32 option" where
  "uimm_rollin n result imm = do { r \<leftarrow> shl32 result n; Some (uimm_or r imm) }"

section \<open>Lemmas\<close>

lemma simm_or_eq: "n < 32 \<Longrightarrow> simm_or n r imm = Some (r OR take_bit (unat n) imm)"
proof -
  assume n: "n < 32"
  have "r AND NOT (mask (unat n)) = (r OR take_bit (unat n) imm) AND NOT (mask (unat n))"
    by (rule bit_word_eqI) (auto simp: bit_simps)
  moreover have "push_bit (unat n) 1 - 1 = (mask (unat n) :: u32)"
    by (simp add: mask_eq_exp_minus_1 push_bit_of_1)
  ultimately show ?thesis using n
    by (simp add: simm_or_def shl32_def Let_def take_bit_eq_mask)
qed

lemma simm_rollin_eq:
  "n < 32 \<Longrightarrow> simm_rollin n r imm = Some (push_bit (unat n) r OR take_bit (unat n) imm)"
  by (simp add: simm_rollin_def shl32_def simm_or_eq)

lemma simmediate_eq:
  assumes "0 < n" and "n < 32"
    and "simm_getMinAllowableValue n \<le> v" and "v \<le> simm_getMaxAllowableValue n"
  shows "simmediate n v = Some (word_of_int v)"
proof -
  have pos: "(0 :: int) < 2 ^ (unat n - 1)" by simp
  have "2 ^ unat n \<le> (2 ^ 31 :: int)" using assms(2) by (intro power_increasing) (auto simp: word_less_nat_alt)
  moreover have "2 ^ unat n = 2 * (2 :: int) ^ (unat n - 1)"
    using assms(1) by (cases "unat n") (auto simp: word_less_nat_alt)
  ultimately have range: "0 \<le> (2 :: int) ^ unat n - 1" "2 ^ unat n - 1 < (2 :: int) ^ 32"
    "v \<le> 2 ^ unat n - 1" using assms(4) pos
    unfolding simm_getMaxAllowableValue_def by (simp, simp, linarith)
  have uint32: "uint (word_of_int i :: u32) = i" if "0 \<le> i" "i < 2 ^ 32" for i
    using that by (simp add: uint_word_of_int_eq take_bit_int_eq_self)
  have "(word_of_int v :: u32) \<le> simm_getMaxUnsignedAllowableValue n" if "0 < v"
    unfolding simm_getMaxUnsignedAllowableValue_def word_le_def
    using that range uint32 [of v] uint32 [OF range(1,2)] by simp
  then show ?thesis using assms(3) by (simp add: simmediate_def simm_inrange_def)
qed

lemma low_field:
  "take_bit n (push_bit n r OR take_bit n x) = take_bit n (x :: u32)"
  "drop_bit n (push_bit n r OR take_bit n x) = take_bit (32 - n) (r :: u32)"
  by (rule bit_word_eqI; auto simp: bit_simps)+

lemma sint_signed_take_bit:
  assumes "0 < k" "k < 32" and "- (2 ^ (k - 1)) \<le> v" and "v < 2 ^ (k - 1)"
  shows "sint (signed_take_bit (k - 1) (take_bit k (word_of_int v :: u32))) = v"
proof -
  have "signed_take_bit (k - 1) (take_bit k (word_of_int v :: u32)) = word_of_int v"
  proof (rule bit_word_eqI)
    fix i assume "i < LENGTH(32)"
    have "signed_take_bit (k - 1) v = v" using assms by (simp add: signed_take_bit_int_eq_self)
    from arg_cong [OF this, of "\<lambda>x. bit x i"] have "bit v (min i (k - 1)) = bit v i"
      by (simp add: bit_signed_take_bit_iff min.commute)
    then show "bit (signed_take_bit (k - 1) (take_bit k (word_of_int v :: u32))) i = bit (word_of_int v :: u32) i"
      using \<open>i < LENGTH(32)\<close> assms(1,2) by (auto simp: bit_simps min_def split: if_splits)
  qed
  moreover have "- (2 ^ 31) \<le> v" "v < 2 ^ 31"
    using assms power_increasing [of "k - 1" 31 "2 :: int"] by linarith+
  ultimately show ?thesis by (simp add: sint_sbintrunc' signed_take_bit_int_eq_self)
qed

section \<open>Properties\<close>

text \<open>
  C37: A signed value of \<open>n\<close> bits that is made an immediate and rolled into an instruction word is
  read back from the word by taking its low field and sign extending it, and the field leaves the bits
  rolled in before it unchanged above; no assertion fails.
\<close>

theorem simm_rollin_signExtend:
  assumes "0 < n" and "n < 32"
    and "simm_getMinAllowableValue n \<le> v" and "v \<le> simm_getMaxAllowableValue n"
  shows "\<exists>imm w b s. simmediate n v = Some imm \<and> simm_rollin n result imm = Some w \<and>
    getBitsFrom0 w (n - 1) = Some b \<and> signExtend b n = Some s \<and> sint s = v \<and>
    drop_bit (unat n) w = take_bit (32 - unat n) result"
proof -
  have n: "0 < unat n" "unat n < 32" using assms(1,2) by (auto simp: word_less_nat_alt)
  then have n1: "unat (n - 1) = unat n - 1" using unat_minus_one [of n] assms(1) by auto
  define w where "w = push_bit (unat n) result OR take_bit (unat n) (word_of_int v)"
  have "take_bit (unat n) w = take_bit (unat n) (word_of_int v)" unfolding w_def by (rule low_field)
  then have b: "getBitsFrom0 w (n - 1) = Some (take_bit (unat n) (word_of_int v))"
    using n n1 by (simp add: getBitsFrom0_eq)
  have "signExtend (take_bit (unat n) (word_of_int v)) n =
      Some (signed_take_bit (unat n - 1) (take_bit (unat n) (word_of_int v)))"
    using assms(1,2) by (intro signExtend_eq) simp_all
  moreover have "sint (signed_take_bit (unat n - 1) (take_bit (unat n) (word_of_int v :: u32))) = v"
    using assms(3,4) n
    by (intro sint_signed_take_bit) (auto simp: simm_getMinAllowableValue_def simm_getMaxAllowableValue_def)
  ultimately show ?thesis
    using simmediate_eq [OF assms] simm_rollin_eq [OF assms(2)] b low_field(2) by (auto simp: w_def)
qed

theorem simm_rollin_signExtend_witness:
  "\<exists>imm w b s. simmediate 13 (- 8) = Some imm \<and> simm_rollin 13 0x1e7 imm = Some w \<and>
    getBitsFrom0 w (13 - 1) = Some b \<and> signExtend b 13 = Some s \<and> sint s = - 8 \<and>
    drop_bit (unat (13 :: u32)) w = take_bit (32 - unat (13 :: u32)) 0x1e7"
  by (rule simm_rollin_signExtend)
    (simp_all add: simm_getMinAllowableValue_def simm_getMaxAllowableValue_def)

end
