(* ===== verification/Dictionary.thy ===== *)
theory Dictionary
  imports BitUtils
begin

text \<open>
  The dictionary of the daemon and the tools, \<open>dictionary_hash<K,V>\<close> and its iterator of
  \<open>util/h/Dictionary.h\<close>, with the hash functions of \<open>util/src/hashFns.C\<close>. All entries live in one
  vector; the bins hold the index of the first entry of a collision chain, and an entry holds the
  index of the next one. The index \<open>UINT_MAX\<close>, which ends a chain, is \<^const>\<open>None\<close>. Removal only
  marks an entry; marked entries are dropped when the number of bins grows. A failed assertion, and an
  access outside of a vector, is the result \<^const>\<open>None\<close>. Sizes are natural numbers; the products of
  sizes, which the code computes in 32 bits, wrap.
\<close>

section \<open>Hash functions\<close>

lemma unat_drop_2_less: "val \<noteq> 0 \<Longrightarrow> unat (drop_bit 2 (val :: 'a::len word)) < unat val"
  unfolding unat_drop_bit_eq by (simp add: drop_bit_eq_div unat_gt_0)

function addrHash_loop :: "'a::len word \<Rightarrow> u32 \<Rightarrow> u32" where
  "addrHash_loop val result =
     (if val = 0 then result
      else addrHash_loop (drop_bit 2 val) (push_bit 1 result + result + ucast (val AND 3)))"
  by pat_completeness auto
termination
  by (relation "measure (\<lambda>(v, _). unat v)") (auto simp: unat_drop_2_less)

declare addrHash_loop.simps [simp del]

definition addrHash :: "'a::len word \<Rightarrow> u32" where
  "addrHash addr = addrHash_loop addr 0"

definition addrHash4 :: "'a::len word \<Rightarrow> u32" where
  "addrHash4 addr = addrHash (drop_bit 2 addr)"

definition addrHash16 :: "'a::len word \<Rightarrow> u32" where
  "addrHash16 addr = addrHash (drop_bit 4 addr)"

text \<open>The characters of a C string, without the null; \<open>char\<close> is signed.\<close>

definition cStrHash :: "u8 list \<Rightarrow> u32" where
  "cStrHash str = fold (\<lambda>c result. push_bit 1 result + result + scast c) str 0"

section \<open>State\<close>

record ('k, 'v) entry =
  e_key :: 'k
  e_val :: 'v
  key_hashval :: u32
  e_removed :: bool
  e_next :: "nat option"

record ('k, 'v) dictionary_hash =
  d_elems :: "('k, 'v) entry list"
  d_bins :: "nat option list"
  num_removed_elems :: nat
  max_bin_load :: nat
  bin_grow_factor :: nat
  hasher :: "'k \<Rightarrow> u32"

definition enoughBins :: "('k, 'v) dictionary_hash \<Rightarrow> bool" where
  "enoughBins d \<longleftrightarrow> length (d_elems d) \<le> (length (d_bins d) * max_bin_load d) mod 2 ^ 32"

definition enoughBinsIf1MoreItemAdded :: "('k, 'v) dictionary_hash \<Rightarrow> bool" where
  "enoughBinsIf1MoreItemAdded d \<longleftrightarrow>
     (length (d_elems d) + 1) mod 2 ^ 32 \<le> (length (d_bins d) * max_bin_load d) mod 2 ^ 32"

definition dictionary_hash_new ::
  "('k \<Rightarrow> u32) \<Rightarrow> nat \<Rightarrow> nat \<Rightarrow> ('k, 'v) dictionary_hash option" where
  "dictionary_hash_new hf nbins imax_bin_load = do {
     assert (imax_bin_load > 0);
     assert (imax_bin_load < 1000);
     assert (nbins > 0);
     let d = \<lparr>d_elems = [], d_bins = replicate nbins None, num_removed_elems = 0,
              max_bin_load = imax_bin_load, bin_grow_factor = 2, hasher = hf\<rparr>;
     assert (enoughBins d);
     Some d
   }"

definition dict_copy :: "('k, 'v) dictionary_hash \<Rightarrow> ('k, 'v) dictionary_hash option" where
  "dict_copy src = do { assert (enoughBins src); Some src }"

definition dict_assign ::
  "('k, 'v) dictionary_hash \<Rightarrow> ('k, 'v) dictionary_hash \<Rightarrow> ('k, 'v) dictionary_hash option" where
  "dict_assign d src = (if src = d then Some d else do { assert (enoughBins src); Some src })"

definition dict_size :: "('k, 'v) dictionary_hash \<Rightarrow> nat option" where
  "dict_size d = do {
     assert (num_removed_elems d \<le> length (d_elems d));
     Some (length (d_elems d) - num_removed_elems d)
   }"

section \<open>Finding an entry\<close>

text \<open>The loop over a collision chain.\<close>

partial_function (option) locate_loop ::
  "('k, 'v) entry list \<Rightarrow> nat \<Rightarrow> nat \<Rightarrow> u32 \<Rightarrow> 'k \<Rightarrow> bool \<Rightarrow> nat option \<Rightarrow> nat option option" where
  "locate_loop es nbins bin hashval key evenIfRemoved p =
     (case p of
        None \<Rightarrow> Some None
      | Some i \<Rightarrow>
          (if length es \<le> i \<or> unat (key_hashval (es ! i)) mod nbins \<noteq> bin then None
           else if key_hashval (es ! i) = hashval \<and> e_key (es ! i) = key then
             Some (if e_removed (es ! i) \<and> \<not> evenIfRemoved then None else Some i)
           else locate_loop es nbins bin hashval key evenIfRemoved (e_next (es ! i))))"

definition hash31 :: "('k, 'v) dictionary_hash \<Rightarrow> 'k \<Rightarrow> u32" where
  "hash31 d key = hasher d key AND 0x7fffffff"

definition locate :: "('k, 'v) dictionary_hash \<Rightarrow> 'k \<Rightarrow> bool \<Rightarrow> nat option option" where
  "locate d key evenIfRemoved =
     (let hashval = hash31 d key; nbins = length (d_bins d); bin = unat hashval mod nbins
      in locate_loop (d_elems d) nbins bin hashval key evenIfRemoved (d_bins d ! bin))"

section \<open>Growing\<close>

text \<open>Entries marked as removed are replaced by the last one; the index stays in that case.\<close>

function purge :: "nat \<Rightarrow> ('k, 'v) entry list \<Rightarrow> nat \<Rightarrow> ('k, 'v) entry list \<times> nat" where
  "purge lcv es nrem =
     (if lcv < length es then
        if e_removed (es ! lcv) then purge lcv (swap_remove lcv es) (nrem - 1)
        else purge (lcv + 1) es nrem
      else (es, nrem))"
  by pat_completeness auto
termination
  by (relation "measure (\<lambda>(lcv, es, _). length es - lcv)") auto

declare purge.simps [simp del]

text \<open>The entries with the given indices are put at the heads of their bins, in that order.\<close>

fun rehash :: "nat list \<Rightarrow> ('k, 'v) entry list \<Rightarrow> nat option list \<Rightarrow>
  (('k, 'v) entry list \<times> nat option list) option" where
  "rehash [] es bs = Some (es, bs)"
| "rehash (lcv # lcvs) es bs =
     (if e_removed (es ! lcv) then None
      else
        let bin = unat (key_hashval (es ! lcv)) mod length bs
        in rehash lcvs (es[lcv := (es ! lcv)\<lparr>e_next := bs ! bin\<rparr>]) (bs[bin := Some lcv]))"

definition grow_numbins :: "('k, 'v) dictionary_hash \<Rightarrow> nat \<Rightarrow> ('k, 'v) dictionary_hash option" where
  "grow_numbins d new_numbins = do {
     assert (new_numbins > length (d_bins d));
     let bs = replicate new_numbins None;
     let (es, nrem) = (if num_removed_elems d > 0 then purge 0 (d_elems d) (num_removed_elems d)
                       else (d_elems d, num_removed_elems d));
     assert (num_removed_elems d > 0 \<longrightarrow> nrem = 0);
     (es', bs') \<leftarrow> rehash [0..<length es] es bs;
     let d' = d\<lparr>d_elems := es', d_bins := bs', num_removed_elems := nrem\<rparr>;
     assert (enoughBins d');
     Some d'
   }"

section \<open>Adding and removing\<close>

text \<open>The second part of \<open>add\<close>, after the bins have grown where needed.\<close>

definition add_entry :: "('k, 'v) dictionary_hash \<Rightarrow> 'k \<Rightarrow> 'v \<Rightarrow> (nat \<times> ('k, 'v) dictionary_hash) option" where
  "add_entry d key val = do {
     let hashval = hash31 d key;
     let bin = unat hashval mod length (d_bins d);
     let e = \<lparr>e_key = key, e_val = val, key_hashval = hashval, e_removed = False,
              e_next = d_bins d ! bin\<rparr>;
     let es = d_elems d @ [e];
     let new_entry_ndx = length es - 1;
     let d' = d\<lparr>d_elems := es, d_bins := (d_bins d)[bin := Some new_entry_ndx]\<rparr>;
     assert (enoughBins d');
     Some (new_entry_ndx, d')
   }"

definition add :: "('k, 'v) dictionary_hash \<Rightarrow> 'k \<Rightarrow> 'v \<Rightarrow> (nat \<times> ('k, 'v) dictionary_hash) option" where
  "add d key val = do {
     assert (enoughBins d);
     d1 \<leftarrow> (if \<not> enoughBinsIf1MoreItemAdded d then do {
              let new_numbins = (length (d_bins d) * bin_grow_factor d) mod 2 ^ 32;
              assert (new_numbins > length (d_bins d));
              d1 \<leftarrow> grow_numbins d new_numbins;
              assert (enoughBinsIf1MoreItemAdded d1);
              Some d1
            } else Some d);
     add_entry d1 key val
   }"

definition set_entry ::
  "('k, 'v) dictionary_hash \<Rightarrow> nat \<Rightarrow> (('k, 'v) entry \<Rightarrow> ('k, 'v) entry) \<Rightarrow> ('k, 'v) dictionary_hash" where
  "set_entry d ndx f = d\<lparr>d_elems := (d_elems d)[ndx := f (d_elems d ! ndx)]\<rparr>"

text \<open>\<open>set\<close>: the key must not be in the dictionary.\<close>

definition dict_set :: "('k, 'v) dictionary_hash \<Rightarrow> 'k \<Rightarrow> 'v \<Rightarrow> ('k, 'v) dictionary_hash option" where
  "dict_set d key val = do {
     r \<leftarrow> locate d key True;
     (case r of
        Some ndx \<Rightarrow>
          (if e_removed (d_elems d ! ndx) then do {
             assert (num_removed_elems d > 0);
             Some ((set_entry d ndx (\<lambda>e. e\<lparr>e_val := val, e_removed := False\<rparr>))
                     \<lparr>num_removed_elems := num_removed_elems d - 1\<rparr>)
           } else None)
      | None \<Rightarrow> do { (_, d') \<leftarrow> add d key val; Some d' })
   }"

text \<open>\<open>dflt\<close> is the value \<open>V()\<close>.\<close>

definition locate_addIfNotFound ::
  "'v \<Rightarrow> ('k, 'v) dictionary_hash \<Rightarrow> 'k \<Rightarrow> (nat \<times> ('k, 'v) dictionary_hash) option" where
  "locate_addIfNotFound dflt d key = do {
     r \<leftarrow> locate d key True;
     (case r of
        None \<Rightarrow> add d key dflt
      | Some ndx \<Rightarrow>
          (if e_removed (d_elems d ! ndx) then do {
             assert (num_removed_elems d > 0);
             Some (ndx, (set_entry d ndx (\<lambda>e. e\<lparr>e_val := dflt, e_removed := False\<rparr>))
                     \<lparr>num_removed_elems := num_removed_elems d - 1\<rparr>)
           } else Some (ndx, d)))
   }"

text \<open>\<open>operator[]\<close> used as the target of an assignment: \<open>d[key] = val\<close>.\<close>

definition dict_index_assign ::
  "'v \<Rightarrow> ('k, 'v) dictionary_hash \<Rightarrow> 'k \<Rightarrow> 'v \<Rightarrow> ('k, 'v) dictionary_hash option" where
  "dict_index_assign dflt d key val = do {
     (ndx, d') \<leftarrow> locate_addIfNotFound dflt d key;
     Some (set_entry d' ndx (\<lambda>e. e\<lparr>e_val := val\<rparr>))
   }"

text \<open>\<open>operator[]\<close> used as a value.\<close>

definition dict_index ::
  "'v \<Rightarrow> ('k, 'v) dictionary_hash \<Rightarrow> 'k \<Rightarrow> ('v \<times> ('k, 'v) dictionary_hash) option" where
  "dict_index dflt d key = do {
     (ndx, d') \<leftarrow> locate_addIfNotFound dflt d key;
     Some (e_val (d_elems d' ! ndx), d')
   }"

definition dict_get :: "('k, 'v) dictionary_hash \<Rightarrow> 'k \<Rightarrow> 'v option" where
  "dict_get d key = do {
     r \<leftarrow> locate d key False;
     (case r of None \<Rightarrow> None | Some ndx \<Rightarrow> Some (e_val (d_elems d ! ndx)))
   }"

definition dict_find :: "('k, 'v) dictionary_hash \<Rightarrow> 'k \<Rightarrow> 'v option option" where
  "dict_find d key = do {
     r \<leftarrow> locate d key False;
     Some (map_option (\<lambda>ndx. e_val (d_elems d ! ndx)) r)
   }"

definition dict_defines :: "('k, 'v) dictionary_hash \<Rightarrow> 'k \<Rightarrow> bool option" where
  "dict_defines d key = do { r \<leftarrow> locate d key False; Some (r \<noteq> None) }"

text \<open>
  The common part of \<open>get_and_remove\<close>, \<open>find_and_remove\<close> and \<open>undef\<close>: mark the entry and compare the
  sizes before and after.
\<close>

definition mark_removed :: "('k, 'v) dictionary_hash \<Rightarrow> nat \<Rightarrow> ('k, 'v) dictionary_hash option" where
  "mark_removed d ndx = do {
     oldsize \<leftarrow> dict_size d;
     assert (\<not> e_removed (d_elems d ! ndx));
     let d' = (set_entry d ndx (\<lambda>e. e\<lparr>e_removed := True\<rparr>))\<lparr>num_removed_elems := num_removed_elems d + 1\<rparr>;
     assert (num_removed_elems d' \<le> length (d_elems d'));
     newsize \<leftarrow> dict_size d';
     assert (newsize + 1 = oldsize);
     Some d'
   }"

definition get_and_remove ::
  "('k, 'v) dictionary_hash \<Rightarrow> 'k \<Rightarrow> ('v \<times> ('k, 'v) dictionary_hash) option" where
  "get_and_remove d key = do {
     r \<leftarrow> locate d key False;
     (case r of
        None \<Rightarrow> None
      | Some ndx \<Rightarrow> do { d' \<leftarrow> mark_removed d ndx; Some (e_val (d_elems d' ! ndx), d') })
   }"

definition find_and_remove ::
  "('k, 'v) dictionary_hash \<Rightarrow> 'k \<Rightarrow> ('v option \<times> ('k, 'v) dictionary_hash) option" where
  "find_and_remove d key = do {
     r \<leftarrow> locate d key False;
     (case r of
        None \<Rightarrow> Some (None, d)
      | Some ndx \<Rightarrow> do { d' \<leftarrow> mark_removed d ndx; Some (Some (e_val (d_elems d' ! ndx)), d') })
   }"

definition dict_undef :: "('k, 'v) dictionary_hash \<Rightarrow> 'k \<Rightarrow> ('k, 'v) dictionary_hash option" where
  "dict_undef d key = do {
     r \<leftarrow> locate d key False;
     (case r of None \<Rightarrow> Some d | Some ndx \<Rightarrow> mark_removed d ndx)
   }"

definition dict_clear :: "('k, 'v) dictionary_hash \<Rightarrow> ('k, 'v) dictionary_hash option" where
  "dict_clear d = do {
     let d' = d\<lparr>d_elems := [], d_bins := map (\<lambda>_. None) (d_bins d), num_removed_elems := 0\<rparr>;
     n \<leftarrow> dict_size d';
     assert (n = 0);
     assert (enoughBins d');
     Some d'
   }"

section \<open>Iterators\<close>

text \<open>An iterator is the index of the entry it points to; the end is the number of entries.\<close>

function make_valid_or_end :: "('k, 'v) entry list \<Rightarrow> nat \<Rightarrow> nat" where
  "make_valid_or_end es i = (if i < length es \<and> e_removed (es ! i) then make_valid_or_end es (i + 1) else i)"
  by pat_completeness auto
termination
  by (relation "measure (\<lambda>(es, i). length es - i)") auto

declare make_valid_or_end.simps [simp del]

definition move_to_next :: "('k, 'v) entry list \<Rightarrow> nat \<Rightarrow> nat" where
  "move_to_next es i = make_valid_or_end es (i + 1)"

definition dict_begin :: "('k, 'v) dictionary_hash \<Rightarrow> nat" where
  "dict_begin d = make_valid_or_end (d_elems d) 0"

lemma make_valid_or_end_ge: "i \<le> make_valid_or_end es i"
proof (induction es i rule: make_valid_or_end.induct)
  case (1 es i)
  then show ?case by (subst make_valid_or_end.simps) auto
qed

text \<open>\<open>next\<close> of the iterator.\<close>

function iter_next :: "('k, 'v) entry list \<Rightarrow> nat \<Rightarrow> ('k \<times> 'v) option \<times> nat" where
  "iter_next es i =
     (if i < length es then
        if \<not> e_removed (es ! i) then (Some (e_key (es ! i), e_val (es ! i)), i + 1)
        else iter_next es (i + 1)
      else (None, i))"
  by pat_completeness auto
termination
  by (relation "measure (\<lambda>(es, i). length es - i)") auto

declare iter_next.simps [simp del]

text \<open>The loop of \<open>keys\<close>, \<open>values\<close> and \<open>keysAndValues\<close>.\<close>

function collect :: "(('k, 'v) entry \<Rightarrow> 'b) \<Rightarrow> ('k, 'v) entry list \<Rightarrow> nat \<Rightarrow> 'b list" where
  "collect f es i = (if i < length es then f (es ! i) # collect f es (move_to_next es i) else [])"
  by pat_completeness auto
termination
  using make_valid_or_end_ge [of "Suc _"]
  by (relation "measure (\<lambda>(f, es, i). length es - i)")
    (auto simp: move_to_next_def Suc_le_eq intro!: diff_less_mono2)

declare collect.simps [simp del]

definition dict_keys :: "('k, 'v) dictionary_hash \<Rightarrow> 'k list" where
  "dict_keys d = collect e_key (d_elems d) (dict_begin d)"

definition dict_values :: "('k, 'v) dictionary_hash \<Rightarrow> 'v list" where
  "dict_values d = collect e_val (d_elems d) (dict_begin d)"

definition keysAndValues :: "('k, 'v) dictionary_hash \<Rightarrow> ('k \<times> 'v) list" where
  "keysAndValues d = collect (\<lambda>e. (e_key e, e_val e)) (d_elems d) (dict_begin d)"

end
