(* ===== verification/DictionaryMap.thy ===== *)
theory DictionaryMap
  imports Dictionary
begin

text \<open>
  Correctness of the dictionary: its invariant, that every operation keeps it, and that the dictionary
  behaves as a finite map.
\<close>

section \<open>Invariant and abstraction\<close>

text \<open>
  The chain of a bin, when the entries below \<open>j\<close> have been hashed: their indices in descending
  order, because every new entry becomes the head of its bin.
\<close>

definition in_bin :: "('k, 'v) entry list \<Rightarrow> nat \<Rightarrow> nat \<Rightarrow> nat \<Rightarrow> nat list" where
  "in_bin es n b j = rev (filter (\<lambda>i. unat (key_hashval (es ! i)) mod n = b) [0..<j])"

definition chains_ok :: "('k, 'v) entry list \<Rightarrow> nat option list \<Rightarrow> nat \<Rightarrow> bool" where
  "chains_ok es bs j \<longleftrightarrow>
     (\<forall>b < length bs. chain (\<lambda>i. e_next (es ! i)) (bs ! b) (in_bin es (length bs) b j))"

definition dict_inv :: "('k, 'v) dictionary_hash \<Rightarrow> bool" where
  "dict_inv d \<longleftrightarrow> d_bins d \<noteq> [] \<and> 0 < max_bin_load d \<and> bin_grow_factor d = 2 \<and>
     length (d_bins d) * max_bin_load d < 2 ^ 32 \<and>
     length (d_elems d) \<le> length (d_bins d) * max_bin_load d \<and>
     num_removed_elems d = length (filter e_removed (d_elems d)) \<and>
     distinct (map e_key (d_elems d)) \<and>
     (\<forall>e \<in> set (d_elems d). key_hashval e = hash31 d (e_key e)) \<and>
     chains_ok (d_elems d) (d_bins d) (length (d_elems d))"

lemma dict_invD:
  assumes "dict_inv d"
  shows dict_inv_bins: "d_bins d \<noteq> []" and dict_inv_load: "0 < max_bin_load d" "bin_grow_factor d = 2"
    and dict_inv_cap: "length (d_bins d) * max_bin_load d < 2 ^ 32"
      "length (d_elems d) \<le> length (d_bins d) * max_bin_load d"
    and dict_inv_nrem: "num_removed_elems d = length (filter e_removed (d_elems d))"
    and dict_inv_distinct: "distinct (map e_key (d_elems d))"
    and dict_inv_hash: "\<And>e. e \<in> set (d_elems d) \<Longrightarrow> key_hashval e = hash31 d (e_key e)"
    and dict_inv_chains: "chains_ok (d_elems d) (d_bins d) (length (d_elems d))"
  using assms unfolding dict_inv_def by blast+

lemma dict_invI:
  assumes "d_bins d \<noteq> []" "0 < max_bin_load d" "bin_grow_factor d = 2"
    and "length (d_bins d) * max_bin_load d < 2 ^ 32" "length (d_elems d) \<le> length (d_bins d) * max_bin_load d"
    and "num_removed_elems d = length (filter e_removed (d_elems d))" "distinct (map e_key (d_elems d))"
    and "\<And>e. e \<in> set (d_elems d) \<Longrightarrow> key_hashval e = hash31 d (e_key e)"
    and "chains_ok (d_elems d) (d_bins d) (length (d_elems d))"
  shows "dict_inv d"
  using assms unfolding dict_inv_def by blast

definition live :: "('k, 'v) entry list \<Rightarrow> ('k \<times> 'v) list" where
  "live es = map (\<lambda>e. (e_key e, e_val e)) (filter (\<lambda>e. \<not> e_removed e) es)"

definition dict_map :: "('k, 'v) dictionary_hash \<Rightarrow> 'k \<rightharpoonup> 'v" where
  "dict_map d = map_of (live (d_elems d))"

text \<open>The index of the entry of a key, removed or not.\<close>

definition key_ndx :: "('k, 'v) entry list \<Rightarrow> 'k \<Rightarrow> nat option" where
  "key_ndx es key = find_ndx (\<lambda>k. k = key) (map e_key es)"

lemma key_ndx_None: "key_ndx es key = None \<longleftrightarrow> key \<notin> e_key ` set es"
  by (auto simp: key_ndx_def find_ndx_None)

lemma key_ndx_SomeD: "key_ndx es key = Some i \<Longrightarrow> i < length es \<and> e_key (es ! i) = key"
  by (auto simp: key_ndx_def dest: find_ndx_SomeD)

lemma key_ndx_nth:
  assumes "distinct (map e_key es)" and "i < length es"
  shows "key_ndx es (e_key (es ! i)) = Some i"
proof (cases "key_ndx es (e_key (es ! i))")
  case None
  then show ?thesis using assms(2) by (auto simp: key_ndx_None)
next
  case (Some j)
  then have "j < length es" "e_key (es ! j) = e_key (es ! i)" using key_ndx_SomeD [OF Some] by auto
  then show ?thesis using assms Some by (auto simp: distinct_conv_nth)
qed

lemma distinct_live: "distinct (map e_key es) \<Longrightarrow> distinct (map fst (live es))"
  by (simp add: live_def comp_def distinct_map_filter)

lemma map_of_live:
  assumes "distinct (map e_key es)"
  shows "map_of (live es) key =
    (case key_ndx es key of None \<Rightarrow> None
     | Some i \<Rightarrow> if e_removed (es ! i) then None else Some (e_val (es ! i)))"
proof (cases "key_ndx es key")
  case None
  then have "key \<notin> fst ` set (live es)" by (auto simp: key_ndx_None live_def)
  then show ?thesis using None by (simp add: map_of_eq_None_iff)
next
  case (Some i)
  then have i: "i < length es" "e_key (es ! i) = key" using key_ndx_SomeD [OF Some] by auto
  have only: "e = es ! i" if "e \<in> set es" "e_key e = key" for e
    using that i assms by (auto simp: in_set_conv_nth distinct_conv_nth)
  show ?thesis
  proof (cases "e_removed (es ! i)")
    case True
    then have "key \<notin> fst ` set (live es)" using only by (auto simp: live_def)
    then show ?thesis using Some True by (simp add: map_of_eq_None_iff)
  next
    case False
    then have "es ! i \<in> set (filter (\<lambda>e. \<not> e_removed e) es)" using i by simp
    then have "(e_key (es ! i), e_val (es ! i)) \<in> set (live es)"
      unfolding live_def set_map by (rule imageI)
    then have "map_of (live es) key = Some (e_val (es ! i))"
      using distinct_live [OF assms] i(2) by simp
    then show ?thesis using Some False by simp
  qed
qed

section \<open>Locating\<close>

lemma locate_loop_eq:
  "chain (\<lambda>i. e_next (es ! i)) p is \<Longrightarrow>
   (\<And>i. i \<in> set is \<Longrightarrow> i < length es \<and> unat (key_hashval (es ! i)) mod n = b) \<Longrightarrow>
   locate_loop es n b h key ev p =
     Some (case find (\<lambda>i. key_hashval (es ! i) = h \<and> e_key (es ! i) = key) is of None \<Rightarrow> None
           | Some i \<Rightarrow> if e_removed (es ! i) \<and> \<not> ev then None else Some i)"
proof (induction "is" arbitrary: p)
  case Nil
  then show ?case by (simp add: locate_loop.simps)
next
  case (Cons i "is")
  from Cons.prems(1) have p: "p = Some i" "chain (\<lambda>i. e_next (es ! i)) (e_next (es ! i)) is" by auto
  have i: "i < length es" "unat (key_hashval (es ! i)) mod n = b" using Cons.prems(2) by auto
  have "locate_loop es n b h key ev (e_next (es ! i)) =
     Some (case find (\<lambda>i. key_hashval (es ! i) = h \<and> e_key (es ! i) = key) is of None \<Rightarrow> None
           | Some i \<Rightarrow> if e_removed (es ! i) \<and> \<not> ev then None else Some i)"
    using Cons.prems(2) by (intro Cons.IH [OF p(2)]) auto
  then show ?case using i p(1) by (subst locate_loop.simps) auto
qed

lemma locate_eq:
  assumes "dict_inv d"
  shows "locate d key ev =
    Some (case key_ndx (d_elems d) key of None \<Rightarrow> None
          | Some i \<Rightarrow> if e_removed (d_elems d ! i) \<and> \<not> ev then None else Some i)"
proof -
  let ?es = "d_elems d" and ?h = "hash31 d key" and ?n = "length (d_bins d)"
  let ?b = "unat ?h mod ?n"
  let ?P = "\<lambda>i. key_hashval (?es ! i) = ?h \<and> e_key (?es ! i) = key"
  have b: "?b < ?n" using dict_inv_bins [OF assms] by simp
  have h: "key_hashval (?es ! i) = hash31 d (e_key (?es ! i))" if "i < length ?es" for i
    using dict_inv_hash [OF assms] that by simp
  have found: "find ?P (in_bin ?es ?n ?b (length ?es)) = key_ndx ?es key"
  proof (cases "key_ndx ?es key")
    case None
    then have "\<not> ?P i" if "i < length ?es" for i using that by (auto simp: key_ndx_None)
    then show ?thesis using None by (auto simp: find_None_iff in_bin_def)
  next
    case (Some i)
    then have i: "i < length ?es" "e_key (?es ! i) = key" using key_ndx_SomeD [OF Some] by auto
    then have "?P i" and mem: "i \<in> set (in_bin ?es ?n ?b (length ?es))" using h by (auto simp: in_bin_def)
    then obtain j where j: "find ?P (in_bin ?es ?n ?b (length ?es)) = Some j"
      by (metis (mono_tags, lifting) find_None_iff not_None_eq)
    then have "j < length ?es" "e_key (?es ! j) = key"
      using find_SomeD [OF j] by (auto simp: in_bin_def)
    then have "j = i" using i dict_inv_distinct [OF assms] by (auto simp: distinct_conv_nth)
    then show ?thesis using j Some by simp
  qed
  have ch: "chain (\<lambda>i. e_next (?es ! i)) (d_bins d ! ?b) (in_bin ?es ?n ?b (length ?es))"
    using dict_inv_chains [OF assms] b unfolding chains_ok_def by blast
  have "i < length ?es \<and> unat (key_hashval (?es ! i)) mod ?n = ?b"
    if "i \<in> set (in_bin ?es ?n ?b (length ?es))" for i
    using that by (simp add: in_bin_def)
  then show ?thesis
    unfolding locate_def Let_def using locate_loop_eq [OF ch, of ?n ?b ?h key ev] found by presburger
qed

section \<open>Entries and chains\<close>

lemma in_bin_cong:
  "(\<And>i. i < j \<Longrightarrow> key_hashval (es ! i) = key_hashval (es' ! i)) \<Longrightarrow> in_bin es n b j = in_bin es' n b j"
  unfolding in_bin_def by (rule arg_cong [of _ _ rev], rule filter_cong) auto

lemma chains_ok_cong:
  assumes "chains_ok es bs j" and "\<And>i. i < j \<Longrightarrow> key_hashval (es' ! i) = key_hashval (es ! i)"
    and "\<And>i. i < j \<Longrightarrow> e_next (es' ! i) = e_next (es ! i)"
  shows "chains_ok es' bs j"
  unfolding chains_ok_def
proof (intro allI impI)
  fix b assume b: "b < length bs"
  have "in_bin es' (length bs) b j = in_bin es (length bs) b j" using assms(2) by (rule in_bin_cong)
  moreover have "chain (\<lambda>i. e_next (es' ! i)) (bs ! b) (in_bin es (length bs) b j) =
      chain (\<lambda>i. e_next (es ! i)) (bs ! b) (in_bin es (length bs) b j)"
    by (rule chain_cong) (use assms(3) in \<open>auto simp: in_bin_def\<close>)
  ultimately show "chain (\<lambda>i. e_next (es' ! i)) (bs ! b) (in_bin es' (length bs) b j)"
    using assms(1) b by (simp add: chains_ok_def)
qed

text \<open>Entry \<open>j\<close> becomes the head of its bin.\<close>

lemma chains_ok_step:
  assumes "chains_ok es bs j" and bin: "bin = unat (key_hashval (es ! j)) mod length bs" and "bs \<noteq> []"
    and nx: "e_next (es ! j) = bs ! bin"
  shows "chains_ok es (bs[bin := Some j]) (Suc j)"
  unfolding chains_ok_def
proof (intro allI impI)
  fix b assume b: "b < length (bs[bin := Some j])"
  have in_bin_Suc: "in_bin es (length bs) b (Suc j) =
      (if bin = b then j # in_bin es (length bs) b j else in_bin es (length bs) b j)"
    by (simp add: in_bin_def bin)
  have "chain (\<lambda>i. e_next (es ! i)) (bs ! b) (in_bin es (length bs) b j)"
    using assms(1) b by (simp add: chains_ok_def)
  then show "chain (\<lambda>i. e_next (es ! i)) (bs[bin := Some j] ! b) (in_bin es (length (bs[bin := Some j])) b (Suc j))"
    using b nx by (cases "bin = b") (simp_all add: in_bin_Suc)
qed

lemma chains_ok_0: "chains_ok es (replicate n None) 0"
  by (simp add: chains_ok_def in_bin_def)

text \<open>Changing the value and the mark of an entry.\<close>

lemma set_entry_spec:
  assumes inv: "dict_inv d" and i: "i < length (d_elems d)"
    and f: "\<And>e. e_key (f e) = e_key e \<and> key_hashval (f e) = key_hashval e \<and> e_next (f e) = e_next e"
    and n: "n + (if e_removed (d_elems d ! i) then 1 else 0) =
      num_removed_elems d + (if e_removed (f (d_elems d ! i)) then 1 else 0)"
    and d': "d' = (set_entry d i f)\<lparr>num_removed_elems := n\<rparr>"
  shows "dict_inv d'" and "length (d_elems d') = length (d_elems d)"
    and "dict_map d' = (dict_map d)(e_key (d_elems d ! i) :=
      if e_removed (f (d_elems d ! i)) then None else Some (e_val (f (d_elems d ! i))))"
proof -
  let ?es = "d_elems d" and ?es' = "d_elems d'"
  have es': "?es' = ?es[i := f (?es ! i)]" by (simp add: d' set_entry_def)
  have keys: "map e_key ?es' = map e_key ?es"
    using i f by (simp add: es' map_update) (metis list_update_id nth_map)
  have ks: "key_ndx ?es' k = key_ndx ?es k" for k by (simp add: key_ndx_def keys)
  have same: "key_hashval (?es' ! j) = key_hashval (?es ! j)" "e_next (?es' ! j) = e_next (?es ! j)" for j
    using f by (cases "j = i"; cases "j < length ?es"; simp add: es' list_update_beyond)+
  have h: "key_hashval e = hash31 d' (e_key e)" if e: "e \<in> set ?es'" for e
  proof -
    have len: "length ?es' = length ?es" by (simp add: es')
    obtain j where j: "j < length ?es" "e = ?es' ! j"
      using e unfolding in_set_conv_nth len by blast
    have "e_key (?es' ! j) = e_key (?es ! j)" using f j by (cases "j = i") (auto simp: es')
    then show ?thesis using j dict_inv_hash [OF inv, of "?es ! j"] same
      by (simp add: hash31_def d' set_entry_def)
  qed
  have nrem: "n = length (filter e_removed ?es')"
    using n length_filter_update [OF i, of e_removed "f (?es ! i)"] dict_inv_nrem [OF inv]
    by (simp add: es' split: if_splits)
  have ch: "chains_ok ?es' (d_bins d) (length ?es)"
    using chains_ok_cong [OF dict_inv_chains [OF inv]] same by blast
  have fr: "d_bins d' = d_bins d" "max_bin_load d' = max_bin_load d" "bin_grow_factor d' = bin_grow_factor d"
    "num_removed_elems d' = n" "length ?es' = length ?es"
    by (simp_all add: d' set_entry_def)
  show "length ?es' = length ?es" by (rule fr)
  show "dict_inv d'"
    by (rule dict_invI; (rule h)?) (use dict_invD(1-5) [OF inv] dict_inv_distinct [OF inv] in \<open>simp_all only: fr keys nrem ch not_False_eq_True\<close>)
  show "dict_map d' = (dict_map d)(e_key (?es ! i) :=
      if e_removed (f (?es ! i)) then None else Some (e_val (f (?es ! i))))"
  proof
    fix k
    have m: "dict_map d k = (case key_ndx ?es k of None \<Rightarrow> None
        | Some i \<Rightarrow> if e_removed (?es ! i) then None else Some (e_val (?es ! i)))"
      unfolding dict_map_def by (rule map_of_live [OF dict_inv_distinct [OF inv]])
    have m': "dict_map d' k = (case key_ndx ?es k of None \<Rightarrow> None
        | Some i \<Rightarrow> if e_removed (?es' ! i) then None else Some (e_val (?es' ! i)))"
      unfolding dict_map_def using map_of_live [of ?es' k] dict_inv_distinct [OF inv] keys ks by simp
    show "dict_map d' k = ((dict_map d)(e_key (?es ! i) :=
      if e_removed (f (?es ! i)) then None else Some (e_val (f (?es ! i))))) k"
    proof (cases "k = e_key (?es ! i)")
      case True
      then have "key_ndx ?es k = Some i" using key_ndx_nth [OF dict_inv_distinct [OF inv] i] by simp
      then show ?thesis using m' True i by (simp add: es')
    next
      case False
      then have "key_ndx ?es k = Some j \<Longrightarrow> j \<noteq> i" for j using key_ndx_SomeD [of ?es k j] by auto
      then show ?thesis using m m' False by (auto simp: es' split: option.splits)
    qed
  qed
qed

section \<open>Adding an entry\<close>

lemma add_entry_spec:
  assumes inv: "dict_inv d" and new: "key \<notin> e_key ` set (d_elems d)"
    and room: "length (d_elems d) < length (d_bins d) * max_bin_load d"
  obtains d' where "add_entry d key v = Some (length (d_elems d), d')" and "dict_inv d'"
    and "dict_map d' = (dict_map d)(key \<mapsto> v)" and "length (d_elems d') = Suc (length (d_elems d))"
    and "e_key (d_elems d' ! length (d_elems d)) = key" and "\<not> e_removed (d_elems d' ! length (d_elems d))"
proof -
  let ?es = "d_elems d" and ?h = "hash31 d key" and ?n = "length (d_bins d)"
  let ?bin = "unat ?h mod ?n"
  define e where "e = \<lparr>e_key = key, e_val = v, key_hashval = ?h, e_removed = False, e_next = d_bins d ! ?bin\<rparr>"
  define d' where "d' = d\<lparr>d_elems := ?es @ [e], d_bins := (d_bins d)[?bin := Some (length ?es)]\<rparr>"
  have "chains_ok (?es @ [e]) (d_bins d) (length ?es)"
    using dict_inv_chains [OF inv] by (rule chains_ok_cong) (simp_all add: nth_append)
  then have "chains_ok (?es @ [e]) ((d_bins d)[?bin := Some (length ?es)]) (Suc (length ?es))"
    by (rule chains_ok_step) (use dict_inv_bins [OF inv] in \<open>simp_all add: e_def\<close>)
  then have ch: "chains_ok (d_elems d') (d_bins d') (length (d_elems d'))" by (simp add: d'_def)
  have h31: "hash31 d' k = hash31 d k" for k by (simp add: hash31_def d'_def)
  have inv': "dict_inv d'"
  proof (rule dict_invI [OF _ _ _ _ _ _ _ _ ch])
    fix x assume "x \<in> set (d_elems d')"
    then consider "x \<in> set ?es" | "x = e" by (auto simp: d'_def)
    then show "key_hashval x = hash31 d' (e_key x)"
      by cases (simp_all add: h31 dict_inv_hash [OF inv] e_def)
  qed (use dict_invD(1-7) [OF inv] room new in \<open>simp_all add: d'_def e_def\<close>)
  have "enoughBins d'" using dict_inv_cap(1) [OF inv] room by (simp add: enoughBins_def d'_def)
  then have a: "add_entry d key v = Some (length ?es, d')"
    by (simp add: add_entry_def Let_def d'_def e_def)
  have "live (?es @ [e]) = live ?es @ [(key, v)]" by (simp add: live_def e_def)
  moreover have "map_of (live ?es) key = None" using new by (auto simp: map_of_eq_None_iff live_def)
  ultimately have "dict_map d' = (dict_map d)(key \<mapsto> v)"
    unfolding dict_map_def d'_def by (auto simp: map_add_def fun_eq_iff split: option.splits)
  then show ?thesis using that [OF a inv'] by (simp add: d'_def e_def)
qed

section \<open>Growing\<close>

lemma purge_spec:
  "purge lcv es nrem = (es', nrem') \<Longrightarrow> nrem = length (filter e_removed es) \<Longrightarrow>
   (\<forall>i < lcv. i < length es \<longrightarrow> \<not> e_removed (es ! i)) \<Longrightarrow>
   nrem' = 0 \<and> (\<forall>e \<in> set es'. \<not> e_removed e) \<and> mset es' = mset (filter (\<lambda>e. \<not> e_removed e) es)"
proof (induction lcv es nrem rule: purge.induct)
  case (1 lcv es nrem)
  show ?case
  proof (cases "lcv < length es")
    case False
    then have "purge lcv es nrem = (es, nrem)" by (simp add: purge.simps)
    moreover have none: "\<forall>e \<in> set es. \<not> e_removed e" using 1(5) False by (auto simp: in_set_conv_nth)
    ultimately show ?thesis using 1(3,4) by simp
  next
    case in_range: True
    show ?thesis
    proof (cases "e_removed (es ! lcv)")
      case True
      let ?es1 = "swap_remove lcv es"
      have m: "mset es = add_mset (es ! lcv) (mset ?es1)"
        using in_range by (simp add: mset_swap_remove)
      have cnt: "length (filter e_removed ?es1) = nrem - 1" and
        flt: "mset (filter (\<lambda>e. \<not> e_removed e) ?es1) = mset (filter (\<lambda>e. \<not> e_removed e) es)"
        using True 1(4) arg_cong [OF m, of "\<lambda>M. size (filter_mset e_removed M)"]
          arg_cong [OF m, of "filter_mset (\<lambda>e. \<not> e_removed e)"] by (simp_all flip: mset_filter)
      have low: "\<forall>i < lcv. i < length ?es1 \<longrightarrow> \<not> e_removed (?es1 ! i)"
        using 1(5) in_range by (auto simp: swap_remove_def nth_butlast)
      have "purge lcv ?es1 (nrem - 1) = (es', nrem')"
        using 1(3) in_range True by (simp add: purge.simps [of lcv es])
      from 1(1) [OF in_range True this cnt [symmetric] low] flt show ?thesis by simp
    next
      case False
      have "purge (lcv + 1) es nrem = (es', nrem')"
        using 1(3) in_range False by (simp add: purge.simps [of lcv es])
      moreover have "\<forall>i < lcv + 1. i < length es \<longrightarrow> \<not> e_removed (es ! i)"
        using 1(5) False by (auto simp: less_Suc_eq)
      ultimately show ?thesis using 1(2) [OF in_range False _ 1(4)] by blast
    qed
  qed
qed

text \<open>What rehashing keeps of an entry.\<close>

definition entry_data :: "('k, 'v) entry \<Rightarrow> 'k \<times> 'v \<times> u32 \<times> bool" where
  "entry_data e = (e_key e, e_val e, key_hashval e, e_removed e)"

lemma rehash_spec:
  "j \<le> length es \<Longrightarrow> chains_ok es bs j \<Longrightarrow> bs \<noteq> [] \<Longrightarrow> (\<forall>e \<in> set es. \<not> e_removed e) \<Longrightarrow>
   \<exists>es' bs'. rehash [j..<length es] es bs = Some (es', bs') \<and> chains_ok es' bs' (length es) \<and>
     length bs' = length bs \<and> map entry_data es' = map entry_data es"
proof (induction "length es - j" arbitrary: j es bs)
  case 0
  then show ?case by simp
next
  case (Suc n)
  then have j: "j < length es" by simp
  define bin where "bin = unat (key_hashval (es ! j)) mod length bs"
  define es1 where "es1 = es[j := (es ! j)\<lparr>e_next := bs ! bin\<rparr>]"
  define bs1 where "bs1 = bs[bin := Some j]"
  have len: "length es1 = length es" "length bs1 = length bs" by (simp_all add: es1_def bs1_def)
  have data: "map entry_data es1 = map entry_data es"
    using j by (simp add: es1_def map_update entry_data_def) (metis list_update_id nth_map entry_data_def)
  have rem1: "\<not> e_removed (es ! j)" using Suc.prems(4) j by simp
  have "chains_ok es1 bs j"
    using Suc.prems(2) by (rule chains_ok_cong) (auto simp: es1_def nth_list_update)
  then have "chains_ok es1 bs1 (Suc j)" unfolding bs1_def
    by (rule chains_ok_step) (use j Suc.prems(3) in \<open>simp_all add: es1_def bin_def\<close>)
  moreover have "\<forall>e \<in> set es1. \<not> e_removed e"
  proof
    fix e assume "e \<in> set es1"
    then have "entry_data e \<in> entry_data ` set es" using data by (metis imageI list.set_map)
    then show "\<not> e_removed e" using Suc.prems(4) by (auto simp: entry_data_def)
  qed
  moreover have "n = length es1 - Suc j" "Suc j \<le> length es1" "bs1 \<noteq> []"
    using Suc j len by (auto simp: bs1_def)
  ultimately obtain es' bs' where "rehash [Suc j..<length es1] es1 bs1 = Some (es', bs')"
    "chains_ok es' bs' (length es1)" "length bs' = length bs1" "map entry_data es' = map entry_data es1"
    using Suc.hyps(1) by blast
  then show ?case using j rem1 data len
    by (simp add: upt_conv_Cons es1_def bs1_def bin_def Let_def)
qed

lemma entry_data_live: "map entry_data es' = map entry_data es \<Longrightarrow> live es' = live es"
proof -
  have "live xs = map (\<lambda>(k, v, h, r). (k, v)) (filter (\<lambda>(k, v, h, r). \<not> r) (map entry_data xs))"
    for xs :: "('k, 'v) entry list"
    by (induction xs) (simp_all add: live_def entry_data_def)
  then show "map entry_data es' = map entry_data es \<Longrightarrow> live es' = live es" by metis
qed

lemma entry_data_keys: "map entry_data es' = map entry_data es \<Longrightarrow> map e_key es' = map e_key es"
proof -
  have "map e_key xs = map fst (map entry_data xs)" for xs :: "('k, 'v) entry list"
    by (simp add: entry_data_def)
  then show "map entry_data es' = map entry_data es \<Longrightarrow> map e_key es' = map e_key es" by metis
qed

lemma entry_data_mem: "map entry_data es' = map entry_data es \<Longrightarrow> e \<in> set es' \<Longrightarrow>
    \<exists>x \<in> set es. entry_data e = entry_data x"
  by (metis (mono_tags, lifting) imageE imageI list.set_map)

text \<open>Growing drops the entries marked as removed and keeps the map.\<close>

lemma grow_numbins_spec:
  assumes inv: "dict_inv d" and more: "length (d_bins d) < n" and fits: "n * max_bin_load d < 2 ^ 32"
  obtains d' where "grow_numbins d n = Some d'" and "dict_inv d'" and "dict_map d' = dict_map d"
    and "length (d_bins d') = n" and "max_bin_load d' = max_bin_load d"
    and "length (d_elems d') \<le> length (d_elems d)" and "e_key ` set (d_elems d') \<subseteq> e_key ` set (d_elems d)"
    and "hasher d' = hasher d"
proof -
  let ?p = "if num_removed_elems d > 0 then purge 0 (d_elems d) (num_removed_elems d)
            else (d_elems d, num_removed_elems d)"
  obtain es nrem where p: "?p = (es, nrem)" by (cases ?p)
  have es: "nrem = 0" "\<forall>e \<in> set es. \<not> e_removed e"
    "mset es = mset (filter (\<lambda>e. \<not> e_removed e) (d_elems d))"
  proof -
    have "nrem = 0 \<and> (\<forall>e \<in> set es. \<not> e_removed e) \<and>
      mset es = mset (filter (\<lambda>e. \<not> e_removed e) (d_elems d))"
    proof (cases "num_removed_elems d > 0")
      case True
      then have "purge 0 (d_elems d) (num_removed_elems d) = (es, nrem)" using p by simp
      from purge_spec [OF this dict_inv_nrem [OF inv]] show ?thesis by simp
    next
      case False
      then have "filter e_removed (d_elems d) = []" using dict_inv_nrem [OF inv] by simp
      then have none: "\<forall>e \<in> set (d_elems d). \<not> e_removed e" by (simp add: filter_empty_conv)
      then have "filter (\<lambda>e. \<not> e_removed e) (d_elems d) = d_elems d" by simp
      then show ?thesis using p False none by simp
    qed
    then show "nrem = 0" "\<forall>e \<in> set es. \<not> e_removed e"
      "mset es = mset (filter (\<lambda>e. \<not> e_removed e) (d_elems d))" by blast+
  qed
  have sub: "set es = set (filter (\<lambda>e. \<not> e_removed e) (d_elems d))" by (rule mset_eq_setD [OF es(3)])
  have len: "length es \<le> length (d_elems d)" using mset_eq_length [OF es(3)] by simp
  have "mset (map e_key es) = mset (map e_key (filter (\<lambda>e. \<not> e_removed e) (d_elems d)))"
    using es(3) by (metis mset_map)
  then have dist: "distinct (map e_key es)"
    using dict_inv_distinct [OF inv] by (metis distinct_map_filter mset_eq_imp_distinct_iff)
  have "0 < n" using more by simp
  then obtain es' bs' where re: "rehash [0..<length es] es (replicate n None) = Some (es', bs')"
    "chains_ok es' bs' (length es)" "length bs' = n" "map entry_data es' = map entry_data es"
    using rehash_spec [of 0 es "replicate n None"] chains_ok_0 [of es n] es(2) by auto
  have len': "length es' = length es" using re(4) by (metis length_map)
  define d' where "d' = d\<lparr>d_elems := es', d_bins := bs', num_removed_elems := nrem\<rparr>"
  have cap: "length es' \<le> n * max_bin_load d"
    using len len' dict_inv_cap(2) [OF inv] more mult_le_mono1 [of "length (d_bins d)" n "max_bin_load d"] by linarith
  have "enoughBins d'" using cap fits re(3) by (simp add: enoughBins_def d'_def)
  then have g: "grow_numbins d n = Some d'"
    using more p re(1) es(1) by (simp add: grow_numbins_def Let_def d'_def)
  have h31: "hash31 d' k = hash31 d k" for k by (simp add: hash31_def d'_def)
  have mem: "\<exists>x \<in> set (d_elems d). entry_data e = entry_data x \<and> \<not> e_removed x" if "e \<in> set es'" for e
    using entry_data_mem [OF re(4) that] sub by auto
  have inv': "dict_inv d'"
  proof (rule dict_invI)
    fix e assume "e \<in> set (d_elems d')"
    then obtain x where "x \<in> set (d_elems d)" "entry_data e = entry_data x" using mem by (auto simp: d'_def)
    then show "key_hashval e = hash31 d' (e_key e)"
      using dict_inv_hash [OF inv, of x] by (simp add: h31 entry_data_def)
  next
    have "filter e_removed es' = []" using mem by (auto simp: filter_empty_conv entry_data_def)
    then show "num_removed_elems d' = length (filter e_removed (d_elems d'))" by (simp add: d'_def es(1))
  qed (use dict_inv_load [OF inv] fits cap re(2,3) len' dist entry_data_keys [OF re(4)] \<open>0 < n\<close> in
      \<open>auto simp: d'_def\<close>)
  have "map_of (live es) = map_of (live (d_elems d))"
  proof (rule map_of_inject_set [THEN iffD2])
    show "distinct (map fst (live es))" by (rule distinct_live [OF dist])
    show "distinct (map fst (live (d_elems d)))" by (rule distinct_live [OF dict_inv_distinct [OF inv]])
    show "set (live es) = set (live (d_elems d))" using es(2) sub by (auto simp: live_def)
  qed
  then have "dict_map d' = dict_map d" by (simp add: dict_map_def d'_def entry_data_live [OF re(4)])
  moreover have "e_key ` set (d_elems d') \<subseteq> e_key ` set (d_elems d)"
    using mem by (force simp: d'_def entry_data_def)
  ultimately show ?thesis using that [OF g inv'] re(3) len len' by (simp add: d'_def)
qed

lemma add_spec:
  assumes inv: "dict_inv d" and new: "key \<notin> e_key ` set (d_elems d)" and small: "length (d_elems d) < 2 ^ 31"
  obtains i d' where "add d key v = Some (i, d')" and "dict_inv d'" and "dict_map d' = (dict_map d)(key \<mapsto> v)"
    and "length (d_elems d') \<le> Suc (length (d_elems d))" and "i < length (d_elems d')"
    and "e_key (d_elems d' ! i) = key" and "\<not> e_removed (d_elems d' ! i)"
proof -
  let ?c = "length (d_bins d) * max_bin_load d"
  have eb: "enoughBins d" using dict_inv_cap [OF inv] by (simp add: enoughBins_def)
  have e1: "enoughBinsIf1MoreItemAdded d \<longleftrightarrow> length (d_elems d) < ?c"
    using small dict_inv_cap(1) [OF inv] by (simp add: enoughBinsIf1MoreItemAdded_def Suc_le_eq)
  show ?thesis
  proof (cases "length (d_elems d) < ?c")
    case True
    then have "add d key v = add_entry d key v" using eb e1 by (simp add: add_def)
    with add_entry_spec [OF inv new True, of v] that show ?thesis by (metis le_refl lessI)
  next
    case False
    then have c: "?c = length (d_elems d)" using dict_inv_cap(2) [OF inv] by simp
    have pos: "0 < length (d_bins d)" "0 < ?c" using dict_inv_bins [OF inv] dict_inv_load [OF inv] by auto
    let ?n = "(length (d_bins d) * 2) mod 2 ^ 32"
    have "length (d_bins d) \<le> ?c" using dict_inv_load(1) [OF inv] by simp
    then have n: "?n = length (d_bins d) * 2" using c small by simp
    have more: "length (d_bins d) < ?n" using n pos by simp
    have "?n * max_bin_load d = 2 * ?c" by (simp only: n)
    then have fits: "?n * max_bin_load d < 2 ^ 32" using c small by simp
    obtain d1 where g: "grow_numbins d ?n = Some d1" and i1: "dict_inv d1" and m1: "dict_map d1 = dict_map d"
      and l1: "length (d_bins d1) = ?n" "max_bin_load d1 = max_bin_load d"
        "length (d_elems d1) \<le> length (d_elems d)"
      and k1: "e_key ` set (d_elems d1) \<subseteq> e_key ` set (d_elems d)"
      using grow_numbins_spec [OF inv more fits] by blast
    have "length (d_bins d1) * max_bin_load d1 = 2 * ?c" by (simp only: l1 n)
    then have room: "length (d_elems d1) < length (d_bins d1) * max_bin_load d1"
      using l1(3) c pos by linarith
    have "enoughBinsIf1MoreItemAdded d1"
      using room small l1 dict_inv_cap(1) [OF i1] by (simp add: enoughBinsIf1MoreItemAdded_def Suc_le_eq)
    then have "add d key v = add_entry d1 key v"
      using eb e1 False more g dict_inv_load(2) [OF inv] by (simp add: add_def Let_def)
    moreover have "key \<notin> e_key ` set (d_elems d1)" using new k1 by blast
    ultimately show ?thesis
      using add_entry_spec [OF i1 _ room, of key v] that l1(3) m1 by (metis Suc_le_mono lessI)
  qed
qed

section \<open>Refinement\<close>

datatype ('k, 'v) dict_op =
    DSet 'k 'v | DAssign 'k 'v | DIndex 'k | DGet 'k | DFind 'k | DDefines 'k
  | DGetRemove 'k | DFindRemove 'k | DUndef 'k | DClear | DSize

datatype 'v dict_out = OUnit | OVal 'v | OFound "'v option" | OBool bool | OSize nat

text \<open>The operations of the dictionary, and what they mean on a map; \<^const>\<open>None\<close> is an abort.\<close>

fun dict_step :: "'v \<Rightarrow> ('k, 'v) dict_op \<Rightarrow> ('k, 'v) dictionary_hash \<Rightarrow>
  ('v dict_out \<times> ('k, 'v) dictionary_hash) option" where
  "dict_step dflt (DSet k v) d = map_option (Pair OUnit) (dict_set d k v)"
| "dict_step dflt (DAssign k v) d = map_option (Pair OUnit) (dict_index_assign dflt d k v)"
| "dict_step dflt (DIndex k) d = map_option (apfst OVal) (dict_index dflt d k)"
| "dict_step dflt (DGet k) d = map_option (\<lambda>v. (OVal v, d)) (dict_get d k)"
| "dict_step dflt (DFind k) d = map_option (\<lambda>r. (OFound r, d)) (dict_find d k)"
| "dict_step dflt (DDefines k) d = map_option (\<lambda>b. (OBool b, d)) (dict_defines d k)"
| "dict_step dflt (DGetRemove k) d = map_option (apfst OVal) (get_and_remove d k)"
| "dict_step dflt (DFindRemove k) d = map_option (apfst OFound) (find_and_remove d k)"
| "dict_step dflt (DUndef k) d = map_option (Pair OUnit) (dict_undef d k)"
| "dict_step dflt DClear d = map_option (Pair OUnit) (dict_clear d)"
| "dict_step dflt DSize d = map_option (\<lambda>n. (OSize n, d)) (dict_size d)"

fun map_step :: "'v \<Rightarrow> ('k, 'v) dict_op \<Rightarrow> ('k \<rightharpoonup> 'v) \<Rightarrow> ('v dict_out \<times> ('k \<rightharpoonup> 'v)) option" where
  "map_step dflt (DSet k v) m = (if m k = None then Some (OUnit, m(k \<mapsto> v)) else None)"
| "map_step dflt (DAssign k v) m = Some (OUnit, m(k \<mapsto> v))"
| "map_step dflt (DIndex k) m =
     (case m k of None \<Rightarrow> Some (OVal dflt, m(k \<mapsto> dflt)) | Some v \<Rightarrow> Some (OVal v, m))"
| "map_step dflt (DGet k) m = map_option (\<lambda>v. (OVal v, m)) (m k)"
| "map_step dflt (DFind k) m = Some (OFound (m k), m)"
| "map_step dflt (DDefines k) m = Some (OBool (m k \<noteq> None), m)"
| "map_step dflt (DGetRemove k) m = map_option (\<lambda>v. (OVal v, m(k := None))) (m k)"
| "map_step dflt (DFindRemove k) m = Some (OFound (m k), m(k := None))"
| "map_step dflt (DUndef k) m = Some (OUnit, m(k := None))"
| "map_step dflt DClear m = Some (OUnit, Map.empty)"
| "map_step dflt DSize m = Some (OSize (card (dom m)), m)"

fun run_out :: "('op \<Rightarrow> 's \<Rightarrow> ('o \<times> 's) option) \<Rightarrow> 'op list \<Rightarrow> 's \<Rightarrow> ('o list \<times> 's) option" where
  "run_out step [] s = Some ([], s)"
| "run_out step (x # xs) s = do {
     (y, s1) \<leftarrow> step x s;
     (ys, s2) \<leftarrow> run_out step xs s1;
     Some (y # ys, s2)
   }"

text \<open>One operation implements its meaning on the map.\<close>

definition implements ::
  "('k, 'v) dictionary_hash \<Rightarrow> ('o \<times> ('k, 'v) dictionary_hash) option \<Rightarrow> ('o \<times> ('k \<rightharpoonup> 'v)) option \<Rightarrow> bool" where
  "implements d r s \<longleftrightarrow>
     (case s of None \<Rightarrow> r = None
      | Some (y, m) \<Rightarrow> \<exists>d'. r = Some (y, d') \<and> dict_inv d' \<and> dict_map d' = m \<and>
          length (d_elems d') \<le> Suc (length (d_elems d)))"

lemma implementsI:
  "r = Some (y, d') \<Longrightarrow> dict_inv d' \<Longrightarrow> dict_map d' = m \<Longrightarrow>
   length (d_elems d') \<le> Suc (length (d_elems d)) \<Longrightarrow> implements d r (Some (y, m))"
  by (simp add: implements_def)

text \<open>The three states of a key: never added, marked as removed, present.\<close>

lemma key_cases:
  assumes inv: "dict_inv d"
  obtains (absent) "key \<notin> e_key ` set (d_elems d)" "dict_map d key = None"
      "locate d key True = Some None" "locate d key False = Some None"
  | (removed) i where "i < length (d_elems d)" "e_key (d_elems d ! i) = key" "e_removed (d_elems d ! i)"
      "dict_map d key = None" "locate d key True = Some (Some i)" "locate d key False = Some None"
      "0 < num_removed_elems d"
  | (present) i where "i < length (d_elems d)" "e_key (d_elems d ! i) = key" "\<not> e_removed (d_elems d ! i)"
      "dict_map d key = Some (e_val (d_elems d ! i))" "locate d key True = Some (Some i)"
      "locate d key False = Some (Some i)"
proof (cases "key_ndx (d_elems d) key")
  case None
  then have "locate d key ev = Some None" for ev using locate_eq [OF inv] by simp
  moreover have "dict_map d key = None"
    using None map_of_live [OF dict_inv_distinct [OF inv], of key] by (simp add: dict_map_def)
  ultimately show ?thesis using absent None by (simp add: key_ndx_None)
next
  case (Some i)
  have i: "i < length (d_elems d)" "e_key (d_elems d ! i) = key" using key_ndx_SomeD [OF Some] by auto
  have m: "dict_map d key = (if e_removed (d_elems d ! i) then None else Some (e_val (d_elems d ! i)))"
    using map_of_live [OF dict_inv_distinct [OF inv], of key] Some by (simp add: dict_map_def)
  have l: "locate d key ev = Some (if e_removed (d_elems d ! i) \<and> \<not> ev then None else Some i)" for ev
    using locate_eq [OF inv] Some by simp
  show ?thesis
  proof (cases "e_removed (d_elems d ! i)")
    case True
    then have "d_elems d ! i \<in> set (filter e_removed (d_elems d))" using i by simp
    then have "0 < num_removed_elems d" unfolding dict_inv_nrem [OF inv] by (rule length_pos_if_in_set)
    then show ?thesis using removed i m l True by simp
  next
    case False
    then show ?thesis using present i m l by simp
  qed
qed

lemma revive_spec:
  assumes "dict_inv d" and "i < length (d_elems d)" and "e_removed (d_elems d ! i)" and "0 < num_removed_elems d"
    and "d' = (set_entry d i (\<lambda>e. e\<lparr>e_val := v, e_removed := False\<rparr>))\<lparr>num_removed_elems := num_removed_elems d - 1\<rparr>"
  shows "dict_inv d'" and "length (d_elems d') = length (d_elems d)"
    and "dict_map d' = (dict_map d)(e_key (d_elems d ! i) \<mapsto> v)"
  using set_entry_spec [OF assms(1,2) _ _ assms(5)] assms(3,4) by simp_all

lemma assign_spec:
  assumes "dict_inv d" and "i < length (d_elems d)" and "\<not> e_removed (d_elems d ! i)"
    and "d' = set_entry d i (\<lambda>e. e\<lparr>e_val := v\<rparr>)"
  shows "dict_inv d'" and "length (d_elems d') = length (d_elems d)"
    and "dict_map d' = (dict_map d)(e_key (d_elems d ! i) \<mapsto> v)"
proof -
  have "d' = (set_entry d i (\<lambda>e. e\<lparr>e_val := v\<rparr>))\<lparr>num_removed_elems := num_removed_elems d\<rparr>"
    by (simp add: assms(4) set_entry_def)
  from set_entry_spec [OF assms(1,2) _ _ this] assms(3)
  show "dict_inv d'" and "length (d_elems d') = length (d_elems d)"
    and "dict_map d' = (dict_map d)(e_key (d_elems d ! i) \<mapsto> v)" by simp_all
qed

lemma mark_removed_spec:
  assumes "dict_inv d" and i: "i < length (d_elems d)" and live: "\<not> e_removed (d_elems d ! i)"
  obtains d' where "mark_removed d i = Some d'" and "dict_inv d'"
    and "dict_map d' = (dict_map d)(e_key (d_elems d ! i) := None)"
    and "length (d_elems d') = length (d_elems d)" and "e_val (d_elems d' ! i) = e_val (d_elems d ! i)"
proof -
  define d' where "d' = (set_entry d i (\<lambda>e. e\<lparr>e_removed := True\<rparr>))\<lparr>num_removed_elems := num_removed_elems d + 1\<rparr>"
  have sp: "dict_inv d'" "length (d_elems d') = length (d_elems d)"
    "dict_map d' = (dict_map d)(e_key (d_elems d ! i) := None)"
    using set_entry_spec [OF assms(1) i _ _ d'_def] live by simp_all
  have "num_removed_elems d' \<le> length (d_elems d')"
    unfolding dict_inv_nrem [OF sp(1)] by (rule length_filter_le)
  then have "Suc (num_removed_elems d) \<le> length (d_elems d)"
    "Suc (length (d_elems d) - Suc (num_removed_elems d)) = length (d_elems d) - num_removed_elems d"
    by (simp_all add: d'_def set_entry_def)
  then have "mark_removed d i = Some d'"
    using live by (simp add: mark_removed_def dict_size_def d'_def Let_def set_entry_def)
  moreover have "e_val (d_elems d' ! i) = e_val (d_elems d ! i)" using i by (simp add: d'_def set_entry_def)
  ultimately show ?thesis using that sp by blast
qed

lemma dict_set_implements:
  assumes inv: "dict_inv d" and small: "length (d_elems d) < 2 ^ 31"
  shows "implements d (dict_step dflt (DSet k v) d) (map_step dflt (DSet k v) (dict_map d))"
  using inv
proof (cases rule: key_cases [where key = k])
  case absent
  obtain i d' where "add d k v = Some (i, d')" "dict_inv d'" "dict_map d' = (dict_map d)(k \<mapsto> v)"
    "length (d_elems d') \<le> Suc (length (d_elems d))"
    using add_spec [OF inv absent(1) small] by metis
  then show ?thesis using absent by (simp add: implements_def dict_set_def)
next
  case (removed i)
  note sp = revive_spec [OF inv removed(1,3,7) refl, of v]
  show ?thesis using removed sp by (simp add: implements_def dict_set_def)
next
  case (present i)
  then show ?thesis by (simp add: implements_def dict_set_def)
qed

text \<open>What \<open>operator[]\<close> finds or makes.\<close>

lemma locate_addIfNotFound_spec:
  assumes inv: "dict_inv d" and small: "length (d_elems d) < 2 ^ 31"
  obtains i d' where "locate_addIfNotFound dflt d k = Some (i, d')" and "dict_inv d'"
    and "i < length (d_elems d')" and "e_key (d_elems d' ! i) = k" and "\<not> e_removed (d_elems d' ! i)"
    and "length (d_elems d') \<le> Suc (length (d_elems d))"
    and "dict_map d' = (case dict_map d k of None \<Rightarrow> (dict_map d)(k \<mapsto> dflt) | Some _ \<Rightarrow> dict_map d)"
  using inv
proof (cases rule: key_cases [where key = k])
  case absent
  then show ?thesis using add_spec [OF inv absent(1) small, of dflt] that
    by (simp add: locate_addIfNotFound_def) metis
next
  case (removed i)
  note sp = revive_spec [OF inv removed(1,3,7) refl, of dflt]
  show ?thesis
    by (rule that [of i, OF _ sp(1)]) (use removed sp(2,3) in \<open>simp_all add: locate_addIfNotFound_def set_entry_def\<close>)
next
  case (present i)
  show ?thesis by (rule that [OF _ inv present(1-3)]) (use present in \<open>simp_all add: locate_addIfNotFound_def\<close>)
qed

lemma dict_index_implements:
  assumes inv: "dict_inv d" and small: "length (d_elems d) < 2 ^ 31"
  shows "implements d (dict_step dflt (DIndex k) d) (map_step dflt (DIndex k) (dict_map d))"
    and "implements d (dict_step dflt (DAssign k v) d) (map_step dflt (DAssign k v) (dict_map d))"
proof -
  obtain i d' where l: "locate_addIfNotFound dflt d k = Some (i, d')" "dict_inv d'"
    "i < length (d_elems d')" "e_key (d_elems d' ! i) = k" "\<not> e_removed (d_elems d' ! i)"
    "length (d_elems d') \<le> Suc (length (d_elems d))"
    and m: "dict_map d' = (case dict_map d k of None \<Rightarrow> (dict_map d)(k \<mapsto> dflt) | Some _ \<Rightarrow> dict_map d)"
    using locate_addIfNotFound_spec [OF inv small] by blast
  have "key_ndx (d_elems d') k = Some i" using key_ndx_nth [OF dict_inv_distinct [OF l(2)] l(3)] l(4) by simp
  then have "dict_map d' k = Some (e_val (d_elems d' ! i))"
    using map_of_live [OF dict_inv_distinct [OF l(2)], of k] l(5) by (simp add: dict_map_def)
  then show "implements d (dict_step dflt (DIndex k) d) (map_step dflt (DIndex k) (dict_map d))"
    using l m by (auto simp: implements_def dict_index_def split: option.splits)
  note sp = assign_spec [OF l(2,3,5) refl, of v]
  have "dict_map (set_entry d' i (\<lambda>e. e\<lparr>e_val := v\<rparr>)) = (dict_map d)(k \<mapsto> v)"
    using sp(3) l(4) m by (auto split: option.splits)
  then show "implements d (dict_step dflt (DAssign k v) d) (map_step dflt (DAssign k v) (dict_map d))"
    using l sp by (simp add: implements_def dict_index_assign_def)
qed

lemma dict_remove_implements:
  assumes inv: "dict_inv d"
  shows "implements d (dict_step dflt (DGetRemove k) d) (map_step dflt (DGetRemove k) (dict_map d)) \<and>
    implements d (dict_step dflt (DFindRemove k) d) (map_step dflt (DFindRemove k) (dict_map d)) \<and>
    implements d (dict_step dflt (DUndef k) d) (map_step dflt (DUndef k) (dict_map d))"
  using inv
proof (cases rule: key_cases [where key = k])
  case (present i)
  obtain d' where "mark_removed d i = Some d'" "dict_inv d'" "dict_map d' = (dict_map d)(k := None)"
    "length (d_elems d') = length (d_elems d)" "e_val (d_elems d' ! i) = e_val (d_elems d ! i)"
    using mark_removed_spec [OF inv present(1,3)] present(2) by metis
  then show ?thesis using present
    by (simp add: implements_def get_and_remove_def find_and_remove_def dict_undef_def)
qed (use inv in \<open>simp_all add: implements_def get_and_remove_def find_and_remove_def dict_undef_def fun_upd_idem\<close>)

lemma dict_query_implements:
  assumes inv: "dict_inv d"
  shows "implements d (dict_step dflt (DGet k) d) (map_step dflt (DGet k) (dict_map d))"
    and "implements d (dict_step dflt (DFind k) d) (map_step dflt (DFind k) (dict_map d))"
    and "implements d (dict_step dflt (DDefines k) d) (map_step dflt (DDefines k) (dict_map d))"
  using inv
  by (cases rule: key_cases [where key = k];
      simp add: implements_def dict_get_def dict_find_def dict_defines_def)+

lemma card_dict_map:
  assumes "dict_inv d"
  shows "card (dom (dict_map d)) = length (d_elems d) - num_removed_elems d"
proof -
  have "card (dom (dict_map d)) = length (live (d_elems d))"
    using distinct_card [OF distinct_live [OF dict_inv_distinct [OF assms]]]
    by (simp add: dict_map_def dom_map_of_conv_image_fst)
  also have "\<dots> = length (d_elems d) - num_removed_elems d"
    using sum_length_filter_compl [of e_removed "d_elems d"] dict_inv_nrem [OF assms] by (simp add: live_def)
  finally show ?thesis .
qed

lemma dict_clear_implements:
  assumes inv: "dict_inv d"
  shows "implements d (dict_step dflt DClear d) (map_step dflt DClear (dict_map d))"
proof -
  define d' where "d' = d\<lparr>d_elems := [], d_bins := map (\<lambda>_. None) (d_bins d), num_removed_elems := 0\<rparr>"
  have "d_bins d' = replicate (length (d_bins d)) None" by (simp add: d'_def map_replicate_const)
  then have "chains_ok (d_elems d') (d_bins d') (length (d_elems d'))"
    by (simp add: chains_ok_0 d'_def)
  then have "dict_inv d'"
    using dict_invD(1-4) [OF inv] by (intro dict_invI) (simp_all add: d'_def)
  moreover have "dict_clear d = Some d'" by (simp add: dict_clear_def dict_size_def enoughBins_def d'_def Let_def)
  ultimately show ?thesis by (simp add: implements_def dict_map_def live_def d'_def)
qed

lemma dict_step_implements:
  assumes "dict_inv d" and "length (d_elems d) < 2 ^ 31"
  shows "implements d (dict_step dflt x d) (map_step dflt x (dict_map d))"
proof (cases x)
  case DSize
  have "num_removed_elems d \<le> length (d_elems d)" using dict_inv_nrem [OF assms(1)] by simp
  then show ?thesis using DSize assms(1) card_dict_map [OF assms(1)]
    by (simp add: implements_def dict_size_def)
qed (simp_all only: dict_set_implements [OF assms] dict_index_implements [OF assms]
    dict_remove_implements [OF assms(1)] dict_query_implements [OF assms(1)] dict_clear_implements [OF assms(1)])

lemma run_implements:
  "dict_inv d \<Longrightarrow> length (d_elems d) + length xs \<le> 2 ^ 31 \<Longrightarrow>
   map_option (apsnd dict_map) (run_out (dict_step dflt) xs d) = run_out (map_step dflt) xs (dict_map d)"
proof (induction xs arbitrary: d)
  case (Cons x xs)
  have small: "length (d_elems d) < 2 ^ 31" using Cons.prems(2) by simp
  note step = dict_step_implements [OF Cons.prems(1) small, of dflt x]
  show ?case
  proof (cases "map_step dflt x (dict_map d)")
    case None
    then show ?thesis using step by (simp add: implements_def)
  next
    case (Some ym)
    then obtain y m where ym: "map_step dflt x (dict_map d) = Some (y, m)" by (cases ym) auto
    then obtain d' where d': "dict_step dflt x d = Some (y, d')" "dict_inv d'" "dict_map d' = m"
      "length (d_elems d') \<le> Suc (length (d_elems d))" using step by (auto simp: implements_def)
    have "map_option (apsnd dict_map) (run_out (dict_step dflt) xs d') = run_out (map_step dflt) xs m"
      using Cons.IH [OF d'(2)] Cons.prems(2) d'(3,4) by simp
    then show ?thesis using ym d'(1)
      by (cases "run_out (dict_step dflt) xs d'") (auto dest: sym)
  qed
qed simp

lemma dictionary_hash_new_inv:
  fixes hf :: "'k \<Rightarrow> u32"
  assumes "0 < load" "load < 1000" "0 < nbins" "nbins * load < 2 ^ 32"
  obtains d :: "('k, 'v) dictionary_hash" where "dictionary_hash_new hf nbins load = Some d" and "dict_inv d"
    and "dict_map d = Map.empty" and "d_elems d = []"
proof -
  define d :: "('k, 'v) dictionary_hash" where
    "d = \<lparr>d_elems = [], d_bins = replicate nbins None, num_removed_elems = 0,
          max_bin_load = load, bin_grow_factor = 2, hasher = hf\<rparr>"
  have "dictionary_hash_new hf nbins load = Some d"
    using assms by (simp add: dictionary_hash_new_def Let_def enoughBins_def d_def)
  moreover have "dict_inv d"
    using assms by (intro dict_invI) (simp_all add: d_def chains_ok_0)
  ultimately show ?thesis using that by (simp add: d_def dict_map_def live_def)
qed

section \<open>Iteration\<close>

text \<open>Skipping removed entries leaves the same live entries to visit, and stops at the first of them.\<close>

lemma make_valid_or_end_skip:
  "filter (\<lambda>e. \<not> e_removed e) (drop (make_valid_or_end es i) es) = filter (\<lambda>e. \<not> e_removed e) (drop i es) \<and>
   (make_valid_or_end es i < length es \<longrightarrow> \<not> e_removed (es ! make_valid_or_end es i))"
proof (induction es i rule: make_valid_or_end.induct)
  case (1 es i)
  show ?case
  proof (cases "i < length es \<and> e_removed (es ! i)")
    case True
    then have "make_valid_or_end es i = make_valid_or_end es (i + 1)" by (subst make_valid_or_end.simps) simp
    moreover have "filter (\<lambda>e. \<not> e_removed e) (drop i es) = filter (\<lambda>e. \<not> e_removed e) (drop (i + 1) es)"
      using True by (simp flip: Cons_nth_drop_Suc)
    ultimately show ?thesis using 1 True by simp
  next
    case False
    then have "make_valid_or_end es i = i" by (subst make_valid_or_end.simps) auto
    then show ?thesis using False by simp
  qed
qed

lemma collect_eq:
  "(i < length es \<longrightarrow> \<not> e_removed (es ! i)) \<Longrightarrow>
   collect f es i = map f (filter (\<lambda>e. \<not> e_removed e) (drop i es))"
proof (induction f es i rule: collect.induct)
  case (1 f es i)
  show ?case
  proof (cases "i < length es")
    case True
    have "collect f es (move_to_next es i) = map f (filter (\<lambda>e. \<not> e_removed e) (drop (move_to_next es i) es))"
      using 1(1) [OF True] make_valid_or_end_skip [of es "i + 1"] by (simp add: move_to_next_def)
    also have "\<dots> = map f (filter (\<lambda>e. \<not> e_removed e) (drop (Suc i) es))"
      using make_valid_or_end_skip [of es "Suc i"] by (simp add: move_to_next_def)
    finally show ?thesis using True 1(2) by (simp add: collect.simps [of f es i] flip: Cons_nth_drop_Suc)
  next
    case False
    then show ?thesis by (simp add: collect.simps)
  qed
qed

lemma collect_all: "collect f (d_elems d) (dict_begin d) = map f (filter (\<lambda>e. \<not> e_removed e) (d_elems d))"
  using make_valid_or_end_skip [of "d_elems d" 0] collect_eq [of "dict_begin d" "d_elems d" f]
  by (simp add: dict_begin_def)

section \<open>Properties\<close>

text \<open>A dictionary with a live and a removed entry.\<close>

definition demo_dict :: "(u32, nat) dictionary_hash" where
  "demo_dict = \<lparr>d_elems =
       [\<lparr>e_key = 1, e_val = 10, key_hashval = 1, e_removed = True, e_next = None\<rparr>,
        \<lparr>e_key = 3, e_val = 30, key_hashval = 3, e_removed = False, e_next = Some 0\<rparr>],
     d_bins = [Some 1], num_removed_elems = 1, max_bin_load = 70, bin_grow_factor = 2,
     hasher = (\<lambda>x. x)\<rparr>"

lemma demo_dict_inv: "dict_inv demo_dict"
  by (simp add: dict_inv_def demo_dict_def hash31_def chains_ok_def in_bin_def)

text \<open>
  C29: A dictionary behaves as a finite map, whatever hash function it is given: for any sequence of at
  most \<open>2\<^sup>31\<close> operations on a new dictionary, the results are those of the same operations on the empty
  map, the dictionary holds the resulting map, and the program aborts exactly when the map says so
  (\<open>set\<close> of a key that is there, \<open>get\<close> or \<open>get_and_remove\<close> of one that is not); no other assertion
  fails, no chain is endless, and growing and the reuse of removed entries are not observable.
\<close>

theorem dictionary_refines_map:
  fixes ops :: "('k, 'v) dict_op list"
  assumes "0 < load" "load < 1000" "0 < nbins" "nbins * load < 2 ^ 32" and "length ops \<le> 2 ^ 31"
  shows "\<exists>d. dictionary_hash_new hf nbins load = Some d \<and>
    map_option (apsnd dict_map) (run_out (dict_step dflt) ops d) = run_out (map_step dflt) ops Map.empty"
proof -
  obtain d :: "('k, 'v) dictionary_hash" where d: "dictionary_hash_new hf nbins load = Some d" "dict_inv d" "dict_map d = Map.empty"
    "d_elems d = []"
    using dictionary_hash_new_inv [OF assms(1-4)] by blast
  then show ?thesis using run_implements [OF d(2), of ops dflt] assms(5) by simp
qed

theorem dictionary_refines_map_witness:
  "\<exists>d. dictionary_hash_new (addrHash4 :: u32 \<Rightarrow> u32) 101 70 = Some d \<and>
    map_option (apsnd dict_map) (run_out (dict_step (0 :: nat)) [DSet 4 1, DUndef 4, DSet 4 2, DFind 4] d) =
      run_out (map_step 0) [DSet 4 1, DUndef 4, DSet 4 2, DFind 4] Map.empty"
  by (rule dictionary_refines_map) simp_all

text \<open>
  C30: The iterator visits every key of the dictionary exactly once, with its value: \<open>keys\<close>, \<open>values\<close>
  and \<open>keysAndValues\<close> run over the same entries, the keys are distinct, the pairs are the map the
  dictionary stands for, and there are as many as \<open>size\<close> says.
\<close>

theorem iteration_visits_the_map:
  assumes "dict_inv d"
  shows "map_of (keysAndValues d) = dict_map d \<and> distinct (dict_keys d) \<and>
    keysAndValues d = zip (dict_keys d) (dict_values d) \<and> dict_size d = Some (length (keysAndValues d))"
proof (intro conjI)
  show "map_of (keysAndValues d) = dict_map d"
    by (simp add: keysAndValues_def collect_all dict_map_def live_def)
  show "distinct (dict_keys d)"
    using dict_inv_distinct [OF assms] by (simp add: dict_keys_def collect_all distinct_map_filter)
  show "keysAndValues d = zip (dict_keys d) (dict_values d)"
    by (simp add: keysAndValues_def dict_keys_def dict_values_def collect_all zip_map_map map_eq_conv flip: map_map)
      (simp add: zip_same_conv_map)
  show "dict_size d = Some (length (keysAndValues d))"
    using sum_length_filter_compl [of e_removed "d_elems d"] dict_inv_nrem [OF assms]
    by (simp add: dict_size_def keysAndValues_def collect_all)
qed

theorem iteration_visits_the_map_witness:
  "map_of (keysAndValues demo_dict) = dict_map demo_dict \<and> distinct (dict_keys demo_dict) \<and>
    keysAndValues demo_dict = zip (dict_keys demo_dict) (dict_values demo_dict) \<and>
    dict_size demo_dict = Some (length (keysAndValues demo_dict))"
  by (rule iteration_visits_the_map) (rule demo_dict_inv)

end
