(* ===== verification/Springboard.thy ===== *)
theory Springboard
  imports BitUtils
begin

text \<open>
  Springboards of the daemon (\<open>kerninstd/springboard/src\<close>): small code areas that extend the reach of
  a spliced-in branch. A \<open>springboardChunk\<close> is an array of springboards with a stack of the free ones;
  the \<open>SpringBoardHeap\<close> searches the chunks for a springboard whose address a given branch can reach
  and which does not share an instruction cache line with either end of the branch. The build with
  32-bit kernel addresses is modelled, so a springboard has 12 bytes.

  A failed assertion or an access outside of a vector is \<^const>\<open>None\<close>; the exception
  \<open>CouldntFindOneFreeInRange\<close> is \<open>Inl\<close>. The number \<open>UINT_MAX\<close> is \<open>- 1\<close>. Debug output and timings are
  left out. The nucleus bounds, which the heap asks the kernel driver for, are an argument.
\<close>

section \<open>A chunk of springboards\<close>

record springboardChunk =
  chunkStartAddr :: kptr
  free_items :: "u32 list"
  top :: u32

definition sizeOfSpringBoardItem :: u32 where
  "sizeOfSpringBoardItem = 12"

definition springboardChunk_new :: "kptr \<Rightarrow> u32 \<Rightarrow> springboardChunk" where
  "springboardChunk_new startAddr nbytes =
     (let total_num_items = nbytes div sizeOfSpringBoardItem
      in \<lparr>chunkStartAddr = startAddr, free_items = map of_nat [0..<unat total_num_items],
          top = total_num_items - 1\<rparr>)"

definition containsAddress :: "springboardChunk \<Rightarrow> kptr \<Rightarrow> bool" where
  "containsAddress c addr =
     (let heapEndAddr = chunkStartAddr c + sizeOfSpringBoardItem * of_nat (length (free_items c))
      in chunkStartAddr c \<le> addr \<and> addr < heapEndAddr)"

definition ndxToAddr :: "springboardChunk \<Rightarrow> u32 \<Rightarrow> kptr" where
  "ndxToAddr c ndx = chunkStartAddr c + ndx * sizeOfSpringBoardItem"

definition getMaxNdx :: "springboardChunk \<Rightarrow> u32 option" where
  "getMaxNdx c = do { assert (length (free_items c) > 0); Some (of_nat (length (free_items c)) - 1) }"

definition calcNumBytesInChunk :: "springboardChunk \<Rightarrow> kptr \<Rightarrow> kptr \<Rightarrow> (u32 \<times> u32) option" where
  "calcNumBytesInChunk c nucleusBoundsLow nucleusBoundsHi = do {
     let nbytes = of_nat (length (free_items c)) * sizeOfSpringBoardItem;
     let startaddr_within_nucleus =
       (nucleusBoundsLow \<le> chunkStartAddr c \<and> chunkStartAddr c \<le> nucleusBoundsHi);
     let chunkLastAddr = chunkStartAddr c + nbytes - 1;
     let lastaddr_within_nucleus = (nucleusBoundsLow \<le> chunkLastAddr \<and> chunkLastAddr \<le> nucleusBoundsHi);
     assert (startaddr_within_nucleus = lastaddr_within_nucleus);
     Some (if startaddr_within_nucleus then (nbytes, 0) else (0, nbytes))
   }"

definition hasASpringboardWhoseStartAddrIsInRangeOf :: "springboardChunk \<Rightarrow> kptr \<Rightarrow> kptr \<Rightarrow> bool option" where
  "hasASpringboardWhoseStartAddrIsInRangeOf c lowestOKAddr highestOKAddr = do {
     maxNdx \<leftarrow> getMaxNdx c;
     let lowestStartAddr = chunkStartAddr c;
     let highestStartAddr = chunkStartAddr c + maxNdx * sizeOfSpringBoardItem;
     Some ((lowestOKAddr \<le> lowestStartAddr \<and> lowestStartAddr \<le> highestOKAddr) \<or>
           (lowestOKAddr \<le> highestStartAddr \<and> highestStartAddr \<le> highestOKAddr))
   }"

definition vaddr2icacheline :: "kptr \<Rightarrow> u32 \<Rightarrow> u32" where
  "vaddr2icacheline addr numICacheLines = (addr div 32) mod numICacheLines"

text \<open>What a springboard must meet: its address, and its cache lines.\<close>

definition springboard_ok :: "kptr \<Rightarrow> kptr \<Rightarrow> kptr \<Rightarrow> kptr \<Rightarrow> u32 \<Rightarrow> kptr \<Rightarrow> bool" where
  "springboard_ok lowestAddr highestAddr fromAddr toAddr numICacheLines address =
     (let fromAddrCacheLine = vaddr2icacheline fromAddr numICacheLines;
          toAddrCacheLine = vaddr2icacheline toAddr numICacheLines;
          addressStartCacheLine = vaddr2icacheline address numICacheLines;
          addressEndCacheLine = vaddr2icacheline address numICacheLines
      in lowestAddr \<le> address \<and> address \<le> highestAddr \<and>
         (numICacheLines = - 1 \<or>
          (fromAddrCacheLine \<noteq> addressStartCacheLine \<and> fromAddrCacheLine \<noteq> addressEndCacheLine \<and>
           toAddrCacheLine \<noteq> addressStartCacheLine \<and> toAddrCacheLine \<noteq> addressEndCacheLine)))"

text \<open>
  The search loop; \<open>free_items_ndx\<close> counts down to 0. As in the source, every round looks at the
  item \<open>free_items[top]\<close>.
\<close>

fun alloc_loop :: "(kptr \<Rightarrow> bool) \<Rightarrow> springboardChunk \<Rightarrow> nat \<Rightarrow> (u32 \<times> springboardChunk) option" where
  "alloc_loop ok c free_items_ndx =
     (if length (free_items c) \<le> unat (top c) then None
      else
        let result = free_items c ! unat (top c);
            address = chunkStartAddr c + result * sizeOfSpringBoardItem
        in if ok address then Some (result, c\<lparr>top := (if top c = 0 then - 1 else top c - 1)\<rparr>)
           else (case free_items_ndx of 0 \<Rightarrow> Some (- 1, c) | Suc n \<Rightarrow> alloc_loop ok c n))"

declare alloc_loop.simps [simp del]

definition allocSpringboardWithStartAddrWithinRangeOf ::
  "springboardChunk \<Rightarrow> kptr \<Rightarrow> kptr \<Rightarrow> kptr \<Rightarrow> kptr \<Rightarrow> u32 \<Rightarrow> (u32 \<times> springboardChunk) option" where
  "allocSpringboardWithStartAddrWithinRangeOf c lowestAddr highestAddr fromAddr toAddr numICacheLines =
     (if top c = - 1 then Some (- 1, c)
      else alloc_loop (springboard_ok lowestAddr highestAddr fromAddr toAddr numICacheLines) c (unat (top c)))"

definition chunk_free :: "springboardChunk \<Rightarrow> u32 \<Rightarrow> springboardChunk option" where
  "chunk_free c ndx = do {
     let top' = (if top c = - 1 then 0 else top c + 1);
     assert (unat top' < length (free_items c));
     Some (c\<lparr>top := top', free_items := (free_items c)[unat top' := ndx]\<rparr>)
   }"

section \<open>The heap of chunks\<close>

record sb_item =
  chunk_ndx :: nat
  item_within_chunk_ndx :: u32

record SpringBoardHeap =
  chunks :: "springboardChunk list"
  chunksPresentlySorted :: bool

datatype sb_exception = CouldntFindOneFreeInRange

definition SpringBoardHeap_new :: SpringBoardHeap where
  "SpringBoardHeap_new = \<lparr>chunks = [], chunksPresentlySorted = True\<rparr>"

definition calcNumBytesInHeap :: "kptr \<times> kptr \<Rightarrow> SpringBoardHeap \<Rightarrow> (u32 \<times> u32) option" where
  "calcNumBytesInHeap theNucleusTextBounds h =
     fold (\<lambda>c result. do {
             (a, b) \<leftarrow> result;
             (x, y) \<leftarrow> calcNumBytesInChunk c (fst theNucleusTextBounds) (snd theNucleusTextBounds);
             Some (a + x, b + y)
           }) (chunks h) (Some (0, 0))"

definition addChunk :: "SpringBoardHeap \<Rightarrow> kptr \<Rightarrow> u32 \<Rightarrow> SpringBoardHeap" where
  "addChunk h startAddr len =
     h\<lparr>chunks := chunks h @ [springboardChunk_new startAddr len], chunksPresentlySorted := False\<rparr>"

definition removeChunk :: "SpringBoardHeap \<Rightarrow> kptr \<Rightarrow> SpringBoardHeap option" where
  "removeChunk h startAddr =
     (case find_ndx (\<lambda>c. chunkStartAddr c = startAddr) (chunks h) of
        None \<Rightarrow> None
      | Some i \<Rightarrow> Some (h\<lparr>chunks := swap_remove i (chunks h)\<rparr>))"

definition sortChunks :: "SpringBoardHeap \<Rightarrow> SpringBoardHeap" where
  "sortChunks h = h\<lparr>chunks := sort_key chunkStartAddr (chunks h), chunksPresentlySorted := True\<rparr>"

text \<open>
  The two comparisons of \<open>okItemBoundsComparitor_less\<close>, and \<open>std::equal_range\<close> with them on a sorted
  vector: from the first chunk that is not below the bounds to the first one above. A chunk without
  springboards makes the first comparison abort; on a vector the bounds do not partition, the result
  of \<open>std::equal_range\<close> is unspecified, which counts as an abort too.
\<close>

definition chunk_below :: "kptr \<Rightarrow> springboardChunk \<Rightarrow> bool option" where
  "chunk_below lowOK c = do { m \<leftarrow> getMaxNdx c; Some (ndxToAddr c m < lowOK) }"

definition chunk_above :: "kptr \<Rightarrow> springboardChunk \<Rightarrow> bool" where
  "chunk_above hiOK c = (hiOK < ndxToAddr c 0)"

definition equal_range :: "kptr \<Rightarrow> kptr \<Rightarrow> springboardChunk list \<Rightarrow> (nat \<times> nat) option" where
  "equal_range lowOK hiOK cs = do {
     assert (list_all (\<lambda>c. free_items c \<noteq> []) cs);
     let first = length (takeWhile (\<lambda>c. chunk_below lowOK c = Some True) cs);
     let second = length (takeWhile (\<lambda>c. \<not> chunk_above hiOK c) cs);
     assert (first \<le> second);
     Some (first, second)
   }"

text \<open>The linear search through the chunks in range.\<close>

fun alloc_part2 :: "kptr \<Rightarrow> kptr \<Rightarrow> kptr \<Rightarrow> kptr \<Rightarrow> u32 \<Rightarrow> nat list \<Rightarrow> SpringBoardHeap \<Rightarrow>
  (sb_exception + sb_item \<times> SpringBoardHeap) option" where
  "alloc_part2 lowestOKAddr highestOKAddr fromAddr toAddr num32ByteICacheLines [] h =
     Some (Inl CouldntFindOneFreeInRange)"
| "alloc_part2 lowestOKAddr highestOKAddr fromAddr toAddr num32ByteICacheLines (low # lows) h = do {
     (ndx_within_chunk, c) \<leftarrow> allocSpringboardWithStartAddrWithinRangeOf (chunks h ! low)
       lowestOKAddr highestOKAddr fromAddr toAddr num32ByteICacheLines;
     if ndx_within_chunk \<noteq> - 1 then
       Some (Inr (\<lparr>chunk_ndx = low, item_within_chunk_ndx = ndx_within_chunk\<rparr>, h\<lparr>chunks := (chunks h)[low := c]\<rparr>))
     else alloc_part2 lowestOKAddr highestOKAddr fromAddr toAddr num32ByteICacheLines lows h
   }"

definition SpringBoardHeap_alloc :: "kptr \<Rightarrow> kptr \<Rightarrow> kptr \<Rightarrow> kptr \<Rightarrow> SpringBoardHeap \<Rightarrow>
  (sb_exception + sb_item \<times> SpringBoardHeap) option" where
  "SpringBoardHeap_alloc lowestOKAddr highestOKAddr fromAddr toAddr h = do {
     assert (chunksPresentlySorted h);
     (first, second) \<leftarrow> equal_range lowestOKAddr highestOKAddr (chunks h);
     if first = second then Some (Inl CouldntFindOneFreeInRange)
     else do {
       assert (list_all (\<lambda>i. hasASpringboardWhoseStartAddrIsInRangeOf (chunks h ! i) lowestOKAddr highestOKAddr
                               = Some True) [first..<second]);
       let part2 = (\<lambda>lines. alloc_part2 lowestOKAddr highestOKAddr fromAddr toAddr lines [first..<second] h);
       r1 \<leftarrow> part2 (8192 div 32);
       (case r1 of
          Inr x \<Rightarrow> Some (Inr x)
        | Inl _ \<Rightarrow> do {
            r2 \<leftarrow> part2 (16384 div 32);
            (case r2 of Inr x \<Rightarrow> Some (Inr x) | Inl _ \<Rightarrow> part2 (- 1))
          })
     }
   }"

definition SpringBoardHeap_free :: "SpringBoardHeap \<Rightarrow> sb_item \<Rightarrow> SpringBoardHeap option" where
  "SpringBoardHeap_free h i = do {
     assert (chunk_ndx i < length (chunks h));
     c \<leftarrow> chunk_free (chunks h ! chunk_ndx i) (item_within_chunk_ndx i);
     Some (h\<lparr>chunks := (chunks h)[chunk_ndx i := c]\<rparr>)
   }"

definition item2addr :: "SpringBoardHeap \<Rightarrow> sb_item \<Rightarrow> kptr" where
  "item2addr h i = ndxToAddr (chunks h ! chunk_ndx i) (item_within_chunk_ndx i)"

section \<open>Invariant\<close>

text \<open>The stack of the free springboards; its top is the last element.\<close>

definition stack :: "springboardChunk \<Rightarrow> u32 list" where
  "stack c = (if top c = - 1 then [] else take (Suc (unat (top c))) (free_items c))"

definition chunk_ok :: "springboardChunk \<Rightarrow> bool" where
  "chunk_ok c \<longleftrightarrow> length (free_items c) < 2 ^ 31 \<and> (top c = - 1 \<or> unat (top c) < length (free_items c)) \<and>
     distinct (stack c) \<and> (\<forall>x \<in> set (stack c). unat x < length (free_items c))"

lemma unat_minus_1: "unat (- 1 :: u32) = 2 ^ 32 - 1"
  by (simp add: unsigned_minus_1_eq_mask mask_eq_exp_minus_1)

lemma top_cases:
  assumes "chunk_ok c"
  obtains (empty) "top c = - 1" "stack c = []"
  | (item) "top c \<noteq> - 1" "unat (top c) < length (free_items c)" "stack c \<noteq> []"
      "last (stack c) = free_items c ! unat (top c)" "length (stack c) = Suc (unat (top c))"
proof (cases "top c = - 1")
  case True
  then show ?thesis using empty by (simp add: stack_def)
next
  case False
  then have t: "unat (top c) < length (free_items c)" using assms by (simp add: chunk_ok_def)
  have st: "stack c = take (unat (top c)) (free_items c) @ [free_items c ! unat (top c)]"
    using False t by (simp add: stack_def take_Suc_conv_app_nth)
  show ?thesis by (rule item [OF False t]) (use st t in \<open>simp_all add: min_def\<close>)
qed

lemma chunk_new_ok:
  shows "chunk_ok (springboardChunk_new a nbytes)"
    and "set (stack (springboardChunk_new a nbytes)) = {x. unat x < unat (nbytes div 12)}"
    and "length (free_items (springboardChunk_new a nbytes)) = unat (nbytes div 12)"
proof -
  let ?c = "springboardChunk_new a nbytes" and ?t = "nbytes div 12"
  have n: "unat ?t < 2 ^ 31"
  proof -
    have "unat ?t = unat nbytes div 12" by (simp add: unat_div)
    then show ?thesis using unat_less32 [of nbytes] by simp
  qed
  have c: "free_items ?c = map of_nat [0..<unat ?t]" "top ?c = ?t - 1"
    by (simp_all add: springboardChunk_new_def Let_def sizeOfSpringBoardItem_def)
  have st: "stack ?c = map of_nat [0..<unat ?t]"
  proof (cases "?t = 0")
    case True
    then show ?thesis by (simp add: stack_def c)
  next
    case False
    then have u: "unat (?t - 1) = unat ?t - 1" "0 < unat ?t" using unat_minus_one [of ?t] by (auto simp: unat_gt_0)
    then have "?t - 1 \<noteq> - 1" using False by (metis diff_add_cancel add.left_inverse)
    then show ?thesis using u by (simp add: stack_def c)
  qed
  have mem: "x \<in> set (stack ?c) \<longleftrightarrow> unat x < unat ?t" for x
  proof
    assume "x \<in> set (stack ?c)"
    then show "unat x < unat ?t" using n by (auto simp: st)
  next
    assume "unat x < unat ?t"
    then show "x \<in> set (stack ?c)" by (auto simp: st image_iff intro!: bexI [of _ "unat x"])
  qed
  have "inj_on (of_nat :: nat \<Rightarrow> u32) {0..<unat ?t}"
  proof (rule inj_onI)
    fix i j assume "i \<in> {0..<unat ?t}" "j \<in> {0..<unat ?t}" and e: "(of_nat i :: u32) = of_nat j"
    then have "i < 2 ^ 32" "j < 2 ^ 32" using n by auto
    then show "i = j" using arg_cong [OF e, of unat] by (simp only: unat_of_nat32)
  qed
  then have "distinct (stack ?c)" by (simp add: st distinct_map)
  moreover have "?t - 1 = - 1 \<or> unat (?t - 1) < unat ?t"
    using unat_minus_one [of ?t] unat_gt_0 [of ?t] by (cases "?t = 0") auto
  ultimately show "chunk_ok ?c" using n mem by (simp add: chunk_ok_def c)
  show "set (stack ?c) = {x. unat x < unat ?t}" using mem by blast
  show "length (free_items ?c) = unat ?t" by (simp add: c)
qed

section \<open>Allocation in a chunk\<close>

text \<open>However many rounds the search makes, it accepts or rejects the item at the top of the stack.\<close>

lemma alloc_loop_eq:
  assumes "unat (top c) < length (free_items c)"
  shows "alloc_loop ok c n =
    (let x = free_items c ! unat (top c)
     in if ok (ndxToAddr c x) then Some (x, c\<lparr>top := top c - 1\<rparr>) else Some (- 1, c))"
proof (induction n)
  case 0
  show ?case using assms by (subst alloc_loop.simps) (simp add: Let_def ndxToAddr_def)
next
  case (Suc n)
  show ?case using assms Suc by (subst alloc_loop.simps) (simp add: Let_def ndxToAddr_def)
qed

lemma alloc_tries_only_the_top:
  assumes "chunk_ok c"
  shows "allocSpringboardWithStartAddrWithinRangeOf c lo hi from to lines =
    Some (if stack c \<noteq> [] \<and> springboard_ok lo hi from to lines (ndxToAddr c (last (stack c)))
          then (last (stack c), c\<lparr>top := top c - 1\<rparr>) else (- 1, c))"
  using assms
proof (cases rule: top_cases)
  case empty
  then show ?thesis by (simp add: allocSpringboardWithStartAddrWithinRangeOf_def)
next
  case item
  then show ?thesis
    by (simp add: allocSpringboardWithStartAddrWithinRangeOf_def alloc_loop_eq Let_def)
qed

lemma chunk_pop:
  assumes ok: "chunk_ok c" and ne: "stack c \<noteq> []"
  shows "chunk_ok (c\<lparr>top := top c - 1\<rparr>)" and "stack (c\<lparr>top := top c - 1\<rparr>) = butlast (stack c)"
    and "last (stack c) \<noteq> - 1" and "unat (last (stack c)) < length (free_items c)"
proof -
  have t: "top c \<noteq> - 1" "unat (top c) < length (free_items c)"
    using ok ne by (cases rule: top_cases, auto)+
  have st: "stack c = take (Suc (unat (top c))) (free_items c)" using t by (simp add: stack_def)
  show pop: "stack (c\<lparr>top := top c - 1\<rparr>) = butlast (stack c)"
  proof (cases "top c = 0")
    case True
    then show ?thesis using t by (cases "free_items c") (simp_all add: stack_def)
  next
    case False
    then have u: "unat (top c - 1) = unat (top c) - 1" "0 < unat (top c)"
      using unat_minus_one [of "top c"] by (auto simp: unat_gt_0)
    moreover have "top c - 1 \<noteq> - 1" using False by (metis diff_add_cancel add.left_inverse)
    ultimately show ?thesis using t st by (simp add: stack_def butlast_take)
  qed
  have l: "last (stack c) \<in> set (stack c)" using ne by simp
  then show len: "unat (last (stack c)) < length (free_items c)" using ok by (simp add: chunk_ok_def)
  then show "last (stack c) \<noteq> - 1" using ok unat_minus_1 by (auto simp: chunk_ok_def)
  have "top c - 1 = - 1 \<or> unat (top c - 1) < length (free_items c)"
    using t(2) unat_minus_one [of "top c"] by (cases "top c = 0") auto
  then show "chunk_ok (c\<lparr>top := top c - 1\<rparr>)"
    unfolding chunk_ok_def pop using ok by (auto simp: chunk_ok_def distinct_butlast dest: in_set_butlastD)
qed

lemma chunk_push:
  assumes ok: "chunk_ok c" and x: "unat x < length (free_items c)" "x \<notin> set (stack c)"
  obtains c' where "chunk_free c x = Some c'" and "chunk_ok c'" and "stack c' = stack c @ [x]"
    and "length (free_items c') = length (free_items c)" and "chunkStartAddr c' = chunkStartAddr c"
proof -
  let ?n = "length (free_items c)"
  have "card (unat ` set (x # stack c)) \<le> card {..<?n}"
    using ok x(1) by (intro card_mono) (auto simp: chunk_ok_def)
  moreover have "inj_on unat (set (x # stack c))" by (rule inj_onI) (simp add: word_unat_eq_iff)
  then have "card (unat ` set (x # stack c)) = length (x # stack c)"
    using ok x(2) distinct_card [of "x # stack c"] by (simp only: card_image) (simp add: chunk_ok_def)
  ultimately have room: "length (stack c) < ?n" by simp
  define t' where "t' = (if top c = - 1 then 0 else top c + 1)"
  have t': "unat t' = length (stack c)"
    using ok
  proof (cases rule: top_cases)
    case empty
    then show ?thesis by (simp add: t'_def)
  next
    case item
    then have "unat (top c) + unat (1 :: u32) < 2 ^ LENGTH(32)" using ok by (simp add: chunk_ok_def)
    then have "unat (top c + 1) = unat (top c) + unat (1 :: u32)" using unat_add_lem by blast
    then show ?thesis using item by (simp add: t'_def)
  qed
  then have nt: "t' \<noteq> - 1" using room ok unat_minus_1 by (auto simp: chunk_ok_def)
  define c' where "c' = c\<lparr>top := t', free_items := (free_items c)[unat t' := x]\<rparr>"
  have f: "chunk_free c x = Some c'" using room t' by (simp add: chunk_free_def Let_def c'_def t'_def)
  have pre: "take (length (stack c)) (free_items c) = stack c"
    using ok by (cases rule: top_cases) (simp_all add: stack_def)
  have "stack c' = take (Suc (unat t')) ((free_items c)[unat t' := x])"
    using nt by (simp add: stack_def c'_def)
  then have st: "stack c' = stack c @ [x]" using room pre by (simp add: t' take_Suc_conv_app_nth)
  have "chunk_ok c'" using ok x room t' st by (simp add: chunk_ok_def [of c'] c'_def) (simp add: chunk_ok_def)
  then show ?thesis using that f st by (simp add: c'_def)
qed

section \<open>A chunk as a pool\<close>

text \<open>
  Allocation without regard to the cache, from a place that can reach every springboard of the chunk.
\<close>

definition sb_get :: "kptr \<Rightarrow> kptr \<Rightarrow> springboardChunk \<Rightarrow> (u32 \<times> springboardChunk) option" where
  "sb_get lo hi c =
     (case allocSpringboardWithStartAddrWithinRangeOf c lo hi 0 0 (- 1) of
        None \<Rightarrow> None
      | Some (x, c') \<Rightarrow> if x = - 1 then None else Some (x, c'))"

definition sb_put :: "u32 \<Rightarrow> springboardChunk \<Rightarrow> springboardChunk" where
  "sb_put x c = (case chunk_free c x of None \<Rightarrow> c | Some c' \<Rightarrow> c')"

definition reachable_chunk :: "kptr \<Rightarrow> nat \<Rightarrow> kptr \<Rightarrow> kptr \<Rightarrow> springboardChunk \<Rightarrow> bool" where
  "reachable_chunk a n lo hi c \<longleftrightarrow> chunk_ok c \<and> chunkStartAddr c = a \<and> length (free_items c) = n \<and>
     (\<forall>x. unat x < n \<longrightarrow> lo \<le> a + x * 12 \<and> a + x * 12 \<le> hi)"

lemma sb_get_eq:
  assumes "reachable_chunk a n lo hi c"
  shows "sb_get lo hi c = (if stack c = [] then None else Some (last (stack c), c\<lparr>top := top c - 1\<rparr>))"
proof (cases "stack c = []")
  case True
  then show ?thesis
    using assms by (simp add: sb_get_def alloc_tries_only_the_top reachable_chunk_def)
next
  case False
  have ok: "chunk_ok c" using assms by (simp add: reachable_chunk_def)
  have "springboard_ok lo hi 0 0 (- 1) (ndxToAddr c (last (stack c)))"
    using assms chunk_pop(4) [OF ok False]
    by (simp add: springboard_ok_def Let_def ndxToAddr_def sizeOfSpringBoardItem_def reachable_chunk_def)
  then show ?thesis
    using False chunk_pop(3) [OF ok False] by (simp add: sb_get_def alloc_tries_only_the_top [OF ok])
qed

interpretation sb: pool "sb_get lo hi" sb_put "\<lambda>c. set (stack c)" "reachable_chunk a n lo hi" "{x. unat x < n}"
  for a n lo hi
proof
  fix c assume "reachable_chunk a n lo hi c" "sb_get lo hi c = None"
  then show "set (stack c) = {}" using sb_get_eq [of a n lo hi c] by (cases "stack c = []") auto
next
  fix c x c' assume r: "reachable_chunk a n lo hi c" and g: "sb_get lo hi c = Some (x, c')"
  then have ne: "stack c \<noteq> []" and x: "x = last (stack c)" "c' = c\<lparr>top := top c - 1\<rparr>"
    using sb_get_eq [OF r] by (auto split: if_splits)
  have ok: "chunk_ok c" using r by (simp add: reachable_chunk_def)
  have st: "stack c = butlast (stack c) @ [last (stack c)]" using ne by simp
  have d: "distinct (butlast (stack c) @ [last (stack c)])" using ok ne by (simp add: chunk_ok_def)
  have "set (butlast (stack c)) = set (stack c) - {last (stack c)}"
    using d arg_cong [OF st, of set] by auto
  then show "x \<in> set (stack c) \<and> set (stack c') = set (stack c) - {x} \<and> reachable_chunk a n lo hi c'"
    using chunk_pop [OF ok ne] ne x r by (simp add: reachable_chunk_def)
next
  fix c x assume r: "reachable_chunk a n lo hi c" and x: "x \<in> {x. unat x < n}" "x \<notin> set (stack c)"
  then obtain c' where c': "chunk_free c x = Some c'" "chunk_ok c'" "stack c' = stack c @ [x]"
    "length (free_items c') = length (free_items c)" "chunkStartAddr c' = chunkStartAddr c"
    using chunk_push [of c x] by (auto simp: reachable_chunk_def)
  then show "set (stack (sb_put x c)) = insert x (set (stack c)) \<and> reachable_chunk a n lo hi (sb_put x c)"
    using r by (simp add: sb_put_def reachable_chunk_def)
qed

section \<open>Allocation in the heap\<close>

definition heap_ok :: "SpringBoardHeap \<Rightarrow> bool" where
  "heap_ok h \<longleftrightarrow> list_all chunk_ok (chunks h)"

lemma heap_ok_nth: "heap_ok h \<Longrightarrow> i < length (chunks h) \<Longrightarrow> chunk_ok (chunks h ! i)"
  by (simp add: heap_ok_def list_all_length)

lemma heap_ok_update: "heap_ok h \<Longrightarrow> chunk_ok c \<Longrightarrow> heap_ok (h\<lparr>chunks := (chunks h)[i := c]\<rparr>)"
  by (auto simp: heap_ok_def list_all_iff dest!: set_update_subset_insert [THEN subsetD])

text \<open>The free springboards of the heap.\<close>

definition free_sbs :: "SpringBoardHeap \<Rightarrow> (nat \<times> u32) set" where
  "free_sbs h = {(i, x). i < length (chunks h) \<and> x \<in> set (stack (chunks h ! i))}"

lemma free_sbs_update:
  assumes "i < length (chunks h)"
  shows "(j, y) \<in> free_sbs (h\<lparr>chunks := (chunks h)[i := c]\<rparr>) \<longleftrightarrow>
    (if j = i then y \<in> set (stack c) else (j, y) \<in> free_sbs h)"
  using assms by (simp add: free_sbs_def nth_list_update)

text \<open>Taking the top springboard of chunk \<open>i\<close>, and giving a springboard back.\<close>

lemma heap_pop:
  assumes "heap_ok h" and i: "i < length (chunks h)" and ne: "stack (chunks h ! i) \<noteq> []"
    and h': "h' = h\<lparr>chunks := (chunks h)[i := (chunks h ! i)\<lparr>top := top (chunks h ! i) - 1\<rparr>]\<rparr>"
    and x: "x = last (stack (chunks h ! i))"
  shows "heap_ok h'" and "(i, x) \<in> free_sbs h" and "free_sbs h' = free_sbs h - {(i, x)}"
proof -
  let ?c = "chunks h ! i"
  have ok: "chunk_ok ?c" using assms(1) i by (rule heap_ok_nth)
  note pop = chunk_pop [OF ok ne]
  show "heap_ok h'" unfolding h' using assms(1) pop(1) by (rule heap_ok_update)
  show "(i, x) \<in> free_sbs h" using i ne x by (simp add: free_sbs_def)
  have st: "stack ?c = butlast (stack ?c) @ [x]" using ne x by simp
  have "x \<notin> set (butlast (stack ?c))" using ok arg_cong [OF st, of distinct] by (simp add: chunk_ok_def)
  then have mem: "y \<in> set (butlast (stack ?c)) \<longleftrightarrow> y \<in> set (stack ?c) \<and> y \<noteq> x" for y
    using arg_cong [OF st, of "\<lambda>ys. y \<in> set ys"] by auto
  have "(j, y) \<in> free_sbs h' \<longleftrightarrow> (j, y) \<in> free_sbs h \<and> (j, y) \<noteq> (i, x)" for j y
    unfolding h' free_sbs_update [OF i] pop(2) mem using i by (simp add: free_sbs_def)
  then show "free_sbs h' = free_sbs h - {(i, x)}" by auto
qed

lemma heap_push:
  assumes "heap_ok h" and i: "chunk_ndx it < length (chunks h)"
    and x: "unat (item_within_chunk_ndx it) < length (free_items (chunks h ! chunk_ndx it))"
    and new: "(chunk_ndx it, item_within_chunk_ndx it) \<notin> free_sbs h"
  obtains h' where "SpringBoardHeap_free h it = Some h'" and "heap_ok h'"
    and "free_sbs h' = insert (chunk_ndx it, item_within_chunk_ndx it) (free_sbs h)"
proof -
  let ?c = "chunks h ! chunk_ndx it"
  have ok: "chunk_ok ?c" using assms(1) i by (rule heap_ok_nth)
  have "item_within_chunk_ndx it \<notin> set (stack ?c)" using new i by (simp add: free_sbs_def)
  then obtain c' where c': "chunk_free ?c (item_within_chunk_ndx it) = Some c'" "chunk_ok c'"
    "stack c' = stack ?c @ [item_within_chunk_ndx it]" using chunk_push [OF ok x] by blast
  define h' where "h' = h\<lparr>chunks := (chunks h)[chunk_ndx it := c']\<rparr>"
  have "SpringBoardHeap_free h it = Some h'" using i c'(1) by (simp add: SpringBoardHeap_free_def h'_def)
  moreover have "heap_ok h'" unfolding h'_def using assms(1) c'(2) by (rule heap_ok_update)
  moreover have "(j, y) \<in> free_sbs h' \<longleftrightarrow> (j, y) = (chunk_ndx it, item_within_chunk_ndx it) \<or> (j, y) \<in> free_sbs h" for j y
    unfolding h'_def free_sbs_update [OF i] c'(3) using i by (auto simp: free_sbs_def)
  then have "free_sbs h' = insert (chunk_ndx it, item_within_chunk_ndx it) (free_sbs h)" by auto
  ultimately show ?thesis using that by blast
qed

text \<open>A successful search takes the top springboard of one of the chunks, and it is in range.\<close>

definition sb_taken :: "kptr \<Rightarrow> kptr \<Rightarrow> SpringBoardHeap \<Rightarrow> sb_item \<Rightarrow> SpringBoardHeap \<Rightarrow> bool" where
  "sb_taken lo hi h it h' \<longleftrightarrow>
     (let i = chunk_ndx it; c = chunks h ! i
      in i < length (chunks h) \<and> stack c \<noteq> [] \<and> item_within_chunk_ndx it = last (stack c) \<and>
         lo \<le> ndxToAddr c (last (stack c)) \<and> ndxToAddr c (last (stack c)) \<le> hi \<and>
         h' = h\<lparr>chunks := (chunks h)[i := c\<lparr>top := top c - 1\<rparr>]\<rparr>)"

lemma alloc_part2_taken:
  assumes "heap_ok h"
  shows "list_all (\<lambda>i. i < length (chunks h)) lows \<Longrightarrow>
   alloc_part2 lo hi from to lines lows h = Some (Inr (it, h')) \<Longrightarrow> sb_taken lo hi h it h'"
proof (induction lows)
  case (Cons i lows)
  let ?c = "chunks h ! i"
  have ok: "chunk_ok ?c" using assms Cons.prems(1) by (simp add: heap_ok_nth)
  show ?case
  proof (cases "stack ?c \<noteq> [] \<and> springboard_ok lo hi from to lines (ndxToAddr ?c (last (stack ?c)))")
    case True
    then have "it = \<lparr>chunk_ndx = i, item_within_chunk_ndx = last (stack ?c)\<rparr>"
      "h' = h\<lparr>chunks := (chunks h)[i := ?c\<lparr>top := top ?c - 1\<rparr>]\<rparr>"
      using Cons.prems(2) chunk_pop(3) [OF ok] by (simp_all add: alloc_tries_only_the_top [OF ok])
    then show ?thesis using True Cons.prems(1) by (simp add: sb_taken_def springboard_ok_def Let_def)
  next
    case False
    then show ?thesis using Cons by (simp add: alloc_tries_only_the_top [OF ok] split: if_splits)
  qed
qed simp

lemma alloc_taken:
  assumes "heap_ok h" and "SpringBoardHeap_alloc lo hi from to h = Some (Inr (it, h'))"
  shows "sb_taken lo hi h it h'"
proof -
  from assms(2) obtain first second r1 where er: "equal_range lo hi (chunks h) = Some (first, second)"
    and r1: "alloc_part2 lo hi from to 256 [first..<second] h = Some r1"
    and rest: "(case r1 of Inr x \<Rightarrow> Some (Inr x)
        | Inl _ \<Rightarrow> do {
            r2 \<leftarrow> alloc_part2 lo hi from to 512 [first..<second] h;
            (case r2 of Inr x \<Rightarrow> Some (Inr x)
             | Inl _ \<Rightarrow> alloc_part2 lo hi from to (- 1) [first..<second] h)
          }) = Some (Inr (it, h'))"
    by (auto simp: SpringBoardHeap_alloc_def Let_def bind_eq_Some_conv [of "assert _"]
        bind_eq_Some_conv [of "equal_range _ _ _"] bind_eq_Some_conv [of "alloc_part2 _ _ _ _ 256 _ _"]
        split: if_splits)
  have p: "\<exists>lines. alloc_part2 lo hi from to lines [first..<second] h = Some (Inr (it, h'))"
  proof (cases r1)
    case (Inr x)
    then show ?thesis using r1 rest by auto
  next
    case (Inl e)
    then obtain r2 where r2: "alloc_part2 lo hi from to 512 [first..<second] h = Some r2"
      "(case r2 of Inr x \<Rightarrow> Some (Inr x)
        | Inl _ \<Rightarrow> alloc_part2 lo hi from to (- 1) [first..<second] h) = Some (Inr (it, h'))"
      using rest by (auto simp: bind_eq_Some_conv)
    then show ?thesis by (cases r2) auto
  qed
  from er have "second \<le> length (chunks h)"
    by (auto simp: equal_range_def Let_def bind_eq_Some_conv length_takeWhile_le)
  then have "list_all (\<lambda>i. i < length (chunks h)) [first..<second]" by (auto simp: list_all_iff)
  with p alloc_part2_taken [OF assms(1)] show ?thesis by blast
qed

section \<open>Properties\<close>

text \<open>
  C31: A springboard the heap hands out can be reached by the branch it was asked for: its address lies
  in the range. It was free before, is not free any more, and no other springboard changes; giving it
  back makes the set of free springboards what it was. The invariant of every chunk is kept.
\<close>

theorem springboard_alloc_safe:
  assumes "heap_ok h" and "SpringBoardHeap_alloc lo hi from to h = Some (Inr (it, h'))"
  shows "lo \<le> item2addr h' it \<and> item2addr h' it \<le> hi \<and>
    (chunk_ndx it, item_within_chunk_ndx it) \<in> free_sbs h \<and>
    free_sbs h' = free_sbs h - {(chunk_ndx it, item_within_chunk_ndx it)} \<and> heap_ok h' \<and>
    (\<exists>h''. SpringBoardHeap_free h' it = Some h'' \<and> heap_ok h'' \<and> free_sbs h'' = free_sbs h)"
proof -
  let ?i = "chunk_ndx it"
  let ?c = "chunks h ! ?i"
  have t: "?i < length (chunks h)" "stack ?c \<noteq> []" "item_within_chunk_ndx it = last (stack ?c)"
    "lo \<le> ndxToAddr ?c (last (stack ?c))" "ndxToAddr ?c (last (stack ?c)) \<le> hi"
    "h' = h\<lparr>chunks := (chunks h)[?i := ?c\<lparr>top := top ?c - 1\<rparr>]\<rparr>"
    using alloc_taken [OF assms] by (auto simp: sb_taken_def Let_def)
  note pop = heap_pop [OF assms(1) t(1,2,6,3)]
  have "unat (item_within_chunk_ndx it) < length (free_items (chunks h' ! ?i))"
    using chunk_pop(4) [OF heap_ok_nth [OF assms(1) t(1)] t(2)] t(1,3) by (simp add: t(6))
  moreover have "?i < length (chunks h')" using t(1) by (simp add: t(6))
  ultimately obtain h'' where "SpringBoardHeap_free h' it = Some h''" "heap_ok h''"
    "free_sbs h'' = insert (?i, item_within_chunk_ndx it) (free_sbs h')"
    using heap_push [OF pop(1), of it] pop(3) by blast
  moreover have "item2addr h' it = ndxToAddr ?c (last (stack ?c))"
    using t(1,3) by (simp add: item2addr_def t(6) ndxToAddr_def)
  ultimately show ?thesis using t(4,5) pop by auto
qed

text \<open>A sorted heap with one chunk of ten springboards.\<close>

definition demo_heap :: SpringBoardHeap where
  "demo_heap = sortChunks (addChunk SpringBoardHeap_new 0x1000 120)"

lemma demo_heap_eq:
  "chunks demo_heap = [springboardChunk_new 0x1000 120]" "chunksPresentlySorted demo_heap"
  by (simp_all add: demo_heap_def sortChunks_def addChunk_def SpringBoardHeap_new_def)

lemma demo_heap_ok: "heap_ok demo_heap"
  by (simp add: heap_ok_def demo_heap_eq chunk_new_ok)

lemma demo_chunk:
  "springboardChunk_new 0x1000 120 = \<lparr>chunkStartAddr = 0x1000, free_items = [0, 1, 2, 3, 4, 5, 6, 7, 8, 9], top = 9\<rparr>"
  by (simp add: springboardChunk_new_def sizeOfSpringBoardItem_def upt_conv_Cons)

theorem springboard_alloc_safe_witness:
  "\<exists>it h'. SpringBoardHeap_alloc 0x1000 0x2000 0x1f00 0x8000 demo_heap = Some (Inr (it, h')) \<and>
    0x1000 \<le> item2addr h' it \<and> item2addr h' it \<le> 0x2000 \<and>
    (chunk_ndx it, item_within_chunk_ndx it) \<in> free_sbs demo_heap \<and>
    free_sbs h' = free_sbs demo_heap - {(chunk_ndx it, item_within_chunk_ndx it)} \<and> heap_ok h' \<and>
    (\<exists>h''. SpringBoardHeap_free h' it = Some h'' \<and> heap_ok h'' \<and> free_sbs h'' = free_sbs demo_heap)"
proof -
  have "\<exists>p. SpringBoardHeap_alloc 0x1000 0x2000 0x1f00 0x8000 demo_heap = Some (Inr p)"
    by (simp add: SpringBoardHeap_alloc_def demo_heap_eq equal_range_def demo_chunk chunk_below_def
        chunk_above_def getMaxNdx_def ndxToAddr_def sizeOfSpringBoardItem_def
        hasASpringboardWhoseStartAddrIsInRangeOf_def allocSpringboardWithStartAddrWithinRangeOf_def
        alloc_loop.simps springboard_ok_def vaddr2icacheline_def Let_def)
  then obtain it h' where a: "SpringBoardHeap_alloc 0x1000 0x2000 0x1f00 0x8000 demo_heap = Some (Inr (it, h'))"
    by auto
  show ?thesis using a springboard_alloc_safe [OF demo_heap_ok a] by blast
qed



text \<open>
  The check that follows the search for the chunks in range is too strong: when a chunk extends
  beyond the range on both sides, the allocation aborts, even though the chunk has a free springboard
  that lies in the range.
\<close>

theorem alloc_aborts_inside_a_chunk:
  assumes "chunksPresentlySorted h" and "chunks h = [c]" and "x \<in> set (stack c)"
    and "lo \<le> ndxToAddr c x" and "ndxToAddr c x \<le> hi"
    and "chunkStartAddr c < lo" and "hi < ndxToAddr c (of_nat (length (free_items c)) - 1)"
  shows "SpringBoardHeap_alloc lo hi from to h = None"
proof -
  have ne: "free_items c \<noteq> []" using assms(3) by (auto simp: stack_def split: if_splits)
  let ?m = "of_nat (length (free_items c)) - 1 :: u32"
  have m: "getMaxNdx c = Some ?m" using ne by (simp add: getMaxNdx_def)
  have "lo \<le> hi" using assms(4,5) by simp
  then have low: "\<not> ndxToAddr c ?m < lo" "\<not> hi < chunkStartAddr c" using assms(6,7) by auto
  have "hasASpringboardWhoseStartAddrIsInRangeOf c lo hi = Some False"
    using assms(6,7) m by (auto simp: hasASpringboardWhoseStartAddrIsInRangeOf_def Let_def ndxToAddr_def)
  moreover have "equal_range lo hi (chunks h) = Some (0, 1)"
    using assms(2) ne m low by (simp add: equal_range_def chunk_below_def chunk_above_def ndxToAddr_def)
  ultimately show ?thesis using assms(1,2) by (simp add: SpringBoardHeap_alloc_def Let_def)
qed

theorem alloc_aborts_inside_a_chunk_witness:
  "SpringBoardHeap_alloc 0x1006 0x1020 0x1f00 0x8000 demo_heap = None"
  by (rule alloc_aborts_inside_a_chunk [of _ "springboardChunk_new 0x1000 120" 1])
    (simp_all add: demo_heap_eq demo_chunk stack_def ndxToAddr_def sizeOfSpringBoardItem_def)

end
