(* ===== verification/HomogenousHeap.thy ===== *)
theory HomogenousHeap
  imports BitUtils
begin

text \<open>
  Heaps of equal-sized items: \<open>HomogenousHeapBase\<close> of \<open>util/h/HomogenousHeapBase.h\<close> at
  \<open>numAtATime = 1\<close>, and \<open>patchHeap1Size\<close> of \<open>kerninstd/patchHeap/src\<close>, which takes the memory of its
  sub-heaps from the kernel. The header object with its linked list of sub-heaps is the list of the
  sub-heaps, the newest and largest first. Every sub-heap has an array used as a stack of the addresses
  of its free items. A failed assertion or an access outside of an array is \<^const>\<open>None\<close>; the null
  address is 0.

  The kernel side of \<open>kernelDriver::allocate_kernel_block\<close> and \<open>free_kernel_block\<close> is an argument of the
  operations that use it: \<open>kblock nbytes allocType st\<close> returns the two addresses of the new block and
  the new state of the kernel, \<open>kfree\<close> releases a block. The page size is that of the i386 build.
\<close>

section \<open>Sub-heaps\<close>

record subheap =
  nBasicElems :: u32
  rawData :: kptr
  numFree :: nat
  freeList :: "kptr list"
  actualHeapSize :: u32
  kernelAddrForMapping :: kptr

definition pageNumBytes :: u32 where
  "pageNumBytes = 4096"

definition roundUpToMultipleOfPageSize :: "u32 \<Rightarrow> u32" where
  "roundUpToMultipleOfPageSize len = ((len + (pageNumBytes - 1)) div pageNumBytes) * pageNumBytes"

text \<open>The constructor of a sub-heap: the base class part.\<close>

definition subheap_new :: "u32 \<Rightarrow> u32 \<Rightarrow> kptr \<Rightarrow> subheap option" where
  "subheap_new sizeOfT iNBasicElems iRawDataToUse = do {
     assert (iRawDataToUse \<noteq> 0);
     let fl = map (\<lambda>lcv. iRawDataToUse + of_nat lcv * sizeOfT) [0..<unat iNBasicElems];
     assert (list_all (\<lambda>freeChunkAddr. (freeChunkAddr - iRawDataToUse) mod sizeOfT = 0) fl);
     Some \<lparr>nBasicElems = iNBasicElems, rawData = iRawDataToUse, numFree = unat iNBasicElems, freeList = fl,
           actualHeapSize = 0, kernelAddrForMapping = 0\<rparr>
   }"

definition belongs :: "u32 \<Rightarrow> subheap \<Rightarrow> kptr \<Rightarrow> bool option" where
  "belongs sizeOfT s ptr = do {
     assert (rawData s \<noteq> 0);
     if ptr < rawData s then Some False
     else do {
       let byte_difference = ptr - rawData s;
       let basic_elem_ndx = byte_difference div sizeOfT;
       if basic_elem_ndx < nBasicElems s then do {
         assert (byte_difference mod sizeOfT = 0);
         Some True
       } else Some False
     }
   }"

fun allocate :: "u32 \<Rightarrow> subheap list \<Rightarrow> (kptr \<times> subheap list) option" where
  "allocate sizeOfT [] = Some (0, [])"
| "allocate sizeOfT (s # ss) =
     (if numFree s = 0 then map_option (\<lambda>(r, ss'). (r, s # ss')) (allocate sizeOfT ss)
      else do {
        assert (numFree s - 1 < length (freeList s));
        let result = freeList s ! (numFree s - 1);
        b \<leftarrow> belongs sizeOfT s result;
        assert b;
        Some (result, s\<lparr>numFree := numFree s - 1\<rparr> # ss)
      })"

fun deallocate :: "u32 \<Rightarrow> subheap list \<Rightarrow> kptr \<Rightarrow> subheap list option" where
  "deallocate sizeOfT [] freemedata = None"
| "deallocate sizeOfT (s # ss) freemedata = do {
     b \<leftarrow> belongs sizeOfT s freemedata;
     if b then do {
       assert (numFree s < length (freeList s));
       Some (s\<lparr>freeList := (freeList s)[numFree s := freemedata], numFree := numFree s + 1\<rparr> # ss)
     } else map_option (\<lambda>ss'. s # ss') (deallocate sizeOfT ss freemedata)
   }"

text \<open>The memory used by the sub-heaps, for raw data and for bookkeeping; \<open>objsize\<close> is \<open>sizeof(*this)\<close>.\<close>

fun getMemUsage_internal :: "u32 \<Rightarrow> u32 \<Rightarrow> subheap list \<Rightarrow> u32 \<times> u32 \<Rightarrow> (u32 \<times> u32) option" where
  "getMemUsage_internal objsize sizeOfT [] acc = Some acc"
| "getMemUsage_internal objsize sizeOfT (s # ss) (forRawData, forMetaData) = do {
     assert (rawData s \<noteq> 0);
     getMemUsage_internal objsize sizeOfT ss
       (forRawData + nBasicElems s * sizeOfT, forMetaData + nBasicElems s * 4 + objsize)
   }"

section \<open>Heaps of one patch size\<close>

record patchHeap1Size =
  ph_sizeOfT :: u32
  ph_allocType :: u32
  ph_subs :: "subheap list"

type_synonym 'st kblock = "u32 \<Rightarrow> u32 \<Rightarrow> 'st \<Rightarrow> (kptr \<times> kptr) \<times> 'st"

text \<open>The constructor of a sub-heap of patches, and \<open>create_subheap\<close>; no sub-heap is the null pointer.\<close>

definition patch_subheap_new :: "u32 \<Rightarrow> kptr \<times> kptr \<Rightarrow> u32 \<Rightarrow> u32 \<Rightarrow> subheap option" where
  "patch_subheap_new isizeOfPatch kernelAddrs numPatches iactualHeapSize = do {
     s \<leftarrow> subheap_new isizeOfPatch numPatches (fst kernelAddrs);
     assert (numPatches * isizeOfPatch \<le> iactualHeapSize);
     assert (iactualHeapSize = roundUpToMultipleOfPageSize iactualHeapSize);
     Some (s\<lparr>actualHeapSize := iactualHeapSize, kernelAddrForMapping := snd kernelAddrs\<rparr>)
   }"

definition create_subheap :: "'st kblock \<Rightarrow> u32 \<Rightarrow> u32 \<Rightarrow> u32 \<Rightarrow> 'st \<Rightarrow> (subheap option \<times> 'st) option" where
  "create_subheap kblock sizeOfT allocType numPatches st =
     (let nbytes = roundUpToMultipleOfPageSize (numPatches * sizeOfT);
          (kernelAddrs, st') = kblock nbytes allocType st
      in if fst kernelAddrs = 0 \<or> snd kernelAddrs = 0 then Some (None, st')
         else map_option (\<lambda>s. (Some s, st')) (patch_subheap_new sizeOfT kernelAddrs numPatches nbytes))"

text \<open>The public constructor; \<open>Inl\<close> is the exception \<open>kerninst_alloc_fail\<close>.\<close>

definition patchHeap1Size_new ::
  "'st kblock \<Rightarrow> u32 \<Rightarrow> u32 \<Rightarrow> u32 \<Rightarrow> 'st \<Rightarrow> ((unit + patchHeap1Size) \<times> 'st) option" where
  "patchHeap1Size_new kblock isizeOfPatch numPatches iAllocType st = do {
     (r, st') \<leftarrow> create_subheap kblock isizeOfPatch iAllocType numPatches st;
     Some (case r of
             None \<Rightarrow> (Inl (), st')
           | Some s \<Rightarrow> (Inr \<lparr>ph_sizeOfT = isizeOfPatch, ph_allocType = iAllocType, ph_subs = [s]\<rparr>, st'))
   }"

text \<open>\<open>alloc\<close>: when all sub-heaps are exhausted, a new one, half as large again as the newest, goes to
  the front of the list.\<close>

definition hh_alloc :: "'st kblock \<Rightarrow> patchHeap1Size \<Rightarrow> 'st \<Rightarrow> (kptr \<times> patchHeap1Size \<times> 'st) option" where
  "hh_alloc kblock h st = do {
     assert (ph_subs h \<noteq> []);
     (result, subs1) \<leftarrow> allocate (ph_sizeOfT h) (ph_subs h);
     if result \<noteq> 0 then Some (result, h\<lparr>ph_subs := subs1\<rparr>, st)
     else do {
       let former = nBasicElems (hd (ph_subs h));
       let n0 = former + drop_bit 1 former;
       let newBigHeapNBasicElems = (if n0 = former then n0 + 1 else n0);
       (r, st') \<leftarrow> create_subheap kblock (ph_sizeOfT h) (ph_allocType h) newBigHeapNBasicElems st;
       (case r of
          None \<Rightarrow> Some (0, h, st')
        | Some newBigHeap \<Rightarrow> do {
            (result', subs2) \<leftarrow> allocate (ph_sizeOfT h) (newBigHeap # ph_subs h);
            assert (result' \<noteq> 0);
            Some (result', h\<lparr>ph_subs := subs2\<rparr>, st')
          })
     }
   }"

definition hh_free :: "patchHeap1Size \<Rightarrow> kptr \<Rightarrow> patchHeap1Size option" where
  "hh_free h item =
     (if item = 0 then Some h
      else if ph_subs h = [] then None
      else map_option (\<lambda>ss. h\<lparr>ph_subs := ss\<rparr>) (deallocate (ph_sizeOfT h) (ph_subs h) item))"

text \<open>The destructors of the sub-heaps give their memory back to the kernel.\<close>

fun patchHeap1Size_delete :: "(kptr \<Rightarrow> kptr \<Rightarrow> u32 \<Rightarrow> 'st \<Rightarrow> 'st) \<Rightarrow> subheap list \<Rightarrow> 'st \<Rightarrow> 'st option" where
  "patchHeap1Size_delete kfree [] st = Some st"
| "patchHeap1Size_delete kfree (s # ss) st = do {
     st' \<leftarrow> (if rawData s \<noteq> 0 then do {
               assert (actualHeapSize s = roundUpToMultipleOfPageSize (actualHeapSize s));
               Some (kfree (rawData s) (kernelAddrForMapping s) (actualHeapSize s) st)
             } else Some st);
     patchHeap1Size_delete kfree ss st'
   }"

section \<open>Invariant of the sub-heaps\<close>

text \<open>The addresses of the items of a sub-heap, and the free ones among them.\<close>

definition slots :: "u32 \<Rightarrow> subheap \<Rightarrow> kptr set" where
  "slots sz s = (\<lambda>i. rawData s + of_nat i * sz) ` {..<unat (nBasicElems s)}"

definition free_slots :: "subheap \<Rightarrow> kptr set" where
  "free_slots s = set (take (numFree s) (freeList s))"

definition sub_end :: "u32 \<Rightarrow> subheap \<Rightarrow> nat" where
  "sub_end sz s = unat (rawData s) + unat (nBasicElems s) * unat sz"

definition sub_ok :: "u32 \<Rightarrow> subheap \<Rightarrow> bool" where
  "sub_ok sz s \<longleftrightarrow> rawData s \<noteq> 0 \<and> 0 < unat sz \<and> sub_end sz s \<le> 2 ^ 32 \<and>
     length (freeList s) = unat (nBasicElems s) \<and> numFree s \<le> length (freeList s) \<and>
     distinct (take (numFree s) (freeList s)) \<and> free_slots s \<subseteq> slots sz s"

definition apart :: "u32 \<Rightarrow> subheap \<Rightarrow> subheap \<Rightarrow> bool" where
  "apart sz s t \<longleftrightarrow> sub_end sz s \<le> unat (rawData t) \<or> sub_end sz t \<le> unat (rawData s)"

definition subs_ok :: "u32 \<Rightarrow> subheap list \<Rightarrow> bool" where
  "subs_ok sz ss \<longleftrightarrow> list_all (sub_ok sz) ss \<and> sorted_wrt (apart sz) ss"

abbreviation all_slots :: "u32 \<Rightarrow> subheap list \<Rightarrow> kptr set" where
  "all_slots sz ss \<equiv> \<Union> (slots sz ` set ss)"

abbreviation all_free :: "subheap list \<Rightarrow> kptr set" where
  "all_free ss \<equiv> \<Union> (free_slots ` set ss)"

lemma slot_addr:
  assumes "sub_ok sz s" and "i < unat (nBasicElems s)"
  shows "unat (rawData s + of_nat i * sz) = unat (rawData s) + i * unat sz"
proof -
  have "i * unat sz < unat (nBasicElems s) * unat sz" using assms by (simp add: sub_ok_def)
  moreover have "unat (rawData s) + unat (nBasicElems s) * unat sz \<le> 2 ^ 32"
    using assms(1) by (simp add: sub_ok_def sub_end_def)
  ultimately have b: "unat (rawData s) + i * unat sz < 2 ^ 32" by linarith
  have "i < 2 ^ 32" using assms(2) unat_less32 [of "nBasicElems s"] by linarith
  then have m: "unat (of_nat i * sz) = i * unat sz"
    using b by (simp add: unat_word_ariths)
  then show ?thesis using b by (simp add: unat_word_ariths)
qed

lemma slots_bounds:
  assumes "sub_ok sz s" and "p \<in> slots sz s"
  shows "unat (rawData s) \<le> unat p" and "unat p + unat sz \<le> sub_end sz s" and "p \<noteq> 0"
proof -
  obtain i where i: "i < unat (nBasicElems s)" "p = rawData s + of_nat i * sz"
    using assms(2) by (auto simp: slots_def)
  have a: "unat p = unat (rawData s) + i * unat sz" using slot_addr [OF assms(1) i(1)] i(2) by simp
  then show "unat (rawData s) \<le> unat p" by simp
  have "Suc i * unat sz \<le> unat (nBasicElems s) * unat sz" using i(1) by (intro mult_le_mono1) simp
  then show "unat p + unat sz \<le> sub_end sz s" using a by (simp add: sub_end_def)
  have "0 < unat (rawData s)" using assms(1) by (simp add: sub_ok_def unat_gt_0)
  then show "p \<noteq> 0" using a by auto
qed

lemma slots_gap:
  assumes "sub_ok sz s" and "p \<in> slots sz s" "q \<in> slots sz s" "p \<noteq> q"
  shows "unat p + unat sz \<le> unat q \<or> unat q + unat sz \<le> unat p"
proof -
  obtain i j where ij: "i < unat (nBasicElems s)" "p = rawData s + of_nat i * sz"
    "j < unat (nBasicElems s)" "q = rawData s + of_nat j * sz" using assms(2,3) by (auto simp: slots_def)
  have "i \<noteq> j" using assms(4) ij by auto
  then have "Suc i * unat sz \<le> j * unat sz \<or> Suc j * unat sz \<le> i * unat sz"
    by (meson Suc_le_eq linorder_neqE_nat mult_le_mono1)
  then show ?thesis
    unfolding ij(2,4) slot_addr [OF assms(1) ij(1)] slot_addr [OF assms(1) ij(3)] by auto
qed

lemma card_slots: "sub_ok sz s \<Longrightarrow> card (slots sz s) = unat (nBasicElems s)"
proof -
  assume ok: "sub_ok sz s"
  have "inj_on (\<lambda>i. rawData s + of_nat i * sz) {..<unat (nBasicElems s)}"
  proof (rule inj_onI)
    fix i j assume "i \<in> {..<unat (nBasicElems s)}" "j \<in> {..<unat (nBasicElems s)}"
      and e: "rawData s + of_nat i * sz = rawData s + of_nat j * sz"
    then have "unat (rawData s) + i * unat sz = unat (rawData s) + j * unat sz"
      using slot_addr [OF ok, of i] slot_addr [OF ok, of j] by (metis lessThan_iff)
    then show "i = j" using ok by (simp add: sub_ok_def)
  qed
  then show ?thesis by (simp add: slots_def card_image)
qed

lemma slots_apart:
  assumes "sub_ok sz s" "sub_ok sz t" "apart sz s t" "p \<in> slots sz s" "q \<in> slots sz t"
  shows "unat p + unat sz \<le> unat q \<or> unat q + unat sz \<le> unat p"
  using assms(3) slots_bounds [OF assms(1,4)] slots_bounds [OF assms(2,5)] by (auto simp: apart_def)

text \<open>\<open>belongs\<close> is true for the items of the sub-heap and false for those of another.\<close>

lemma belongs_slot:
  assumes ok: "sub_ok sz s" and p: "p \<in> slots sz s"
  shows "belongs sz s p = Some True"
proof -
  obtain i where i: "i < unat (nBasicElems s)" "p = rawData s + of_nat i * sz"
    using p by (auto simp: slots_def)
  have a: "unat p = unat (rawData s) + i * unat sz" using slot_addr [OF ok i(1)] i(2) by simp
  then have le: "rawData s \<le> p" by (simp add: word_le_nat_alt)
  have d: "unat (p - rawData s) = i * unat sz" using a le by (simp add: unat_sub)
  have pos: "0 < unat sz" using ok by (simp add: sub_ok_def)
  have "unat ((p - rawData s) div sz) = i" using d pos by (simp add: unat_div)
  moreover have "(p - rawData s) mod sz = 0"
    using d by (simp add: word_unat_eq_iff unat_mod)
  ultimately show ?thesis
    using a i(1) ok by (simp add: belongs_def Let_def word_less_nat_alt sub_ok_def)
qed

lemma belongs_other:
  assumes ok: "sub_ok sz s" and p: "unat p < unat (rawData s) \<or> sub_end sz s \<le> unat p"
  shows "belongs sz s p = Some False"
proof (cases "p < rawData s")
  case True
  then show ?thesis using ok by (simp add: belongs_def sub_ok_def)
next
  case False
  then have le: "rawData s \<le> p" "unat (rawData s) \<le> unat p" by (simp_all add: word_le_nat_alt not_less)
  then have "unat (nBasicElems s) * unat sz \<le> unat (p - rawData s)"
    using p by (simp add: unat_sub sub_end_def)
  then have "unat (nBasicElems s) \<le> unat ((p - rawData s) div sz)"
    using ok by (simp add: unat_div sub_ok_def less_eq_div_iff_mult_less_eq)
  then show ?thesis using False ok by (simp add: belongs_def Let_def word_less_nat_alt sub_ok_def)
qed

section \<open>Allocation and deallocation\<close>

definition same_place :: "subheap \<Rightarrow> subheap \<Rightarrow> bool" where
  "same_place s t \<longleftrightarrow> rawData t = rawData s \<and> nBasicElems t = nBasicElems s \<and> actualHeapSize t = actualHeapSize s"

lemma same_place_simps:
  assumes "same_place s t"
  shows "slots sz t = slots sz s" and "sub_end sz t = sub_end sz s" and "apart sz t = apart sz s"
    and "apart sz u t = apart sz u s"
  using assms by (simp_all add: same_place_def slots_def sub_end_def apart_def fun_eq_iff)

lemma same_place_refl [simp]: "same_place s s"
  by (simp add: same_place_def)

lemma same_places_apart:
  "list_all2 same_place ss ts \<Longrightarrow> list_all (apart sz s) ts = list_all (apart sz s) ss"
  by (induction rule: list_all2_induct) (simp_all add: same_place_simps)

lemma same_places_slots: "list_all2 same_place ss ts \<Longrightarrow> all_slots sz ts = all_slots sz ss"
  by (induction rule: list_all2_induct) (simp_all add: same_place_simps)

lemma same_places_refl: "list_all2 same_place ss ss"
  by (simp add: list_all2_same)

lemma subs_ok_Cons: "subs_ok sz (s # ss) \<longleftrightarrow> sub_ok sz s \<and> list_all (apart sz s) ss \<and> subs_ok sz ss"
  by (auto simp: subs_ok_def list_all_iff)

lemma slots_disjoint_rest:
  assumes "subs_ok sz (s # ss)"
  shows "slots sz s \<inter> all_slots sz ss = {}"
proof -
  have "p \<notin> slots sz t" if p: "p \<in> slots sz s" and t: "t \<in> set ss" for p t
  proof
    assume q: "p \<in> slots sz t"
    have "sub_ok sz s" "sub_ok sz t" "apart sz s t"
      using assms t by (auto simp: subs_ok_def list_all_iff)
    then show False using slots_apart [of sz s t p p] p q by (auto simp: sub_ok_def)
  qed
  then show ?thesis by blast
qed

lemma free_sub_slots: "subs_ok sz ss \<Longrightarrow> all_free ss \<subseteq> all_slots sz ss"
  by (auto simp: subs_ok_def list_all_iff sub_ok_def)

lemma allocate_spec:
  "subs_ok sz ss \<Longrightarrow> all_free ss = {} \<Longrightarrow> allocate sz ss = Some (0, ss)"
  "subs_ok sz ss \<Longrightarrow> all_free ss \<noteq> {} \<Longrightarrow> \<exists>p ss'. allocate sz ss = Some (p, ss') \<and> p \<in> all_free ss \<and>
     subs_ok sz ss' \<and> list_all2 same_place ss ss' \<and> all_free ss' = all_free ss - {p}"
proof (induction ss)
  case (Cons s ss)
  {
    case 1
    then have "numFree s = 0" by (auto simp: free_slots_def sub_ok_def subs_ok_Cons)
    then show ?case using 1 Cons.IH(1) by (simp add: subs_ok_Cons)
  next
    case 2
    have ok: "sub_ok sz s" "list_all (apart sz s) ss" "subs_ok sz ss" using 2(1) by (auto simp: subs_ok_Cons)
    have disj: "free_slots s \<inter> all_free ss = {}"
      using slots_disjoint_rest [OF 2(1)] free_sub_slots [OF ok(3)] ok(1) by (fastforce simp: sub_ok_def)
    show ?case
    proof (cases "numFree s = 0")
      case True
      then have f: "free_slots s = {}" by (simp add: free_slots_def)
      with 2(2) have "all_free ss \<noteq> {}" by simp
      with Cons.IH(2) [OF ok(3)] obtain p ss' where p: "allocate sz ss = Some (p, ss')" "p \<in> all_free ss"
        "subs_ok sz ss'" "list_all2 same_place ss ss'" "all_free ss' = all_free ss - {p}" by blast
      then show ?thesis using True ok f same_places_apart [OF p(4)]
        by (intro exI [of _ p] exI [of _ "s # ss'"]) (simp add: subs_ok_Cons)
    next
      case False
      let ?n = "numFree s - 1"
      let ?p = "freeList s ! ?n" and ?s' = "s\<lparr>numFree := ?n\<rparr>"
      have n: "?n < length (freeList s)" "numFree s = Suc ?n" using False ok(1) by (auto simp: sub_ok_def)
      have st: "take (numFree s) (freeList s) = take ?n (freeList s) @ [?p]"
        by (subst n(2)) (rule take_Suc_conv_app_nth [OF n(1)])
      have free: "free_slots s = insert ?p (free_slots ?s')" "?p \<notin> free_slots ?s'"
        using ok(1) arg_cong [OF st, of distinct] by (auto simp: free_slots_def st sub_ok_def)
      have "?p \<in> slots sz s" using free ok(1) by (auto simp: sub_ok_def)
      then have "belongs sz s ?p = Some True" by (rule belongs_slot [OF ok(1)])
      then have a: "allocate sz (s # ss) = Some (?p, ?s' # ss)" using False n(1) by simp
      have sp: "same_place s ?s'" by (simp add: same_place_def)
      have "sub_ok sz ?s'" using ok(1) free(1) arg_cong [OF st, of distinct]
        unfolding sub_ok_def same_place_simps [OF sp] by auto
      moreover have "list_all (apart sz ?s') ss" unfolding same_place_simps [OF sp] by (rule ok(2))
      moreover have "?p \<notin> all_free ss" using disj free(1) by blast
      ultimately show ?thesis using a ok free sp
        by (intro exI [of _ ?p] exI [of _ "?s' # ss"]) (auto simp: subs_ok_Cons same_places_refl)
    qed
  }
qed simp_all

lemma deallocate_spec:
  "subs_ok sz ss \<Longrightarrow> p \<in> all_slots sz ss \<Longrightarrow> p \<notin> all_free ss \<Longrightarrow>
   \<exists>ss'. deallocate sz ss p = Some ss' \<and> subs_ok sz ss' \<and> list_all2 same_place ss ss' \<and>
     all_free ss' = insert p (all_free ss)"
proof (induction ss)
  case (Cons s ss)
  have ok: "sub_ok sz s" "list_all (apart sz s) ss" "subs_ok sz ss" using Cons.prems(1) by (auto simp: subs_ok_Cons)
  show ?case
  proof (cases "p \<in> slots sz s")
    case True
    have "free_slots s \<subset> slots sz s" using ok(1) True Cons.prems(3) by (auto simp: sub_ok_def)
    then have "card (free_slots s) < card (slots sz s)" by (intro psubset_card_mono) (auto simp: slots_def)
    moreover have "card (free_slots s) = numFree s"
      using ok(1) by (simp add: free_slots_def distinct_card sub_ok_def)
    ultimately have n: "numFree s < length (freeList s)" using ok(1) card_slots [OF ok(1)] by (simp add: sub_ok_def)
    define s' where "s' = s\<lparr>freeList := (freeList s)[numFree s := p], numFree := numFree s + 1\<rparr>"
    have st: "take (numFree s') (freeList s') = take (numFree s) (freeList s) @ [p]"
      using n by (simp add: s'_def take_Suc_conv_app_nth)
    have sp: "same_place s s'" by (simp add: same_place_def s'_def)
    have f: "free_slots s' = insert p (free_slots s)" by (auto simp: free_slots_def st)
    have len: "length (freeList s') = length (freeList s)" "numFree s' \<le> length (freeList s')" "rawData s' = rawData s"
      "nBasicElems s' = nBasicElems s" using n by (simp_all add: s'_def)
    have "sub_ok sz s'"
      using ok(1) True Cons.prems(3) f len st
      unfolding sub_ok_def [of sz s'] same_place_simps [OF sp] by (simp add: sub_ok_def free_slots_def)
    then have "subs_ok sz (s' # ss)" using ok(2,3) by (simp add: subs_ok_Cons same_place_simps [OF sp])
    moreover have "deallocate sz (s # ss) p = Some (s' # ss)"
      using belongs_slot [OF ok(1) True] n by (simp add: s'_def)
    ultimately show ?thesis using sp f by (intro exI [of _ "s' # ss"]) (simp add: same_places_refl)
  next
    case False
    then obtain t where t: "t \<in> set ss" "p \<in> slots sz t" using Cons.prems(2) by auto
    have "sub_ok sz t" "apart sz s t" using ok t(1) by (auto simp: subs_ok_def list_all_iff)
    then have "unat p < unat (rawData s) \<or> sub_end sz s \<le> unat p"
      using slots_bounds [of sz t p] t(2) by (auto simp: apart_def sub_ok_def)
    then have b: "belongs sz s p = Some False" by (rule belongs_other [OF ok(1)])
    obtain ss' where ss': "deallocate sz ss p = Some ss'" "subs_ok sz ss'" "list_all2 same_place ss ss'"
      "all_free ss' = insert p (all_free ss)" using Cons.IH [OF ok(3)] Cons.prems(2,3) False by auto
    then show ?thesis using b ok same_places_apart [OF ss'(3)]
      by (intro exI [of _ "s # ss'"]) (auto simp: subs_ok_Cons)
  qed
qed simp

section \<open>Growing\<close>

text \<open>
  What the heap relies on of the kernel: a new block does not overlap a block handed out before, it
  lies within the address space, and no block is larger than the driver's limit of 131000 bytes;
  \<open>blocks st\<close> are the blocks handed out.
\<close>

definition block_law :: "('st \<Rightarrow> (kptr \<times> u32) set) \<Rightarrow> 'st kblock \<Rightarrow> bool" where
  "block_law blocks kblock \<longleftrightarrow>
     (\<forall>n ty st p q st'. kblock n ty st = ((p, q), st') \<longrightarrow>
        (if p = 0 \<or> q = 0 then blocks st' = blocks st
         else unat n \<le> 131000 \<and> unat p + unat n \<le> 2 ^ 32 \<and> blocks st' = insert (p, n) (blocks st) \<and>
           (\<forall>(a, m) \<in> blocks st. unat a + unat m \<le> unat p \<or> unat p + unat n \<le> unat a)))"

lemma roundUp_bounds:
  assumes "unat len \<le> 2 ^ 31"
  shows "unat len \<le> unat (roundUpToMultipleOfPageSize len)"
    and "roundUpToMultipleOfPageSize (roundUpToMultipleOfPageSize len) = roundUpToMultipleOfPageSize len"
proof -
  have up: "unat (roundUpToMultipleOfPageSize x) = ((unat x + 4095) div 4096) * 4096" if "unat x \<le> 2 ^ 31 + 4096" for x
  proof -
    have a: "unat (x + 4095) = unat x + 4095" using that by (simp add: unat_word_ariths)
    have "((unat x + 4095) div 4096) * 4096 < 2 ^ 32" using that by simp
    then show ?thesis
      by (simp add: roundUpToMultipleOfPageSize_def pageNumBytes_def unat_word_ariths unat_div a)
  qed
  let ?r = "roundUpToMultipleOfPageSize len"
  have r: "unat ?r = ((unat len + 4095) div 4096) * 4096" using assms by (intro up) simp
  then show "unat len \<le> unat ?r" by simp
  have "unat ?r \<le> 2 ^ 31 + 4096" using r assms by simp
  then have "unat (roundUpToMultipleOfPageSize ?r) = unat ?r" using up [of ?r] r by simp
  then show "roundUpToMultipleOfPageSize ?r = ?r" by (simp add: word_unat_eq_iff)
qed

lemma subheap_new_spec:
  assumes "a \<noteq> 0" and "0 < unat sz" and fits: "unat a + unat n * unat sz \<le> 2 ^ 32"
  obtains s where "subheap_new sz n a = Some s" and "sub_ok sz s" and "free_slots s = slots sz s"
    and "rawData s = a" and "nBasicElems s = n"
proof -
  define s where "s = \<lparr>nBasicElems = n, rawData = a, numFree = unat n,
    freeList = map (\<lambda>lcv. a + of_nat lcv * sz) [0..<unat n], actualHeapSize = 0, kernelAddrForMapping = 0\<rparr>"
  have addr: "unat (of_nat i * sz) = i * unat sz" "unat (a + of_nat i * sz) = unat a + i * unat sz" if "i < unat n" for i
  proof -
    have "Suc i * unat sz \<le> unat n * unat sz" using that by (intro mult_le_mono1) simp
    then have b: "unat a + i * unat sz < 2 ^ 32" using fits assms(2) by simp
    have "i < 2 ^ 32" using that unat_less32 [of n] by linarith
    then show m: "unat (of_nat i * sz) = i * unat sz" using b by (simp add: unat_word_ariths)
    then show "unat (a + of_nat i * sz) = unat a + i * unat sz" using b by (simp add: unat_word_ariths)
  qed
  have "(of_nat i * sz) mod sz = 0" if "i < unat n" for i
    using addr(1) [OF that] by (simp add: word_unat_eq_iff unat_mod)
  then have new: "subheap_new sz n a = Some s"
    using assms(1) by (simp add: subheap_new_def s_def list_all_iff Let_def)
  have "inj_on (\<lambda>i. a + of_nat i * sz) {0..<unat n}"
  proof (rule inj_onI)
    fix i j assume "i \<in> {0..<unat n}" "j \<in> {0..<unat n}" "a + of_nat i * sz = a + of_nat j * sz"
    then have "unat a + i * unat sz = unat a + j * unat sz" using addr(2) [of i] addr(2) [of j] by (metis atLeastLessThan_iff)
    then show "i = j" using assms(2) by simp
  qed
  then have "sub_ok sz s" "free_slots s = slots sz s"
    using assms by (auto simp: sub_ok_def s_def sub_end_def free_slots_def slots_def distinct_map)
  then show ?thesis using that [OF new] by (simp add: s_def)
qed

section \<open>Invariant of a heap\<close>

text \<open>Every sub-heap lies in a block of the kernel.\<close>

definition in_block :: "('st \<Rightarrow> (kptr \<times> u32) set) \<Rightarrow> 'st \<Rightarrow> u32 \<Rightarrow> subheap \<Rightarrow> bool" where
  "in_block blocks st sz s \<longleftrightarrow> (rawData s, actualHeapSize s) \<in> blocks st \<and>
     unat (nBasicElems s) * unat sz \<le> unat (actualHeapSize s) \<and> unat (actualHeapSize s) \<le> 131000 \<and>
     0 < unat (nBasicElems s)"

definition hh_inv :: "('st \<Rightarrow> (kptr \<times> u32) set) \<Rightarrow> patchHeap1Size \<Rightarrow> 'st \<Rightarrow> bool" where
  "hh_inv blocks h st \<longleftrightarrow> 0 < unat (ph_sizeOfT h) \<and> unat (ph_sizeOfT h) \<le> 65536 \<and> ph_subs h \<noteq> [] \<and>
     subs_ok (ph_sizeOfT h) (ph_subs h) \<and> list_all (in_block blocks st (ph_sizeOfT h)) (ph_subs h)"

abbreviation held_slots :: "patchHeap1Size \<Rightarrow> kptr set" where
  "held_slots h \<equiv> all_slots (ph_sizeOfT h) (ph_subs h) - all_free (ph_subs h)"

lemma create_subheap_spec:
  assumes law: "block_law blocks kblock" and sz: "0 < unat sz" "0 < unat n" and small: "unat n * unat sz \<le> 2 ^ 31"
  obtains (none) st' where "create_subheap kblock sz ty n st = Some (None, st')" and "blocks st' = blocks st"
  | (some) s st' where "create_subheap kblock sz ty n st = Some (Some s, st')" and "sub_ok sz s"
      and "free_slots s = slots sz s" and "nBasicElems s = n" and "blocks st \<subseteq> blocks st'"
      and "in_block blocks st' sz s"
      and "\<And>t. in_block blocks st sz t \<Longrightarrow> apart sz s t"
proof -
  let ?b = "roundUpToMultipleOfPageSize (n * sz)"
  obtain p q st' where k: "kblock ?b ty st = ((p, q), st')" by (metis surj_pair)
  have nsz: "unat (n * sz) = unat n * unat sz" using small by (simp add: unat_word_ariths)
  have b: "unat n * unat sz \<le> unat ?b" "roundUpToMultipleOfPageSize ?b = ?b"
    using roundUp_bounds [of "n * sz"] small by (simp_all add: nsz)
  show ?thesis
  proof (cases "p = 0 \<or> q = 0")
    case True
    then have "blocks st' = blocks st" using law k unfolding block_law_def by presburger
    then show ?thesis using none [of st'] k True by (simp add: create_subheap_def Let_def)
  next
    case False
    then have law': "unat ?b \<le> 131000" "unat p + unat ?b \<le> 2 ^ 32" "blocks st' = insert (p, ?b) (blocks st)"
      "\<forall>(a, m) \<in> blocks st. unat a + unat m \<le> unat p \<or> unat p + unat ?b \<le> unat a"
      using law k unfolding block_law_def by presburger+
    have "unat p + unat n * unat sz \<le> 2 ^ 32" using law'(2) b(1) by linarith
    then obtain s where s: "subheap_new sz n p = Some s" "sub_ok sz s" "free_slots s = slots sz s"
      "rawData s = p" "nBasicElems s = n" using subheap_new_spec [of p sz n] False sz by blast
    define s' where "s' = s\<lparr>actualHeapSize := ?b, kernelAddrForMapping := q\<rparr>"
    have "patch_subheap_new sz (p, q) n ?b = Some s'"
      using s(1) b nsz by (simp add: patch_subheap_new_def s'_def word_le_nat_alt)
    then have c: "create_subheap kblock sz ty n st = Some (Some s', st')"
      using k False by (simp add: create_subheap_def Let_def)
    have eq: "slots sz s' = slots sz s" "free_slots s' = free_slots s" "sub_end sz s' = sub_end sz s"
      by (simp_all add: s'_def slots_def free_slots_def sub_end_def)
    have ap: "apart sz s' t" if "in_block blocks st sz t" for t
    proof -
      from that have t: "(rawData t, actualHeapSize t) \<in> blocks st"
        "unat (nBasicElems t) * unat sz \<le> unat (actualHeapSize t)" by (auto simp: in_block_def)
      have "unat (rawData t) + unat (actualHeapSize t) \<le> unat p \<or> unat p + unat ?b \<le> unat (rawData t)"
        using law'(4) t(1) by blast
      then show ?thesis using t(2) b(1) s(4,5) by (auto simp: apart_def sub_end_def s'_def)
    qed
    show ?thesis
    proof (rule some [OF c])
      show "sub_ok sz s'" using s(2) by (simp add: sub_ok_def eq) (simp add: s'_def)
      show "in_block blocks st' sz s'" using law'(1,3) b(1) s(4,5) sz by (simp add: in_block_def s'_def)
    qed (use s law' eq ap in \<open>auto simp: s'_def\<close>)
  qed
qed

text \<open>Allocation hands out a patch that is not held, and touches nothing that is.\<close>

lemma hh_alloc_spec:
  assumes law: "block_law blocks kblock" and inv: "hh_inv blocks h st"
  obtains p h' st' where "hh_alloc kblock h st = Some (p, h', st')" and "hh_inv blocks h' st'"
    and "ph_sizeOfT h' = ph_sizeOfT h"
    and "if p = 0 then held_slots h' = held_slots h
         else p \<notin> held_slots h \<and> held_slots h' = insert p (held_slots h)"
    and "blocks st \<subseteq> blocks st'" and "all_free (ph_subs h) \<noteq> {} \<longrightarrow> p \<noteq> 0"
proof -
  let ?sz = "ph_sizeOfT h" and ?ss = "ph_subs h"
  have ok: "subs_ok ?sz ?ss" and ib: "list_all (in_block blocks st ?sz) ?ss" and ne: "?ss \<noteq> []"
    and sz: "0 < unat ?sz" "unat ?sz \<le> 65536" using inv by (auto simp: hh_inv_def)
  have taken: "p \<noteq> 0 \<and> p \<notin> all_slots ?sz ss - all_free ss \<and>
      all_slots ?sz ss' - all_free ss' = insert p (all_slots ?sz ss - all_free ss)"
    if a: "subs_ok ?sz ss" "p \<in> all_free ss" "list_all2 same_place ss ss'" "all_free ss' = all_free ss - {p}" for p ss ss'
  proof -
    obtain s where s: "s \<in> set ss" "p \<in> free_slots s" using a(2) by auto
    then have "p \<in> slots ?sz s" "sub_ok ?sz s" using a(1) by (auto simp: subs_ok_def list_all_iff sub_ok_def)
    then show ?thesis using slots_bounds(3) [of ?sz s p] s a(2-4) same_places_slots [OF a(3), of ?sz] by auto
  qed
  have place: "list_all (in_block blocks st' ?sz) ss' = list_all (in_block blocks st' ?sz) ss"
    if "list_all2 same_place ss ss'" for ss ss' st'
    using that by (induction rule: list_all2_induct) (auto simp: in_block_def same_place_def)
  show ?thesis
  proof (cases "all_free ?ss = {}")
    case False
    then obtain p ss' where p: "allocate ?sz ?ss = Some (p, ss')" "p \<in> all_free ?ss" "subs_ok ?sz ss'"
      "list_all2 same_place ?ss ss'" "all_free ss' = all_free ?ss - {p}"
      using allocate_spec(2) [OF ok] by blast
    note t = taken [OF ok p(2,4,5)]
    have "ss' \<noteq> []" using p(4) ne by auto
    then show ?thesis using that [of p "h\<lparr>ph_subs := ss'\<rparr>" st] p t ne sz ib place [OF p(4)]
      by (simp add: hh_alloc_def hh_inv_def)
  next
    case True
    have a: "allocate ?sz ?ss = Some (0, ?ss)" by (rule allocate_spec(1) [OF ok True])
    let ?former = "nBasicElems (hd ?ss)"
    define n where "n = (if ?former + drop_bit 1 ?former = ?former then ?former + drop_bit 1 ?former + 1
      else ?former + drop_bit 1 ?former)"
    have f: "unat ?former * unat ?sz \<le> 131000" "0 < unat ?former"
      using ib ne by (cases ?ss; auto simp: in_block_def)+
    then have "unat ?former \<le> 131000" using sz(1) by (metis le_trans mult.right_neutral mult_le_mono2 Suc_leI One_nat_def)
    then have "unat n \<le> unat ?former + unat ?former div 2 + 1" "0 < unat n"
      using f(2) by (auto simp: n_def unat_word_ariths unat_drop_bit_eq drop_bit_eq_div)
    then have "unat n \<le> 2 * unat ?former" and n0: "0 < unat n" using f(2) by auto
    then have "unat n * unat ?sz \<le> 2 * (unat ?former * unat ?sz)" by (metis mult.assoc mult_le_mono1)
    then have "unat n * unat ?sz \<le> 262000" using f(1) by linarith
    then have small: "unat n * unat ?sz \<le> 2 ^ 31" by (rule le_trans) simp
    have unf: "hh_alloc kblock h st = do {
        (r, st') \<leftarrow> create_subheap kblock ?sz (ph_allocType h) n st;
        (case r of None \<Rightarrow> Some (0, h, st')
         | Some newBigHeap \<Rightarrow> do {
             (result', subs2) \<leftarrow> allocate ?sz (newBigHeap # ?ss);
             assert (result' \<noteq> 0);
             Some (result', h\<lparr>ph_subs := subs2\<rparr>, st')
           }) }"
      using ne a by (simp add: hh_alloc_def Let_def n_def del: allocate.simps)
    from law sz(1) n0 small show ?thesis
    proof (cases rule: create_subheap_spec [where ty = "ph_allocType h" and st = st])
      case (none st')
      have "hh_inv blocks h st'" using inv none(2) by (auto simp: hh_inv_def in_block_def list_all_iff)
      then show ?thesis using that [of 0 h st'] none unf True by simp
    next
      case (some s st')
      have mono: "list_all (in_block blocks st' ?sz) ?ss"
        using ib some(5) by (auto simp: list_all_iff in_block_def)
      have ok2: "subs_ok ?sz (s # ?ss)" using ok some(2,7) ib by (auto simp: subs_ok_Cons list_all_iff)
      have fr: "all_free (s # ?ss) = slots ?sz s" using True some(3) by simp
      have "0 < card (slots ?sz s)" using card_slots [OF some(2)] some(4) n0 by simp
      then have nef: "all_free (s # ?ss) \<noteq> {}" using fr by auto
      obtain p ss' where p: "allocate ?sz (s # ?ss) = Some (p, ss')" "p \<in> all_free (s # ?ss)" "subs_ok ?sz ss'"
        "list_all2 same_place (s # ?ss) ss'" "all_free ss' = all_free (s # ?ss) - {p}"
        using allocate_spec(2) [OF ok2 nef] by blast
      note t = taken [OF ok2 p(2,4,5)]
      have "all_slots ?sz (s # ?ss) - all_free (s # ?ss) = held_slots h"
        using fr True slots_disjoint_rest [OF ok2] by auto
      with t have t': "p \<noteq> 0" "p \<notin> held_slots h" "all_slots ?sz ss' - all_free ss' = insert p (held_slots h)"
        by auto
      have "ss' \<noteq> []" using p(4) by auto
      then have "hh_inv blocks (h\<lparr>ph_subs := ss'\<rparr>) st'"
        using sz p(3) place [OF p(4), of st'] mono some(6) by (simp add: hh_inv_def)
      then show ?thesis using that [of p "h\<lparr>ph_subs := ss'\<rparr>" st'] unf some(1,5) p(1) t'
        by (simp del: allocate.simps)
    qed
  qed
qed

lemma hh_free_spec:
  assumes inv: "hh_inv blocks h st" and p: "p \<in> held_slots h"
  obtains h' where "hh_free h p = Some h'" and "hh_inv blocks h' st" and "ph_sizeOfT h' = ph_sizeOfT h"
    and "held_slots h' = held_slots h - {p}"
proof -
  let ?sz = "ph_sizeOfT h" and ?ss = "ph_subs h"
  have ok: "subs_ok ?sz ?ss" and ne: "?ss \<noteq> []" using inv by (auto simp: hh_inv_def)
  obtain ss' where ss': "deallocate ?sz ?ss p = Some ss'" "subs_ok ?sz ss'" "list_all2 same_place ?ss ss'"
    "all_free ss' = insert p (all_free ?ss)" using deallocate_spec [OF ok, of p] p by auto
  obtain s where "s \<in> set ?ss" "p \<in> slots ?sz s" using p by auto
  then have "p \<noteq> 0" using slots_bounds(3) [of ?sz s p] ok by (auto simp: subs_ok_def list_all_iff)
  have "list_all (in_block blocks st ?sz) ss' = list_all (in_block blocks st ?sz) ?ss"
    using ss'(3) by (induction rule: list_all2_induct) (auto simp: in_block_def same_place_def)
  moreover have "ss' \<noteq> []" using ss'(3) ne by auto
  ultimately have "hh_inv blocks (h\<lparr>ph_subs := ss'\<rparr>) st" using inv ss'(2) by (simp add: hh_inv_def)
  then show ?thesis using that [of "h\<lparr>ph_subs := ss'\<rparr>"] ss' \<open>p \<noteq> 0\<close> ne same_places_slots [OF ss'(3), of ?sz]
    by (auto simp: hh_free_def)
qed

section \<open>Clients\<close>

text \<open>A client that allocates patches and gives back patches it holds.\<close>

fun hh_client :: "'st kblock \<Rightarrow> kptr pool_op \<Rightarrow> patchHeap1Size \<times> 'st \<times> kptr list \<Rightarrow>
  (patchHeap1Size \<times> 'st \<times> kptr list) option" where
  "hh_client kblock PGet (h, st, held) = do {
     (p, h', st') \<leftarrow> hh_alloc kblock h st;
     Some (h', st', if p = 0 then held else p # held)
   }"
| "hh_client kblock (PPut p) (h, st, held) =
     (if p \<in> set held then do { h' \<leftarrow> hh_free h p; Some (h', st, remove1 p held) }
      else Some (h, st, held))"

definition client_inv :: "('st \<Rightarrow> (kptr \<times> u32) set) \<Rightarrow> u32 \<Rightarrow> patchHeap1Size \<times> 'st \<times> kptr list \<Rightarrow> bool" where
  "client_inv blocks sz x \<longleftrightarrow> (case x of (h, st, held) \<Rightarrow>
     hh_inv blocks h st \<and> ph_sizeOfT h = sz \<and> distinct held \<and> set held = held_slots h)"

lemma hh_client_machine:
  assumes "block_law blocks kblock"
  shows "guarded_machine (hh_client kblock) (\<lambda>_. True) (client_inv blocks sz)"
proof
  fix x :: "kptr pool_op" and s :: "patchHeap1Size \<times> 'a \<times> kptr list"
  assume inv: "client_inv blocks sz s"
  obtain h st held where s: "s = (h, st, held)" by (cases s)
  have i: "hh_inv blocks h st" "ph_sizeOfT h = sz" "distinct held" "set held = held_slots h"
    using inv by (simp_all add: client_inv_def s)
  show "\<exists>s'. hh_client kblock x s = Some s' \<and> client_inv blocks sz s'"
  proof (cases x)
    case PGet
    from hh_alloc_spec [OF assms i(1)]
    obtain p h' st' where a: "hh_alloc kblock h st = Some (p, h', st')" "hh_inv blocks h' st'"
      "ph_sizeOfT h' = ph_sizeOfT h" "if p = 0 then held_slots h' = held_slots h
         else p \<notin> held_slots h \<and> held_slots h' = insert p (held_slots h)"
      "blocks st \<subseteq> blocks st'" "all_free (ph_subs h) \<noteq> {} \<longrightarrow> p \<noteq> 0" .
    then show ?thesis using i PGet s by (cases "p = 0") (auto simp: client_inv_def)
  next
    case (PPut p)
    show ?thesis
    proof (cases "p \<in> set held")
      case True
      then have "p \<in> held_slots h" using i(4) by simp
      from hh_free_spec [OF i(1) this]
      obtain h' where h': "hh_free h p = Some h'" "hh_inv blocks h' st" "ph_sizeOfT h' = ph_sizeOfT h"
        "held_slots h' = held_slots h - {p}" .
      have "set (remove1 p held) = held_slots h'" unfolding h'(4) using i(3,4) by simp
      then show ?thesis using h'(1-3) i(2,3) PPut s True by (simp add: client_inv_def)
    next
      case False
      then show ?thesis using inv PPut s by simp
    qed
  qed
qed

text \<open>Held patches do not overlap, and they lie in the blocks of the kernel.\<close>

lemma held_apart:
  assumes "hh_inv blocks h st" and "p \<in> held_slots h" "q \<in> held_slots h" "p \<noteq> q"
  shows "unat p + unat (ph_sizeOfT h) \<le> unat q \<or> unat q + unat (ph_sizeOfT h) \<le> unat p"
proof -
  let ?sz = "ph_sizeOfT h"
  obtain s t where st: "s \<in> set (ph_subs h)" "p \<in> slots ?sz s" "t \<in> set (ph_subs h)" "q \<in> slots ?sz t"
    using assms(2,3) by auto
  have ok: "sub_ok ?sz s" "sub_ok ?sz t" using assms(1) st by (auto simp: hh_inv_def subs_ok_def list_all_iff)
  show ?thesis
  proof (cases "s = t")
    case True
    then show ?thesis using slots_gap [OF ok(1) st(2) _ assms(4)] st(4) by simp
  next
    case False
    have "sorted_wrt (apart ?sz) (ph_subs h)" using assms(1) by (simp add: hh_inv_def subs_ok_def)
    then have "apart ?sz s t \<or> apart ?sz t s"
      using st(1,3) False by (auto simp: sorted_wrt_iff_nth_less in_set_conv_nth) (metis linorder_neqE_nat)
    then have "apart ?sz s t" by (auto simp: apart_def)
    then show ?thesis by (rule slots_apart [OF ok _ st(2,4)])
  qed
qed

lemma held_in_block:
  assumes "hh_inv blocks h st" and "p \<in> held_slots h"
  shows "\<exists>(a, m) \<in> blocks st. unat a \<le> unat p \<and> unat p + unat (ph_sizeOfT h) \<le> unat a + unat m"
proof -
  let ?sz = "ph_sizeOfT h"
  obtain s where s: "s \<in> set (ph_subs h)" "p \<in> slots ?sz s" using assms(2) by auto
  have ok: "sub_ok ?sz s" "in_block blocks st ?sz s"
    using assms(1) s by (auto simp: hh_inv_def subs_ok_def list_all_iff)
  then have "sub_end ?sz s \<le> unat (rawData s) + unat (actualHeapSize s)"
    "(rawData s, actualHeapSize s) \<in> blocks st" by (auto simp: in_block_def sub_end_def)
  then show ?thesis using slots_bounds(1,2) [OF ok(1) s(2)]
    by (intro bexI [of _ "(rawData s, actualHeapSize s)"]) auto
qed

lemma patchHeap1Size_new_inv:
  assumes law: "block_law blocks kblock" and sz: "0 < unat sz" "unat sz \<le> 65536" "0 < unat n" "unat n * unat sz \<le> 2 ^ 31"
    and new: "patchHeap1Size_new kblock sz n ty st = Some (Inr h, st')"
  shows "client_inv blocks sz (h, st', [])"
  using law sz(1,3,4)
proof (cases rule: create_subheap_spec [where ty = ty and st = st])
  case (none st'')
  then show ?thesis using new by (simp add: patchHeap1Size_new_def)
next
  case (some s st'')
  then have "h = \<lparr>ph_sizeOfT = sz, ph_allocType = ty, ph_subs = [s]\<rparr>" "st' = st''"
    using new by (simp_all add: patchHeap1Size_new_def)
  then show ?thesis using some sz by (simp add: client_inv_def hh_inv_def subs_ok_def)
qed

section \<open>Property\<close>

text \<open>
  C33: For any sequence of requests to a heap of patches of one size, whatever the sub-heaps it has to
  ask the kernel for on the way: no assertion fails, a patch is held only once, two patches that are
  held at the same time do not overlap, and every held patch lies within a block the kernel handed
  out. The kernel is any allocator that hands out blocks that do not overlap.
\<close>

theorem patches_never_overlap:
  assumes "block_law blocks kblock"
    and "0 < unat sz" "unat sz \<le> 65536" "0 < unat n" "unat n * unat sz \<le> 2 ^ 31"
    and "patchHeap1Size_new kblock sz n ty st = Some (Inr h, st')"
  shows "\<exists>h2 st2 held. run_ops (hh_client kblock) ops (h, st', []) = Some (h2, st2, held) \<and> distinct held \<and>
    (\<forall>p \<in> set held. \<forall>q \<in> set held. p \<noteq> q \<longrightarrow>
       unat p + unat sz \<le> unat q \<or> unat q + unat sz \<le> unat p) \<and>
    (\<forall>p \<in> set held. \<exists>(a, m) \<in> blocks st2. unat a \<le> unat p \<and> unat p + unat sz \<le> unat a + unat m)"
proof -
  have "list_all (\<lambda>_. True) ops" by (simp add: list_all_iff)
  from guarded_machine.run_total [OF hh_client_machine [OF assms(1)] this patchHeap1Size_new_inv [OF assms]]
  obtain h2 st2 held where r: "run_ops (hh_client kblock) ops (h, st', []) = Some (h2, st2, held)"
    "client_inv blocks sz (h2, st2, held)" by auto
  then have "hh_inv blocks h2 st2" "ph_sizeOfT h2 = sz" "distinct held" "set held = held_slots h2"
    by (simp_all add: client_inv_def)
  then show ?thesis using r(1) held_apart [of blocks h2 st2] held_in_block [of blocks h2 st2] by auto
qed

text \<open>A kernel that places every block behind the one before.\<close>

definition bump_kblock :: "(kptr \<times> u32) list kblock" where
  "bump_kblock n ty st =
     (let p = (case st of [] \<Rightarrow> 4096 | (a, m) # _ \<Rightarrow> a + m)
      in if p \<noteq> 0 \<and> unat n \<le> 131000 \<and> unat p + unat n \<le> 2 ^ 32 \<and>
            list_all (\<lambda>(a, m). unat a + unat m \<le> unat p \<or> unat p + unat n \<le> unat a) st
         then ((p, p), (p, n) # st) else ((0, 0), st))"

lemma bump_kblock_law: "block_law set bump_kblock"
  by (auto simp: block_law_def bump_kblock_def Let_def list_all_iff split: if_splits)

theorem patches_never_overlap_witness:
  "\<exists>h st'. patchHeap1Size_new bump_kblock 2048 2 0 [] = Some (Inr h, st') \<and>
    (\<exists>h2 st2 held. run_ops (hh_client bump_kblock) [PGet, PGet] (h, st', []) = Some (h2, st2, held) \<and> distinct held)"
proof -
  have "\<exists>h st'. patchHeap1Size_new bump_kblock 2048 2 0 [] = Some (Inr h, st')"
    by (simp add: patchHeap1Size_new_def create_subheap_def bump_kblock_def patch_subheap_new_def subheap_new_def
        roundUpToMultipleOfPageSize_def pageNumBytes_def Let_def upt_conv_Cons)
  then obtain h st' where h: "patchHeap1Size_new bump_kblock 2048 2 0 [] = Some (Inr h, st')" by blast
  have "\<exists>h2 st2 held. run_ops (hh_client bump_kblock) [PGet, PGet] (h, st', []) = Some (h2, st2, held) \<and> distinct held"
    using patches_never_overlap [OF bump_kblock_law _ _ _ _ h, of "[PGet, PGet]"]
    by (simp del: run_ops.simps) blast
  then show ?thesis using h by blast
qed

end
