(* ===== verification/PatchHeap.thy ===== *)
theory PatchHeap
  imports HomogenousHeap AllocLog
begin

text \<open>
  The heap of code patches (\<open>kerninstd/patchHeap/src/patchHeap.C\<close>): one heap of equal-sized patches for
  each of 18 sizes and each of three places in the kernel (the nucleus, below it, elsewhere), made when
  it is first needed. The build for Linux is modelled. Whether an address is in the nucleus or below it
  is asked of the kernel driver, an argument here. A null heap pointer is \<^const>\<open>None\<close> in the array.
\<close>

section \<open>State\<close>

definition allHeapSizes :: "u32 list" where
  "allHeapSizes = [64, 96, 128, 192, 256, 384, 512, 768, 960, 1024, 1536, 2048, 3072, 4096, 8192, 16384,
     32768, 65536]"

definition numHeapSizes :: nat where
  "numHeapSizes = 18"

record patchHeap =
  belowNucleusPatchHeaps :: "patchHeap1Size option list"
  nucleusPatchHeaps :: "patchHeap1Size option list"
  nonNucleusPatchHeaps :: "patchHeap1Size option list"
  nucleusAllocationHasFailed :: bool
  belowAllocationHasFailed :: bool

datatype patch_exception = AllocSizeTooBig | OutOfFreeSpace

definition ALLOC_TYPE_BELOW_NUCLEUS :: u32 where "ALLOC_TYPE_BELOW_NUCLEUS = 2"
definition ALLOC_TYPE_NUCLEUS :: u32 where "ALLOC_TYPE_NUCLEUS = 3"

definition patchHeap_new :: patchHeap where
  "patchHeap_new = \<lparr>belowNucleusPatchHeaps = replicate numHeapSizes None,
     nucleusPatchHeaps = replicate numHeapSizes None, nonNucleusPatchHeaps = replicate numHeapSizes None,
     nucleusAllocationHasFailed = False, belowAllocationHasFailed = False\<rparr>"

text \<open>The destructor deletes the three heaps of every size.\<close>

definition patchHeap_delete ::
  "(kptr \<Rightarrow> kptr \<Rightarrow> u32 \<Rightarrow> 'st \<Rightarrow> 'st) \<Rightarrow> patchHeap \<Rightarrow> 'st \<Rightarrow> 'st option" where
  "patchHeap_delete kfree ph st =
     (let del = (\<lambda>h st. case h of None \<Rightarrow> Some st | Some x \<Rightarrow> patchHeap1Size_delete kfree (ph_subs x) st)
      in fold (\<lambda>ndx r. do {
                 st1 \<leftarrow> r;
                 st2 \<leftarrow> del (belowNucleusPatchHeaps ph ! ndx) st1;
                 st3 \<leftarrow> del (nucleusPatchHeaps ph ! ndx) st2;
                 del (nonNucleusPatchHeaps ph ! ndx) st3
               }) [0..<numHeapSizes] (Some st))"

section \<open>Allocation\<close>

text \<open>The first heap of a size: how many patches it starts with, and whether it could be made.\<close>

definition first_numElems :: "u32 \<Rightarrow> u32" where
  "first_numElems heapElemNumBytes =
     (if heapElemNumBytes < 1024 then 4096 div heapElemNumBytes
      else if heapElemNumBytes < 4096 then (4 * 4096) div heapElemNumBytes
      else if heapElemNumBytes < 16384 then (8 * 4096) div heapElemNumBytes
      else 1)"

definition allocateFirstTime ::
  "'st kblock \<Rightarrow> patchHeap1Size option \<Rightarrow> u32 \<Rightarrow> u32 \<Rightarrow> bool \<Rightarrow> 'st \<Rightarrow> (patchHeap1Size option \<times> bool \<times> 'st) option" where
  "allocateFirstTime kblock theHeap heapElemNumBytes allocType allocationHasFailed st = do {
     assert (theHeap = None);
     assert (heapElemNumBytes mod 4 = 0);
     let numElems = first_numElems heapElemNumBytes;
     assert (numElems > 0);
     (r, st') \<leftarrow> patchHeap1Size_new kblock heapElemNumBytes numElems allocType st;
     Some (case r of Inr h \<Rightarrow> (Some h, allocationHasFailed, st') | Inl _ \<Rightarrow> (None, True, st'))
   }"

definition alloc_nucleus ::
  "'st kblock \<Rightarrow> patchHeap \<Rightarrow> nat \<Rightarrow> u32 \<Rightarrow> 'st \<Rightarrow> (kptr \<times> patchHeap \<times> 'st) option" where
  "alloc_nucleus kblock ph heapSizeNdx heapSize st = do {
     assert (\<not> nucleusAllocationHasFailed ph);
     assert (allHeapSizes ! heapSizeNdx = heapSize);
     (theHeap, failed, st1) \<leftarrow>
       (case nucleusPatchHeaps ph ! heapSizeNdx of
          None \<Rightarrow> allocateFirstTime kblock None heapSize ALLOC_TYPE_NUCLEUS (nucleusAllocationHasFailed ph) st
        | Some h \<Rightarrow> Some (Some h, nucleusAllocationHasFailed ph, st));
     let ph1 = ph\<lparr>nucleusPatchHeaps := (nucleusPatchHeaps ph)[heapSizeNdx := theHeap],
                  nucleusAllocationHasFailed := failed\<rparr>;
     if failed then Some (0, ph1, st1)
     else (case theHeap of
             None \<Rightarrow> None
           | Some h \<Rightarrow> do {
               assert (ph_sizeOfT h = heapSize);
               (result, h', st2) \<leftarrow> hh_alloc kblock h st1;
               Some (result, ph1\<lparr>nucleusPatchHeaps := (nucleusPatchHeaps ph1)[heapSizeNdx := Some h']\<rparr>, st2)
             })
   }"

definition alloc_below ::
  "'st kblock \<Rightarrow> patchHeap \<Rightarrow> nat \<Rightarrow> u32 \<Rightarrow> 'st \<Rightarrow> (kptr \<times> patchHeap \<times> 'st) option" where
  "alloc_below kblock ph heapSizeNdx heapSize st = do {
     assert (\<not> belowAllocationHasFailed ph);
     assert (allHeapSizes ! heapSizeNdx = heapSize);
     (theHeap, failed, st1) \<leftarrow>
       (case belowNucleusPatchHeaps ph ! heapSizeNdx of
          None \<Rightarrow> allocateFirstTime kblock None heapSize ALLOC_TYPE_BELOW_NUCLEUS (belowAllocationHasFailed ph) st
        | Some h \<Rightarrow> Some (Some h, belowAllocationHasFailed ph, st));
     let ph1 = ph\<lparr>belowNucleusPatchHeaps := (belowNucleusPatchHeaps ph)[heapSizeNdx := theHeap],
                  belowAllocationHasFailed := failed\<rparr>;
     if failed then Some (0, ph1, st1)
     else (case theHeap of
             None \<Rightarrow> None
           | Some h \<Rightarrow> do {
               assert (ph_sizeOfT h = heapSize);
               (result, h', st2) \<leftarrow> hh_alloc kblock h st1;
               Some (result, ph1\<lparr>belowNucleusPatchHeaps := (belowNucleusPatchHeaps ph1)[heapSizeNdx := Some h']\<rparr>, st2)
             })
   }"

text \<open>Outside of the nucleus, failure aborts the daemon.\<close>

definition alloc_nonnucleus ::
  "'st kblock \<Rightarrow> patchHeap \<Rightarrow> nat \<Rightarrow> u32 \<Rightarrow> 'st \<Rightarrow> (kptr \<times> patchHeap \<times> 'st) option" where
  "alloc_nonnucleus kblock ph heapSizeNdx heapSize st = do {
     assert (allHeapSizes ! heapSizeNdx = heapSize);
     (theHeap, failed, st1) \<leftarrow>
       (case nonNucleusPatchHeaps ph ! heapSizeNdx of
          None \<Rightarrow> allocateFirstTime kblock None heapSize ALLOC_TYPE_KMEM32 False st
        | Some h \<Rightarrow> Some (Some h, False, st));
     assert (\<not> failed);
     (case theHeap of
        None \<Rightarrow> None
      | Some h \<Rightarrow> do {
          assert (ph_sizeOfT h = heapSize);
          (result, h', st2) \<leftarrow> hh_alloc kblock h st1;
          assert (result \<noteq> 0);
          Some (result, ph\<lparr>nonNucleusPatchHeaps := (nonNucleusPatchHeaps ph)[heapSizeNdx := Some h']\<rparr>, st2)
        })
   }"

text \<open>\<open>std::lower_bound\<close> on the sizes: the first one that is not less than \<open>sz\<close>.\<close>

definition heap_size_ndx :: "u32 \<Rightarrow> nat" where
  "heap_size_ndx sz = length (takeWhile (\<lambda>s. s < sz) allHeapSizes)"

definition patchHeap_alloc ::
  "'st kblock \<Rightarrow> patchHeap \<Rightarrow> u32 \<Rightarrow> bool \<Rightarrow> 'st \<Rightarrow> (patch_exception + kptr \<times> patchHeap \<times> 'st) option" where
  "patchHeap_alloc kblock ph sz tryForNucleus st =
     (let heapSizeNdx = heap_size_ndx sz
      in if heapSizeNdx = numHeapSizes then Some (Inl AllocSizeTooBig)
         else
           let heapSize = allHeapSizes ! heapSizeNdx;
               elsewhere = (\<lambda>ph st. do {
                 (result, ph', st') \<leftarrow> alloc_nonnucleus kblock ph heapSizeNdx heapSize st;
                 if result = 0 then Some (Inl OutOfFreeSpace) else Some (Inr (result, ph', st'))
               })
           in if tryForNucleus then do {
                (r1, ph1, st1) \<leftarrow>
                  (if \<not> nucleusAllocationHasFailed ph then alloc_nucleus kblock ph heapSizeNdx heapSize st
                   else Some (0, ph, st));
                if r1 \<noteq> 0 then Some (Inr (r1, ph1, st1))
                else do {
                  let ph2 = ph1\<lparr>nucleusAllocationHasFailed := True\<rparr>;
                  (r2, ph3, st3) \<leftarrow>
                    (if \<not> belowAllocationHasFailed ph2 then alloc_below kblock ph2 heapSizeNdx heapSize st1
                     else Some (0, ph2, st1));
                  if r2 \<noteq> 0 then Some (Inr (r2, ph3, st3))
                  else elsewhere (ph3\<lparr>belowAllocationHasFailed := True\<rparr>) st3
                }
              } else elsewhere ph st)"

section \<open>Deallocation\<close>

definition free_in_array :: "patchHeap1Size option list \<Rightarrow> kptr \<Rightarrow> nat \<Rightarrow> u32 \<Rightarrow> patchHeap1Size option list option" where
  "free_in_array heaps kernelAddr heapSizeNdx heapSize = do {
     assert (allHeapSizes ! heapSizeNdx = heapSize);
     theHeap \<leftarrow> heaps ! heapSizeNdx;
     assert (ph_sizeOfT theHeap = heapSize);
     h' \<leftarrow> hh_free theHeap kernelAddr;
     Some (heaps[heapSizeNdx := Some h'])
   }"

definition free_nucleus :: "patchHeap \<Rightarrow> kptr \<Rightarrow> nat \<Rightarrow> u32 \<Rightarrow> patchHeap option" where
  "free_nucleus ph kernelAddr heapSizeNdx heapSize =
     map_option (\<lambda>hs. ph\<lparr>nucleusPatchHeaps := hs\<rparr>) (free_in_array (nucleusPatchHeaps ph) kernelAddr heapSizeNdx heapSize)"

definition free_below :: "patchHeap \<Rightarrow> kptr \<Rightarrow> nat \<Rightarrow> u32 \<Rightarrow> patchHeap option" where
  "free_below ph kernelAddr heapSizeNdx heapSize =
     map_option (\<lambda>hs. ph\<lparr>belowNucleusPatchHeaps := hs\<rparr>)
       (free_in_array (belowNucleusPatchHeaps ph) kernelAddr heapSizeNdx heapSize)"

definition free_nonnucleus :: "patchHeap \<Rightarrow> kptr \<Rightarrow> nat \<Rightarrow> u32 \<Rightarrow> patchHeap option" where
  "free_nonnucleus ph kernelAddr heapSizeNdx heapSize =
     map_option (\<lambda>hs. ph\<lparr>nonNucleusPatchHeaps := hs\<rparr>)
       (free_in_array (nonNucleusPatchHeaps ph) kernelAddr heapSizeNdx heapSize)"

definition patchHeap_free ::
  "(kptr \<Rightarrow> bool) \<Rightarrow> (kptr \<Rightarrow> bool) \<Rightarrow> patchHeap \<Rightarrow> kptr \<Rightarrow> u32 \<Rightarrow> (patch_exception + patchHeap) option" where
  "patchHeap_free isInNucleus isBelowNucleus ph kernelAddr sz =
     (let heapSizeNdx = heap_size_ndx sz
      in if heapSizeNdx = numHeapSizes then Some (Inl AllocSizeTooBig)
         else
           let heapSize = allHeapSizes ! heapSizeNdx
           in map_option Inr
                (if isInNucleus kernelAddr then free_nucleus ph kernelAddr heapSizeNdx heapSize
                 else if isBelowNucleus kernelAddr then free_below ph kernelAddr heapSizeNdx heapSize
                 else free_nonnucleus ph kernelAddr heapSizeNdx heapSize))"

section \<open>Invariant\<close>

definition heaps_ok :: "('st \<Rightarrow> (kptr \<times> u32) set) \<Rightarrow> 'st \<Rightarrow> patchHeap1Size option list \<Rightarrow> bool" where
  "heaps_ok blocks st hs \<longleftrightarrow> length hs = numHeapSizes \<and>
     (\<forall>i < numHeapSizes. \<forall>h. hs ! i = Some h \<longrightarrow> ph_sizeOfT h = allHeapSizes ! i \<and> hh_inv blocks h st)"

definition ph_inv :: "('st \<Rightarrow> (kptr \<times> u32) set) \<Rightarrow> patchHeap \<Rightarrow> 'st \<Rightarrow> bool" where
  "ph_inv blocks ph st \<longleftrightarrow> heaps_ok blocks st (belowNucleusPatchHeaps ph) \<and>
     heaps_ok blocks st (nucleusPatchHeaps ph) \<and> heaps_ok blocks st (nonNucleusPatchHeaps ph)"

lemma ph_inv_new: "ph_inv blocks patchHeap_new st"
  by (simp add: ph_inv_def patchHeap_new_def heaps_ok_def)

lemma hh_inv_mono: "hh_inv blocks h st \<Longrightarrow> blocks st \<subseteq> blocks st' \<Longrightarrow> hh_inv blocks h st'"
  by (auto simp: hh_inv_def list_all_iff in_block_def)

lemma heaps_ok_mono: "heaps_ok blocks st hs \<Longrightarrow> blocks st \<subseteq> blocks st' \<Longrightarrow> heaps_ok blocks st' hs"
  by (simp add: heaps_ok_def hh_inv_mono [of blocks _ st st'])

lemma ph_inv_mono: "ph_inv blocks ph st \<Longrightarrow> blocks st \<subseteq> blocks st' \<Longrightarrow> ph_inv blocks ph st'"
  by (simp add: ph_inv_def heaps_ok_mono [of blocks st _ st'])

lemma heaps_ok_update:
  "heaps_ok blocks st hs \<Longrightarrow> i < numHeapSizes \<Longrightarrow>
   (\<And>h. x = Some h \<Longrightarrow> ph_sizeOfT h = allHeapSizes ! i \<and> hh_inv blocks h st) \<Longrightarrow>
   heaps_ok blocks st (hs[i := x])"
  by (simp add: heaps_ok_def nth_list_update)

lemma heaps_ok_nth:
  "heaps_ok blocks st hs \<Longrightarrow> i < numHeapSizes \<Longrightarrow> hs ! i = Some h \<Longrightarrow>
   ph_sizeOfT h = allHeapSizes ! i \<and> hh_inv blocks h st"
  by (simp add: heaps_ok_def)

section \<open>Size classes\<close>

lemma length_allHeapSizes: "length allHeapSizes = numHeapSizes"
  by (simp add: allHeapSizes_def numHeapSizes_def)

text \<open>Every size is a multiple of 4, and the first heap of each size is not empty and is small.\<close>

lemma heap_size_classes:
  assumes "i < numHeapSizes"
  shows "allHeapSizes ! i mod 4 = 0" and "0 < unat (allHeapSizes ! i)" and "unat (allHeapSizes ! i) \<le> 65536"
    and "0 < unat (first_numElems (allHeapSizes ! i))"
    and "unat (first_numElems (allHeapSizes ! i)) * unat (allHeapSizes ! i) \<le> 2 ^ 31"
proof -
  have "list_all (\<lambda>s. s mod 4 = 0 \<and> 0 < unat s \<and> unat s \<le> 65536 \<and> 0 < unat (first_numElems s) \<and>
      unat (first_numElems s) * unat s \<le> 2 ^ 31) allHeapSizes"
    by (simp add: allHeapSizes_def first_numElems_def)
  then show "allHeapSizes ! i mod 4 = 0" and "0 < unat (allHeapSizes ! i)" and "unat (allHeapSizes ! i) \<le> 65536"
    and "0 < unat (first_numElems (allHeapSizes ! i))"
    and "unat (first_numElems (allHeapSizes ! i)) * unat (allHeapSizes ! i) \<le> 2 ^ 31"
    using assms by (simp_all add: list_all_length length_allHeapSizes)
qed

text \<open>The search finds the smallest size that is large enough.\<close>

lemma heap_size_ndx_least:
  "j < heap_size_ndx sz \<Longrightarrow> allHeapSizes ! j < sz"
  "heap_size_ndx sz < numHeapSizes \<Longrightarrow> sz \<le> allHeapSizes ! heap_size_ndx sz"
  "heap_size_ndx sz \<le> numHeapSizes"
proof -
  show "allHeapSizes ! j < sz" if "j < heap_size_ndx sz"
    using that set_takeWhileD [OF nth_mem [of j "takeWhile (\<lambda>s. s < sz) allHeapSizes"]]
    by (simp add: heap_size_ndx_def takeWhile_nth)
  show "sz \<le> allHeapSizes ! heap_size_ndx sz" if "heap_size_ndx sz < numHeapSizes"
    using that nth_length_takeWhile [of "\<lambda>s. s < sz" allHeapSizes]
    by (simp add: heap_size_ndx_def length_allHeapSizes not_less)
  show "heap_size_ndx sz \<le> numHeapSizes"
    by (metis heap_size_ndx_def length_allHeapSizes length_takeWhile_le)
qed

lemma heap_size_ndx_max: "heap_size_ndx sz = numHeapSizes \<longleftrightarrow> 65536 < unat sz"
proof
  assume "heap_size_ndx sz = numHeapSizes"
  then have "allHeapSizes ! 17 < sz" by (intro heap_size_ndx_least(1)) (simp add: numHeapSizes_def)
  then show "65536 < unat sz" by (simp add: allHeapSizes_def word_less_nat_alt)
next
  assume l: "65536 < unat sz"
  have "allHeapSizes ! i < sz" if "i < numHeapSizes" for i
    using heap_size_classes(3) [OF that] l by (simp add: word_less_nat_alt)
  then show "heap_size_ndx sz = numHeapSizes"
    using heap_size_ndx_least(2,3) [of sz] by (metis linorder_not_le order_less_le order_neq_le_trans)
qed

section \<open>Allocation of one patch\<close>

lemma allocateFirstTime_spec:
  assumes law: "block_law blocks kblock" and i: "i < numHeapSizes"
  obtains (failed) st' where "allocateFirstTime kblock None (allHeapSizes ! i) ty f st = Some (None, True, st')"
      and "blocks st \<subseteq> blocks st'"
  | (made) h st' where "allocateFirstTime kblock None (allHeapSizes ! i) ty f st = Some (Some h, f, st')"
      and "blocks st \<subseteq> blocks st'" and "hh_inv blocks h st'" and "ph_sizeOfT h = allHeapSizes ! i"
proof -
  let ?s = "allHeapSizes ! i"
  let ?n = "first_numElems ?s"
  note c = heap_size_classes [OF i]
  have unf: "allocateFirstTime kblock None ?s ty f st =
      do { (r, st') \<leftarrow> patchHeap1Size_new kblock ?s ?n ty st;
           Some (case r of Inr h \<Rightarrow> (Some h, f, st') | Inl _ \<Rightarrow> (None, True, st')) }"
    using c(1,4) by (simp add: allocateFirstTime_def Let_def word_less_nat_alt)
  from law c(2,4,5) show ?thesis
  proof (cases rule: create_subheap_spec [where ty = ty and st = st])
    case (none st')
    then show ?thesis using failed unf by (simp add: patchHeap1Size_new_def)
  next
    case (some s st')
    let ?h = "\<lparr>ph_sizeOfT = ?s, ph_allocType = ty, ph_subs = [s]\<rparr>"
    have new: "patchHeap1Size_new kblock ?s ?n ty st = Some (Inr ?h, st')"
      using some(1) by (simp add: patchHeap1Size_new_def)
    have "hh_inv blocks ?h st'" using patchHeap1Size_new_inv [OF law c(2,3,4,5) new] by (simp add: client_inv_def)
    then show ?thesis using made [of ?h st'] unf new some(5) by simp
  qed
qed

text \<open>
  What an allocation from one of the three arrays gives: the address is 0, or it is the address of a
  patch of the right size that was not held before.
\<close>

definition patch_from ::
  "('st \<Rightarrow> (kptr \<times> u32) set) \<Rightarrow> (patchHeap \<Rightarrow> patchHeap1Size option list) \<Rightarrow> nat \<Rightarrow> kptr \<Rightarrow> patchHeap \<Rightarrow> 'st \<Rightarrow> bool" where
  "patch_from blocks arr i p ph' st' \<longleftrightarrow> ph_inv blocks ph' st' \<and>
     (p \<noteq> 0 \<longrightarrow> (\<exists>h. arr ph' ! i = Some h \<and> p \<in> held_slots h))"

lemma hh_alloc_held:
  assumes "block_law blocks kblock" and "hh_inv blocks h st"
  obtains p h' st' where "hh_alloc kblock h st = Some (p, h', st')" and "hh_inv blocks h' st'"
    and "ph_sizeOfT h' = ph_sizeOfT h" and "p \<noteq> 0 \<longrightarrow> p \<in> held_slots h'" and "blocks st \<subseteq> blocks st'"
    and "all_free (ph_subs h) \<noteq> {} \<longrightarrow> p \<noteq> 0"
proof -
  from hh_alloc_spec [OF assms]
  obtain p h' st' where a: "hh_alloc kblock h st = Some (p, h', st')" "hh_inv blocks h' st'"
    "ph_sizeOfT h' = ph_sizeOfT h" "if p = 0 then held_slots h' = held_slots h
       else p \<notin> held_slots h \<and> held_slots h' = insert p (held_slots h)"
    "blocks st \<subseteq> blocks st'" "all_free (ph_subs h) \<noteq> {} \<longrightarrow> p \<noteq> 0" .
  have "p \<noteq> 0 \<longrightarrow> p \<in> held_slots h'" using a(4) by (metis insertI1)
  then show ?thesis by (rule that [OF a(1,2,3) _ a(5,6)])
qed

text \<open>The heap of a size, made if need be, and what it allocates.\<close>

lemma array_alloc_spec:
  assumes law: "block_law blocks kblock" and hs: "heaps_ok blocks st hs" and i: "i < numHeapSizes"
  obtains (failed) st1 where "(case hs ! i of None \<Rightarrow> allocateFirstTime kblock None (allHeapSizes ! i) ty False st
        | Some h \<Rightarrow> Some (Some h, False, st)) = Some (None, True, st1)"
      and "blocks st \<subseteq> blocks st1"
  | (opened) h st1 p h' st2 where "(case hs ! i of None \<Rightarrow> allocateFirstTime kblock None (allHeapSizes ! i) ty False st
        | Some h \<Rightarrow> Some (Some h, False, st)) = Some (Some h, False, st1)"
      and "ph_sizeOfT h = allHeapSizes ! i" and "hh_alloc kblock h st1 = Some (p, h', st2)"
      and "blocks st \<subseteq> blocks st2" and "heaps_ok blocks st2 (hs[i := Some h'])" and "p \<noteq> 0 \<longrightarrow> p \<in> held_slots h'"
      and "hs ! i = Some h \<and> all_free (ph_subs h) \<noteq> {} \<longrightarrow> p \<noteq> 0"
proof -
  have use_heap: ?thesis
    if o: "(case hs ! i of None \<Rightarrow> allocateFirstTime kblock None (allHeapSizes ! i) ty False st
        | Some h \<Rightarrow> Some (Some h, False, st)) = Some (Some h, False, st1)"
      "blocks st \<subseteq> blocks st1" "hh_inv blocks h st1" "ph_sizeOfT h = allHeapSizes ! i" for h st1
  proof -
    from hh_alloc_held [OF law o(3)]
    obtain p h' st2 where a: "hh_alloc kblock h st1 = Some (p, h', st2)" "hh_inv blocks h' st2"
      "ph_sizeOfT h' = ph_sizeOfT h" "p \<noteq> 0 \<longrightarrow> p \<in> held_slots h'" "blocks st1 \<subseteq> blocks st2"
      "all_free (ph_subs h) \<noteq> {} \<longrightarrow> p \<noteq> 0" .
    have mono: "blocks st \<subseteq> blocks st2" using o(2) a(5) by (rule order_trans)
    have "heaps_ok blocks st2 (hs[i := Some h'])"
      using heaps_ok_mono [OF hs mono] i a(2,3) o(4) by (intro heaps_ok_update) simp_all
    then show ?thesis by (rule opened [OF o(1,4) a(1) mono _ a(4)]) (use a(6) in simp)
  qed
  show ?thesis
  proof (cases "hs ! i")
    case (Some h)
    then show ?thesis using use_heap [of h st] heaps_ok_nth [OF hs i Some] by simp
  next
    case None
    from law i show ?thesis
    proof (cases rule: allocateFirstTime_spec [where ty = ty and f = False and st = st])
      case (failed st')
      then show ?thesis using that(1) None by simp
    next
      case (made h st')
      then show ?thesis using use_heap [of h st'] None by simp
    qed
  qed
qed

lemma alloc_nucleus_spec:
  assumes law: "block_law blocks kblock" and inv: "ph_inv blocks ph st" and i: "i < numHeapSizes"
    and nf: "\<not> nucleusAllocationHasFailed ph"
  shows "\<exists>p ph' st'. alloc_nucleus kblock ph i (allHeapSizes ! i) st = Some (p, ph', st') \<and>
    patch_from blocks nucleusPatchHeaps i p ph' st'"
proof -
  have nf': "nucleusAllocationHasFailed ph = False" using nf by simp
  have hs: "heaps_ok blocks st (nucleusPatchHeaps ph)" and len: "length (nucleusPatchHeaps ph) = numHeapSizes"
    using inv by (auto simp: ph_inv_def heaps_ok_def)
  from law hs i show ?thesis
  proof (cases rule: array_alloc_spec [where ty = ALLOC_TYPE_NUCLEUS])
    case (failed st1)
    have "heaps_ok blocks st1 ((nucleusPatchHeaps ph)[i := None])"
      using heaps_ok_mono [OF hs failed(2)] i by (intro heaps_ok_update) simp_all
    then have "ph_inv blocks (ph\<lparr>nucleusPatchHeaps := (nucleusPatchHeaps ph)[i := None], nucleusAllocationHasFailed := True\<rparr>) st1"
      using ph_inv_mono [OF inv failed(2)] by (simp add: ph_inv_def)
    moreover have "alloc_nucleus kblock ph i (allHeapSizes ! i) st =
        Some (0, ph\<lparr>nucleusPatchHeaps := (nucleusPatchHeaps ph)[i := None], nucleusAllocationHasFailed := True\<rparr>, st1)"
      unfolding alloc_nucleus_def nf' failed(1) by simp
    ultimately show ?thesis by (simp add: patch_from_def)
  next
    case (opened h st1 p h' st2)
    have "ph_inv blocks (ph\<lparr>nucleusPatchHeaps := (nucleusPatchHeaps ph)[i := Some h']\<rparr>) st2"
      using ph_inv_mono [OF inv opened(4)] opened(5) by (simp add: ph_inv_def)
    moreover have "alloc_nucleus kblock ph i (allHeapSizes ! i) st =
        Some (p, ph\<lparr>nucleusPatchHeaps := (nucleusPatchHeaps ph)[i := Some h']\<rparr>, st2)"
      unfolding alloc_nucleus_def nf' opened(1) using opened(2,3) nf by simp
    ultimately show ?thesis using opened(6) i len by (simp add: patch_from_def)
  qed
qed

lemma alloc_below_spec:
  assumes law: "block_law blocks kblock" and inv: "ph_inv blocks ph st" and i: "i < numHeapSizes"
    and nf: "\<not> belowAllocationHasFailed ph"
  shows "\<exists>p ph' st'. alloc_below kblock ph i (allHeapSizes ! i) st = Some (p, ph', st') \<and>
    patch_from blocks belowNucleusPatchHeaps i p ph' st'"
proof -
  have nf': "belowAllocationHasFailed ph = False" using nf by simp
  have hs: "heaps_ok blocks st (belowNucleusPatchHeaps ph)" and len: "length (belowNucleusPatchHeaps ph) = numHeapSizes"
    using inv by (auto simp: ph_inv_def heaps_ok_def)
  from law hs i show ?thesis
  proof (cases rule: array_alloc_spec [where ty = ALLOC_TYPE_BELOW_NUCLEUS])
    case (failed st1)
    have "heaps_ok blocks st1 ((belowNucleusPatchHeaps ph)[i := None])"
      using heaps_ok_mono [OF hs failed(2)] i by (intro heaps_ok_update) simp_all
    then have "ph_inv blocks (ph\<lparr>belowNucleusPatchHeaps := (belowNucleusPatchHeaps ph)[i := None], belowAllocationHasFailed := True\<rparr>) st1"
      using ph_inv_mono [OF inv failed(2)] by (simp add: ph_inv_def)
    moreover have "alloc_below kblock ph i (allHeapSizes ! i) st =
        Some (0, ph\<lparr>belowNucleusPatchHeaps := (belowNucleusPatchHeaps ph)[i := None], belowAllocationHasFailed := True\<rparr>, st1)"
      unfolding alloc_below_def nf' failed(1) by simp
    ultimately show ?thesis by (simp add: patch_from_def)
  next
    case (opened h st1 p h' st2)
    have "ph_inv blocks (ph\<lparr>belowNucleusPatchHeaps := (belowNucleusPatchHeaps ph)[i := Some h']\<rparr>) st2"
      using ph_inv_mono [OF inv opened(4)] opened(5) by (simp add: ph_inv_def)
    moreover have "alloc_below kblock ph i (allHeapSizes ! i) st =
        Some (p, ph\<lparr>belowNucleusPatchHeaps := (belowNucleusPatchHeaps ph)[i := Some h']\<rparr>, st2)"
      unfolding alloc_below_def nf' opened(1) using opened(2,3) nf by simp
    ultimately show ?thesis using opened(6) i len by (simp add: patch_from_def)
  qed
qed

lemma alloc_nonnucleus_spec:
  assumes law: "block_law blocks kblock" and inv: "ph_inv blocks ph st" and i: "i < numHeapSizes"
  shows "alloc_nonnucleus kblock ph i (allHeapSizes ! i) st = None \<and>
      \<not> (\<exists>h. nonNucleusPatchHeaps ph ! i = Some h \<and> all_free (ph_subs h) \<noteq> {}) \<or>
    (\<exists>p ph' st'. alloc_nonnucleus kblock ph i (allHeapSizes ! i) st = Some (p, ph', st') \<and> p \<noteq> 0 \<and>
      patch_from blocks nonNucleusPatchHeaps i p ph' st')"
proof -
  have hs: "heaps_ok blocks st (nonNucleusPatchHeaps ph)" and len: "length (nonNucleusPatchHeaps ph) = numHeapSizes"
    using inv by (auto simp: ph_inv_def heaps_ok_def)
  from law hs i show ?thesis
  proof (cases rule: array_alloc_spec [where ty = ALLOC_TYPE_KMEM32])
    case (failed st1)
    then show ?thesis by (auto simp: alloc_nonnucleus_def split: option.splits)
  next
    case (opened h st1 p h' st2)
    have same: "h2 = h" if "nonNucleusPatchHeaps ph ! i = Some h2" for h2
      using opened(1) that by simp
    show ?thesis
    proof (cases "p = 0")
      case True
      have "alloc_nonnucleus kblock ph i (allHeapSizes ! i) st = None"
        unfolding alloc_nonnucleus_def opened(1) using opened(2,3) True by simp
      moreover have "\<not> (\<exists>h. nonNucleusPatchHeaps ph ! i = Some h \<and> all_free (ph_subs h) \<noteq> {})"
        using same opened(7) True by fast
      ultimately show ?thesis by blast
    next
      case False
      have "ph_inv blocks (ph\<lparr>nonNucleusPatchHeaps := (nonNucleusPatchHeaps ph)[i := Some h']\<rparr>) st2"
        using ph_inv_mono [OF inv opened(4)] opened(5) by (simp add: ph_inv_def)
      moreover have "alloc_nonnucleus kblock ph i (allHeapSizes ! i) st =
          Some (p, ph\<lparr>nonNucleusPatchHeaps := (nonNucleusPatchHeaps ph)[i := Some h']\<rparr>, st2)"
        unfolding alloc_nonnucleus_def opened(1) using opened(2,3) False by simp
      ultimately show ?thesis using opened(6) False i len by (simp add: patch_from_def)
    qed
  qed
qed

section \<open>Allocation\<close>

text \<open>A patch of the right size that is held, in one of the three heaps of the size class.\<close>

definition is_patch :: "patchHeap \<Rightarrow> nat \<Rightarrow> kptr \<Rightarrow> bool" where
  "is_patch ph i p \<longleftrightarrow> (\<exists>h. Some h \<in> {nucleusPatchHeaps ph ! i, belowNucleusPatchHeaps ph ! i, nonNucleusPatchHeaps ph ! i} \<and>
     ph_sizeOfT h = allHeapSizes ! i \<and> p \<in> held_slots h)"

lemma patch_from_is_patch:
  assumes i: "i < numHeapSizes" and p: "p \<noteq> 0" and from_arr: "patch_from blocks arr i p ph st"
    and arr: "arr ph \<in> {nucleusPatchHeaps ph, belowNucleusPatchHeaps ph, nonNucleusPatchHeaps ph}"
  shows "is_patch ph i p"
proof -
  obtain h where h: "arr ph ! i = Some h" "p \<in> held_slots h" using from_arr p unfolding patch_from_def by blast
  have "heaps_ok blocks st (arr ph)" using from_arr arr by (auto simp: patch_from_def ph_inv_def)
  from heaps_ok_nth [OF this i h(1)] have "ph_sizeOfT h = allHeapSizes ! i" by simp
  moreover have "Some h \<in> {nucleusPatchHeaps ph ! i, belowNucleusPatchHeaps ph ! i, nonNucleusPatchHeaps ph ! i}"
    unfolding h(1) [symmetric] using arr by fastforce
  ultimately show ?thesis unfolding is_patch_def using h(2) by blast
qed

lemma patch_from_inv: "patch_from blocks arr i p ph st \<Longrightarrow> ph_inv blocks ph st"
  by (simp add: patch_from_def)

lemma ph_inv_flags:
  "ph_inv blocks (ph\<lparr>nucleusAllocationHasFailed := b\<rparr>) st = ph_inv blocks ph st"
  "ph_inv blocks (ph\<lparr>belowAllocationHasFailed := b\<rparr>) st = ph_inv blocks ph st"
  by (simp_all add: ph_inv_def)

text \<open>The allocation outside of the nucleus, which every other attempt falls back to.\<close>

lemma elsewhere_spec:
  assumes "block_law blocks kblock" and "ph_inv blocks ph st" and "i < numHeapSizes"
    and r: "r = do { (result, ph', st') \<leftarrow> alloc_nonnucleus kblock ph i (allHeapSizes ! i) st;
             if result = 0 then Some (Inl OutOfFreeSpace) else Some (Inr (result, ph', st')) }"
  shows "r = None \<and> \<not> (\<exists>h. nonNucleusPatchHeaps ph ! i = Some h \<and> all_free (ph_subs h) \<noteq> {}) \<or>
    (\<exists>p ph' st'. r = Some (Inr (p, ph', st')) \<and> p \<noteq> 0 \<and> ph_inv blocks ph' st' \<and> is_patch ph' i p)"
  using alloc_nonnucleus_spec [OF assms(1-3)]
proof (elim disjE conjE exE)
  fix p ph' st' assume a: "alloc_nonnucleus kblock ph i (allHeapSizes ! i) st = Some (p, ph', st')" "p \<noteq> 0"
    "patch_from blocks nonNucleusPatchHeaps i p ph' st'"
  then have "r = Some (Inr (p, ph', st'))" by (simp add: r)
  then show ?thesis using a(2) patch_from_is_patch [OF assms(3) a(2,3)] patch_from_inv [OF a(3)] by simp
qed (simp add: r)

lemma patchHeap_alloc_spec:
  assumes law: "block_law blocks kblock" and inv: "ph_inv blocks ph st" and i: "heap_size_ndx sz < numHeapSizes"
  shows "patchHeap_alloc kblock ph sz tn st = None \<or>
    (\<exists>p ph' st'. patchHeap_alloc kblock ph sz tn st = Some (Inr (p, ph', st')) \<and> p \<noteq> 0 \<and>
       ph_inv blocks ph' st' \<and> is_patch ph' (heap_size_ndx sz) p)"
proof (cases tn)
  case False
  define r where "r = patchHeap_alloc kblock ph sz tn st"
  have "r = do { (result, ph', st') \<leftarrow> alloc_nonnucleus kblock ph (heap_size_ndx sz) (allHeapSizes ! heap_size_ndx sz) st;
             if result = 0 then Some (Inl OutOfFreeSpace) else Some (Inr (result, ph', st')) }"
    using i False by (simp add: r_def patchHeap_alloc_def Let_def)
  from elsewhere_spec [OF law inv i this] show ?thesis unfolding r_def by blast
next
  case True
  let ?i = "heap_size_ndx sz" and ?els = "\<lambda>ph st. do {
     (result, ph', st') \<leftarrow> alloc_nonnucleus kblock ph (heap_size_ndx sz) (allHeapSizes ! heap_size_ndx sz) st;
     if result = 0 then Some (Inl OutOfFreeSpace) else Some (Inr (result, ph', st')) }"
  obtain r1 ph1 st1 where n: "(if \<not> nucleusAllocationHasFailed ph then alloc_nucleus kblock ph ?i (allHeapSizes ! ?i) st
      else Some (0, ph, st)) = Some (r1, ph1, st1)" "ph_inv blocks ph1 st1" "r1 \<noteq> 0 \<longrightarrow> is_patch ph1 ?i r1"
  proof (cases "nucleusAllocationHasFailed ph")
    case False
    with alloc_nucleus_spec [OF law inv i] obtain p ph' st' where
      "alloc_nucleus kblock ph ?i (allHeapSizes ! ?i) st = Some (p, ph', st')"
      "patch_from blocks nucleusPatchHeaps ?i p ph' st'" by blast
    with that [of p ph' st'] False patch_from_is_patch [OF i, of p blocks nucleusPatchHeaps ph' st'] patch_from_inv
    show ?thesis by force
  qed (use that [of 0 ph st] inv in simp)
  define ph2 where "ph2 = ph1\<lparr>nucleusAllocationHasFailed := True\<rparr>"
  have inv2: "ph_inv blocks ph2 st1" using n(2) by (simp add: ph2_def ph_inv_flags)
  obtain r2 ph3 st3 where b: "(if \<not> belowAllocationHasFailed ph2 then alloc_below kblock ph2 ?i (allHeapSizes ! ?i) st1
      else Some (0, ph2, st1)) = Some (r2, ph3, st3)" "ph_inv blocks ph3 st3" "r2 \<noteq> 0 \<longrightarrow> is_patch ph3 ?i r2"
  proof (cases "belowAllocationHasFailed ph2")
    case False
    with alloc_below_spec [OF law inv2 i] obtain p ph' st' where
      "alloc_below kblock ph2 ?i (allHeapSizes ! ?i) st1 = Some (p, ph', st')"
      "patch_from blocks belowNucleusPatchHeaps ?i p ph' st'" by blast
    with that [of p ph' st'] False patch_from_is_patch [OF i, of p blocks belowNucleusPatchHeaps ph' st'] patch_from_inv
    show ?thesis by force
  qed (use that [of 0 ph2 st1] inv2 in simp)
  have "patchHeap_alloc kblock ph sz tn st =
     (if r1 \<noteq> 0 then Some (Inr (r1, ph1, st1))
      else if r2 \<noteq> 0 then Some (Inr (r2, ph3, st3))
      else ?els (ph3\<lparr>belowAllocationHasFailed := True\<rparr>) st3)"
    using i True n(1) b(1) unfolding patchHeap_alloc_def ph2_def by (simp add: Let_def)
  moreover have "?els (ph3\<lparr>belowAllocationHasFailed := True\<rparr>) st3 = None \<or>
    (\<exists>p ph' st'. ?els (ph3\<lparr>belowAllocationHasFailed := True\<rparr>) st3 = Some (Inr (p, ph', st')) \<and> p \<noteq> 0 \<and>
       ph_inv blocks ph' st' \<and> is_patch ph' ?i p)"
    using elsewhere_spec [OF law _ i refl, of "ph3\<lparr>belowAllocationHasFailed := True\<rparr>" st3] b(2)
    unfolding ph_inv_flags by blast
  ultimately show ?thesis using n(2,3) b(2,3) by (cases "r1 = 0"; cases "r2 = 0") simp_all
qed

section \<open>Properties\<close>



text \<open>When no patch is free and the next sub-heap would exceed the driver's limit, the heap gives 0.\<close>

lemma hh_alloc_refused:
  assumes law: "block_law blocks kblock" and ok: "subs_ok (ph_sizeOfT h) (ph_subs h)" "ph_subs h \<noteq> []"
    and full: "all_free (ph_subs h) = {}"
    and n: "n = (let f = nBasicElems (hd (ph_subs h)); n0 = f + drop_bit 1 f in if n0 = f then n0 + 1 else n0)"
    and large: "131000 < unat (roundUpToMultipleOfPageSize (n * ph_sizeOfT h))"
  shows "\<exists>st'. hh_alloc kblock h st = Some (0, h, st')"
proof -
  let ?b = "roundUpToMultipleOfPageSize (n * ph_sizeOfT h)"
  obtain p q st' where k: "kblock ?b (ph_allocType h) st = ((p, q), st')" by (metis surj_pair)
  have "p = 0 \<or> q = 0"
  proof (rule ccontr)
    assume "\<not> (p = 0 \<or> q = 0)"
    then have "unat ?b \<le> 131000" using law k unfolding block_law_def by presburger
    then show False using large by simp
  qed
  then have "create_subheap kblock (ph_sizeOfT h) (ph_allocType h) n st = Some (None, st')"
    using k by (simp add: create_subheap_def Let_def)
  then show ?thesis
    using allocate_spec(1) [OF ok(1) full] ok(2) by (simp add: hh_alloc_def Let_def n del: allocate.simps)
qed

lemma large_class: "32768 < unat sz \<Longrightarrow> unat sz \<le> 65536 \<Longrightarrow> heap_size_ndx sz = 17"
  by (simp add: heap_size_ndx_def allHeapSizes_def word_less_nat_alt)

lemma alloc_False:
  "heap_size_ndx sz = 17 \<Longrightarrow> patchHeap_alloc kblock ph sz False st =
    do { (result, ph', st') \<leftarrow> alloc_nonnucleus kblock ph 17 65536 st;
         if result = 0 then Some (Inl OutOfFreeSpace) else Some (Inr (result, ph', st')) }"
  by (simp add: patchHeap_alloc_def Let_def numHeapSizes_def allHeapSizes_def)

text \<open>
  On a driver that hands out at most 131000 bytes at a time, the largest size class can never hold
  more than one patch: the heap tries to grow by a sub-heap of two patches, the driver refuses, and the
  second request outside of the nucleus aborts the daemon.
\<close>

theorem second_large_patch_aborts:
  assumes law: "block_law blocks kblock" and sz: "32768 < unat sz" "unat sz \<le> 65536"
    and first: "patchHeap_alloc kblock patchHeap_new sz False st = Some (Inr (p, ph, st1))"
  shows "patchHeap_alloc kblock ph sz False st1 = None"
proof -
  note i = large_class [OF sz]
  have s17: "allHeapSizes ! 17 = 65536" by (simp add: allHeapSizes_def)
  have n1: "first_numElems 65536 = 1" by (simp add: first_numElems_def)
  have none17: "nonNucleusPatchHeaps patchHeap_new ! 17 = None" by (simp add: patchHeap_new_def numHeapSizes_def)
  have "0 < unat (65536 :: u32)" "0 < unat (1 :: u32)" "unat (1 :: u32) * unat (65536 :: u32) \<le> 2 ^ 31" by simp_all
  with law show ?thesis
  proof (cases rule: create_subheap_spec [where sz = 65536 and n = 1 and ty = ALLOC_TYPE_KMEM32 and st = st])
    case (none st')
    then have "alloc_nonnucleus kblock patchHeap_new 17 65536 st = None"
      by (simp add: alloc_nonnucleus_def none17 allocateFirstTime_def n1 patchHeap1Size_new_def s17)
    then show ?thesis using first i by (simp add: alloc_False)
  next
    case (some s st')
    define h where "h = \<lparr>ph_sizeOfT = 65536, ph_allocType = ALLOC_TYPE_KMEM32, ph_subs = [s]\<rparr>"
    have ok: "subs_ok 65536 [s]" using some(2) by (simp add: subs_ok_def)
    have "card (free_slots s) = 1" using some(2,3,4) card_slots [of 65536 s] by simp
    then obtain x where x: "free_slots s = {x}" by (auto simp: card_1_singleton_iff)
    then have "all_free [s] \<noteq> {}" by simp
    from allocate_spec(2) [OF ok this]
    obtain p' ss' where a: "allocate 65536 [s] = Some (p', ss')" "p' \<in> all_free [s]" "subs_ok 65536 ss'"
      "list_all2 same_place [s] ss'" "all_free ss' = all_free [s] - {p'}" by blast
    have full: "all_free ss' = {}" using a(2,5) x by auto
    obtain s' where s': "ss' = [s']" "nBasicElems s' = 1"
      using a(4) some(4) by (auto simp: list_all2_Cons1 same_place_def)
    have "p' \<in> slots 65536 s" using a(2) some(3) by simp
    then have p0: "p' \<noteq> 0" using slots_bounds(3) [OF some(2)] by blast
    have "hh_alloc kblock h st' = Some (p', h\<lparr>ph_subs := ss'\<rparr>, st')"
      using a(1) p0 by (simp add: hh_alloc_def h_def del: allocate.simps)
    then have "alloc_nonnucleus kblock patchHeap_new 17 65536 st =
        Some (p', patchHeap_new\<lparr>nonNucleusPatchHeaps := (nonNucleusPatchHeaps patchHeap_new)[17 := Some (h\<lparr>ph_subs := ss'\<rparr>)]\<rparr>, st')"
      using some(1) p0
      by (simp add: alloc_nonnucleus_def none17 allocateFirstTime_def n1 patchHeap1Size_new_def s17 h_def)
    then have ph: "ph = patchHeap_new\<lparr>nonNucleusPatchHeaps := (nonNucleusPatchHeaps patchHeap_new)[17 := Some (h\<lparr>ph_subs := ss'\<rparr>)]\<rparr>"
      and st1: "st1 = st'" using first i p0 by (simp_all add: alloc_False)
    have at17: "nonNucleusPatchHeaps ph ! 17 = Some (h\<lparr>ph_subs := ss'\<rparr>)"
      unfolding ph by (simp add: patchHeap_new_def numHeapSizes_def)
    obtain st2 where "hh_alloc kblock (h\<lparr>ph_subs := ss'\<rparr>) st1 = Some (0, h\<lparr>ph_subs := ss'\<rparr>, st2)"
      using hh_alloc_refused [OF law, of "h\<lparr>ph_subs := ss'\<rparr>" 2 st1] a(3) full s'
      by (auto simp: h_def roundUpToMultipleOfPageSize_def pageNumBytes_def)
    then have "alloc_nonnucleus kblock ph 17 65536 st1 = None"
      by (simp add: alloc_nonnucleus_def at17 s17 h_def)
    then show ?thesis using i by (simp add: alloc_False)
  qed
qed

theorem second_large_patch_aborts_witness:
  "\<exists>p ph st1. patchHeap_alloc bump_kblock patchHeap_new 40000 False [] = Some (Inr (p, ph, st1)) \<and>
    patchHeap_alloc bump_kblock ph 40000 False st1 = None"
proof -
  have "\<exists>x. patchHeap_alloc bump_kblock patchHeap_new 40000 False [] = Some (Inr x)"
    by (simp add: alloc_False large_class alloc_nonnucleus_def patchHeap_new_def numHeapSizes_def
        allocateFirstTime_def first_numElems_def patchHeap1Size_new_def create_subheap_def bump_kblock_def
        patch_subheap_new_def subheap_new_def roundUpToMultipleOfPageSize_def pageNumBytes_def
        hh_alloc_def belongs_def allHeapSizes_def Let_def)
  then obtain p ph st1 where a: "patchHeap_alloc bump_kblock patchHeap_new 40000 False [] = Some (Inr (p, ph, st1))"
    by auto
  have "patchHeap_alloc bump_kblock ph 40000 False st1 = None"
    by (rule second_large_patch_aborts [OF bump_kblock_law _ _ a]) simp_all
  then show ?thesis using a by blast
qed

end
