(* ===== verification/X86RegSet.thy ===== *)
theory X86RegSet
  imports BitUtils
begin

text \<open>
  Registers of the i386 daemon (\<open>kerninstd/x86_reg\<close>) and sets of them as bit vectors
  (\<open>kerninstd/x86_reg_set\<close>), with the set iterator of \<open>archtraits/src/reg_set.h\<close>. A failed assertion
  is \<^const>\<open>None\<close>; the exception \<open>malformedreg\<close> is \<^const>\<open>Inl\<close>.
\<close>

named_theorems rs_simps \<open>the single bits of register sets\<close>

section \<open>Registers\<close>

record x86_reg =
  regnum :: u32

datatype malformedreg = Malformedreg

definition max_reg_num :: u32 where "max_reg_num = 46"
definition min_int_reg :: u32 where "min_int_reg = 0"
definition max_int_reg :: u32 where "max_int_reg = 23"
definition min_seg_reg :: u32 where "min_seg_reg = 24"
definition max_seg_reg :: u32 where "max_seg_reg = 29"
definition min_ctl_reg :: u32 where "min_ctl_reg = 33"
definition max_ctl_reg :: u32 where "max_ctl_reg = 37"
definition min_dbg_reg :: u32 where "min_dbg_reg = 38"
definition max_dbg_reg :: u32 where "max_dbg_reg = 45"

definition reg_new :: "u32 \<Rightarrow> x86_reg option" where
  "reg_new i = (if i \<le> max_reg_num then Some \<lparr>regnum = i\<rparr> else None)"

definition EFLAGS :: x86_reg where "EFLAGS = \<lparr>regnum = 30\<rparr>"
definition PC :: x86_reg where "PC = \<lparr>regnum = 31\<rparr>"
definition FP :: x86_reg where "FP = \<lparr>regnum = 32\<rparr>"
definition nullreg :: x86_reg where "nullreg = \<lparr>regnum = 46\<rparr>"

definition preDisassembledRegs :: "string list" where
  "preDisassembledRegs =
     [''%al'', ''%cl'', ''%dl'', ''%bl'', ''%ah'', ''%ch'', ''%dh'', ''%bh'',
      ''%ax'', ''%cx'', ''%dx'', ''%bx'', ''%sp'', ''%bp'', ''%si'', ''%di'',
      ''%eax'', ''%ecx'', ''%edx'', ''%ebx'', ''%esp'', ''%ebp'', ''%esi'', ''%edi'',
      ''%es'', ''%cs'', ''%ss'', ''%ds'', ''%fs'', ''%gs'',
      ''%EFLAGS'', ''%eip'', ''%fp?'', ''%cr0'', ''%cr1'', ''%cr2'', ''%cr3'', ''%cr4'',
      ''%dr0'', ''%dr1'', ''%dr2'', ''%dr3'', ''%dr4'', ''%dr5'', ''%dr6'', ''%dr7'',
      ''NULLreg'']"

text \<open>The array of all registers, by number. As in the source, CR3 (36) is missing.\<close>

definition regArray :: "x86_reg list" where
  "regArray = map (\<lambda>i. \<lparr>regnum = i\<rparr>)
     [0, 1, 2, 3, 4, 5, 6, 7, 8, 9, 10, 11, 12, 13, 14, 15, 16, 17, 18, 19, 20, 21, 22, 23,
      24, 25, 26, 27, 28, 29, 30, 31, 32, 33, 34, 35, 37, 38, 39, 40, 41, 42, 43, 44, 45, 46]"

definition getRegByBit :: "u32 \<Rightarrow> x86_reg option" where
  "getRegByBit b = (if b \<le> max_reg_num \<and> unat b < length regArray then Some (regArray ! unat b) else None)"

definition getRegRMVal :: "x86_reg \<Rightarrow> u8 option" where
  "getRegRMVal r = (if regnum r \<le> max_int_reg then Some (ucast (regnum r mod 8)) else None)"

definition reg_generalModRM :: "u32 \<Rightarrow> u32 \<Rightarrow> x86_reg option" where
  "reg_generalModRM u width = do {
     assert (width = 1 \<or> width = 2 \<or> width = 4);
     assert (u < 8);
     Some \<lparr>regnum = u + (if width > 1 then (width div 2) * 8 else 0)\<rparr>
   }"

definition reg_segment :: "u32 \<Rightarrow> malformedreg + x86_reg" where
  "reg_segment u = (if u \<ge> 6 then Inl Malformedreg else Inr \<lparr>regnum = u + min_seg_reg\<rparr>)"

definition reg_control :: "u32 \<Rightarrow> malformedreg + x86_reg" where
  "reg_control u = (if u \<ge> 5 then Inl Malformedreg else Inr \<lparr>regnum = u + min_ctl_reg\<rparr>)"

definition reg_debug :: "u32 \<Rightarrow> malformedreg + x86_reg" where
  "reg_debug u = (if u > 7 then Inl Malformedreg else Inr \<lparr>regnum = u + min_dbg_reg\<rparr>)"

definition isIntReg :: "x86_reg \<Rightarrow> bool" where "isIntReg r = (regnum r \<le> max_int_reg)"

definition is32BitIntReg :: "x86_reg \<Rightarrow> bool" where
  "is32BitIntReg r = (16 \<le> regnum r \<and> regnum r \<le> 23)"

definition isSegReg :: "x86_reg \<Rightarrow> bool" where
  "isSegReg r = (min_seg_reg \<le> regnum r \<and> regnum r \<le> max_seg_reg)"

definition isEFLAGS :: "x86_reg \<Rightarrow> bool" where "isEFLAGS r = (regnum r = regnum EFLAGS)"
definition isPC :: "x86_reg \<Rightarrow> bool" where "isPC r = (regnum r = regnum PC)"
definition isFP :: "x86_reg \<Rightarrow> bool" where "isFP r = (regnum r = regnum FP)"

definition isCtlReg :: "x86_reg \<Rightarrow> bool" where
  "isCtlReg r = (min_ctl_reg \<le> regnum r \<and> regnum r \<le> max_ctl_reg)"

definition isNullReg :: "x86_reg \<Rightarrow> bool" where "isNullReg r = (regnum r = regnum nullreg)"
definition isFloatReg :: "x86_reg \<Rightarrow> bool" where "isFloatReg r = (regnum r = regnum FP)"

definition getIntNum :: "x86_reg \<Rightarrow> u32 option" where
  "getIntNum r = do { assert (isIntReg r); Some (regnum r) }"

definition reg_disass :: "x86_reg \<Rightarrow> string option" where
  "reg_disass r = do { assert (regnum r \<le> max_reg_num); Some (preDisassembledRegs ! unat (regnum r)) }"

section \<open>Register sets\<close>

record x86_reg_set =
  int_bits :: u32
  float_bits :: u64
  misc_stuff :: u32

text \<open>
  The bit-fields of \<open>ms\<close> are allocated from the least significant bit: 29 bits of padding, then
  \<open>pc\<close>, \<open>eflags\<close> and \<open>fp\<close>.
\<close>

definition ms_pc :: "x86_reg_set \<Rightarrow> bool" where "ms_pc s = bit (misc_stuff s) 29"
definition ms_eflags :: "x86_reg_set \<Rightarrow> bool" where "ms_eflags s = bit (misc_stuff s) 30"
definition ms_fp :: "x86_reg_set \<Rightarrow> bool" where "ms_fp s = bit (misc_stuff s) 31"

definition clear_padding :: "u32 \<Rightarrow> u32" where "clear_padding m = m AND 0xe0000000"

definition rs_raw :: "u32 \<Rightarrow> u64 \<Rightarrow> u32 \<Rightarrow> x86_reg_set" where
  "rs_raw i f m = \<lparr>int_bits = i, float_bits = f, misc_stuff = clear_padding m\<rparr>"

definition fullIntRegMask :: u32 where "fullIntRegMask = 0x3fffffff"
definition saveInt32RegMask :: u32 where "saveInt32RegMask = 0x00CF0000"

definition puff :: "u32 list" where
  "puff = [0x000, 0x111, 0x222, 0x333, 0x444, 0x555, 0x666, 0x777,
           0x888, 0x999, 0xaaa, 0xbbb, 0xccc, 0xddd, 0xeee, 0xfff]"

definition correctIntRegMask :: "u32 \<Rightarrow> u32" where
  "correctIntRegMask in0 =
     (let in1 = in0 AND fullIntRegMask;
          exs = drop_bit 16 in1 AND 0xf;
          in2 = in1 OR puff ! unat exs;
          eips = drop_bit 8 in2 AND 0xf000
      in in2 OR eips)"

definition promoteIntRegMask :: "u32 \<Rightarrow> u32" where
  "promoteIntRegMask in0 =
     (let in1 = in0 OR push_bit 4 (in0 AND 0xf0);
          in2 = in1 OR push_bit 8 (in1 AND 0xf)
      in in2 OR push_bit 8 (in2 AND 0xff00))"

definition singleIntRegMask :: "u32 \<Rightarrow> u32 option" where
  "singleIntRegMask i = do { assert (i < 30); shl32 1 i }"

definition diffIntRegMasks :: "u32 \<Rightarrow> u32 \<Rightarrow> u32" where
  "diffIntRegMasks a b =
     correctIntRegMask (promoteIntRegMask a) AND NOT (correctIntRegMask (promoteIntRegMask b))"

subsection \<open>Constructors and constants\<close>

definition rs_empty :: x86_reg_set where "rs_empty = \<lparr>int_bits = 0, float_bits = 0, misc_stuff = 0\<rparr>"

definition rs_full :: x86_reg_set where
  "rs_full = \<lparr>int_bits = fullIntRegMask, float_bits = 0xffffffffffffffff, misc_stuff = clear_padding 0xffffffff\<rparr>"

definition rs_save :: x86_reg_set where
  "rs_save = \<lparr>int_bits = saveInt32RegMask, float_bits = 0, misc_stuff = 0\<rparr>"

definition rs_singleIntReg :: "u32 \<Rightarrow> x86_reg_set option" where
  "rs_singleIntReg i = do {
     assert (i < 30);
     m \<leftarrow> singleIntRegMask i;
     Some \<lparr>int_bits = m, float_bits = 0, misc_stuff = 0\<rparr>
   }"

text \<open>The set of one register: an integer register stands for all the registers it overlaps.\<close>

definition rs_of_reg :: "x86_reg \<Rightarrow> x86_reg_set option" where
  "rs_of_reg r =
     (if isNullReg r then Some rs_empty
      else if isIntReg r then do {
        n \<leftarrow> getIntNum r;
        m \<leftarrow> singleIntRegMask n;
        Some \<lparr>int_bits = correctIntRegMask (promoteIntRegMask m), float_bits = 0, misc_stuff = 0\<rparr>
      }
      else if isFloatReg r then None
      else Some (if isPC r then rs_empty\<lparr>misc_stuff := 0x20000000\<rparr>
                 else if isEFLAGS r then rs_empty\<lparr>misc_stuff := 0x40000000\<rparr>
                 else if isFP r then rs_empty\<lparr>misc_stuff := 0x80000000\<rparr>
                 else rs_empty))"

definition emptyset :: x86_reg_set where "emptyset = rs_raw 0 0 0"
definition fullset :: x86_reg_set where "fullset = rs_raw 0x3fffffff 0xffffffffffffffff 0xffffffff"
definition always_live_set :: x86_reg_set where "always_live_set = rs_raw 0x0e101000 0 0xc0000000"
definition allFPs :: x86_reg_set where "allFPs = rs_raw 0 0xffffffffffffffff 0"
definition allIntRegs :: x86_reg_set where "allIntRegs = rs_raw 0xffffffff 0 0"
definition allMiscRegs :: x86_reg_set where "allMiscRegs = rs_raw 0 0 0xffffffff"
definition regsThatIgnoreWrites :: x86_reg_set where "regsThatIgnoreWrites = rs_raw 0 0 0x20000000"

subsection \<open>Operations\<close>

definition existsIntReg :: "x86_reg_set \<Rightarrow> u32 \<Rightarrow> bool option" where
  "existsIntReg s num = do { m \<leftarrow> singleIntRegMask num; Some (int_bits s AND m \<noteq> 0) }"

definition rs_exists :: "x86_reg_set \<Rightarrow> x86_reg \<Rightarrow> bool option" where
  "rs_exists s r =
     (if isIntReg r then do { n \<leftarrow> getIntNum r; existsIntReg s n }
      else if isFloatReg r then None
      else if isPC r then Some (ms_pc s)
      else if isEFLAGS r then Some (ms_eflags s)
      else if isFP r then Some (ms_fp s)
      else None)"

definition rs_exists_set :: "x86_reg_set \<Rightarrow> x86_reg_set \<Rightarrow> bool" where
  "rs_exists_set s sub =
     (if float_bits sub AND NOT (float_bits s) \<noteq> 0 then False
      else if int_bits sub AND NOT (promoteIntRegMask (int_bits s)) \<noteq> 0 then False
      else if misc_stuff sub AND NOT (misc_stuff s) \<noteq> 0 then False
      else True)"

definition rs_isempty :: "x86_reg_set \<Rightarrow> bool" where
  "rs_isempty s = (int_bits s = 0 \<and> float_bits s = 0 \<and> misc_stuff s = 0)"

definition rs_or :: "x86_reg_set \<Rightarrow> x86_reg_set \<Rightarrow> x86_reg_set" where
  "rs_or s src = \<lparr>int_bits = int_bits s OR int_bits src, float_bits = float_bits s OR float_bits src,
                  misc_stuff = misc_stuff s OR misc_stuff src\<rparr>"

definition rs_and :: "x86_reg_set \<Rightarrow> x86_reg_set \<Rightarrow> x86_reg_set" where
  "rs_and s src = \<lparr>int_bits = int_bits s AND int_bits src, float_bits = float_bits s AND float_bits src,
                   misc_stuff = misc_stuff s AND misc_stuff src\<rparr>"

definition rs_minus :: "x86_reg_set \<Rightarrow> x86_reg_set \<Rightarrow> x86_reg_set" where
  "rs_minus s src = \<lparr>int_bits = diffIntRegMasks (int_bits s) (int_bits src),
                     float_bits = float_bits s AND NOT (float_bits src),
                     misc_stuff = clear_padding (misc_stuff s AND NOT (misc_stuff src))\<rparr>"

definition rs_not :: "x86_reg_set \<Rightarrow> x86_reg_set" where
  "rs_not src = rs_raw (NOT (int_bits src)) (NOT (float_bits src)) (NOT (misc_stuff src))"

definition rs_or_reg :: "x86_reg_set \<Rightarrow> x86_reg \<Rightarrow> x86_reg_set option" where
  "rs_or_reg s r = do { src \<leftarrow> rs_of_reg r; Some (rs_or s src) }"

definition rs_and_reg :: "x86_reg_set \<Rightarrow> x86_reg \<Rightarrow> x86_reg_set option" where
  "rs_and_reg s r = do { src \<leftarrow> rs_of_reg r; Some (rs_and s src) }"

definition rs_minus_reg :: "x86_reg_set \<Rightarrow> x86_reg \<Rightarrow> x86_reg_set option" where
  "rs_minus_reg s r = do { src \<leftarrow> rs_of_reg r; Some (rs_minus s src) }"

definition rs_eq :: "x86_reg_set \<Rightarrow> x86_reg_set \<Rightarrow> bool" where
  "rs_eq s src = (int_bits s = int_bits src \<and> float_bits s = float_bits src \<and> misc_stuff s = misc_stuff src)"

text \<open>Comparison with a single register.\<close>

definition rs_eq_reg :: "x86_reg_set \<Rightarrow> x86_reg \<Rightarrow> bool option" where
  "rs_eq_reg s r =
     (if int_bits s \<noteq> 0 then
        (if float_bits s = 0 \<and> misc_stuff s = 0
         then do { n \<leftarrow> getIntNum r; m \<leftarrow> singleIntRegMask n; Some (m = int_bits s) }
         else Some False)
      else if float_bits s \<noteq> 0 then None
      else if ari_popc (misc_stuff s) \<noteq> 1 then Some False
      else if isPC r then Some (ms_pc s)
      else if isEFLAGS r then Some (ms_eflags s)
      else if isFP r then Some (ms_fp s)
      else None)"

definition expand1IntReg :: "x86_reg_set \<Rightarrow> x86_reg option" where
  "expand1IntReg s = do {
     assert (int_bits s \<noteq> 0);
     assert (float_bits s = 0);
     assert (misc_stuff s = 0);
     Some \<lparr>regnum = of_nat (ari_ffs (int_bits s))\<rparr>
   }"

definition expand1 :: "x86_reg_set \<Rightarrow> x86_reg option" where
  "expand1 s =
     (if int_bits s \<noteq> 0 then expand1IntReg s
      else if float_bits s \<noteq> 0 then None
      else if ms_pc s then Some PC
      else if ms_eflags s then Some EFLAGS
      else if ms_fp s then Some FP
      else None)"

definition countIntRegs :: "x86_reg_set \<Rightarrow> nat" where "countIntRegs s = ari_popc (int_bits s)"

definition countFPRegsAsSinglePrecision :: "x86_reg_set \<Rightarrow> nat" where
  "countFPRegsAsSinglePrecision s = ari_popc (float_bits s)"

definition countMiscRegs :: "x86_reg_set \<Rightarrow> nat" where "countMiscRegs s = ari_popc (misc_stuff s)"

definition rs_count :: "x86_reg_set \<Rightarrow> nat" where
  "rs_count s = countIntRegs s + countFPRegsAsSinglePrecision s + countMiscRegs s"

subsection \<open>Iteration\<close>

definition inSet :: "x86_reg_set \<Rightarrow> u32 \<Rightarrow> bool option" where
  "inSet s b =
     (if b < 30 then existsIntReg s b
      else if b < 33 then
        (if b = 30 then Some (ms_eflags s) else if b = 31 then Some (ms_pc s) else Some False)
      else Some False)"

text \<open>
  The iterator is its bit number. \<open>movetonext\<close> and the loop over \<open>begin() .. end()\<close> of \<open>disassx\<close>
  count upwards, here as recursions on the distance to the last register.
\<close>

definition bits_left :: "u32 \<Rightarrow> nat" where
  "bits_left b = (if b \<le> max_reg_num then 47 - unat b else 48)"

lemma bits_left_next:
  assumes "b + 1 \<le> max_reg_num"
  shows "bits_left (b + 1) < bits_left b"
proof (cases "b = -1")
  case False
  then have "unat (b + 1) = Suc (unat b)" using unatSuc [of b] by (simp add: add.commute add_eq_0_iff)
  then show ?thesis using assms by (simp add: bits_left_def max_reg_num_def word_le_nat_alt)
qed (simp add: bits_left_def max_reg_num_def word_le_nat_alt unsigned_minus_1_eq_mask mask_eq_exp_minus_1)

function movetonext_loop :: "x86_reg_set \<Rightarrow> u32 \<Rightarrow> u32 option" where
  "movetonext_loop s b =
     (let b' = b + 1 in
      if b' \<le> max_reg_num then do { i \<leftarrow> inSet s b'; if \<not> i then movetonext_loop s b' else Some b' }
      else Some b')"
  by pat_completeness auto
termination
  by (relation "measure (bits_left \<circ> snd)") (simp_all add: bits_left_next)

declare movetonext_loop.simps [simp del]

definition movetonext :: "x86_reg_set \<Rightarrow> u32 \<Rightarrow> u32 option" where
  "movetonext s b = do { assert (b \<le> max_reg_num); movetonext_loop s b }"

definition makeInSetOrEnd :: "x86_reg_set \<Rightarrow> u32 \<Rightarrow> u32 option" where
  "makeInSetOrEnd s b =
     (if b = max_reg_num + 1 then Some b
      else do { i \<leftarrow> inSet s b; if \<not> i then movetonext s b else Some b })"

definition rs_begin :: "x86_reg_set \<Rightarrow> u32 option" where "rs_begin s = makeInSetOrEnd s 0"
definition rs_end :: "x86_reg_set \<Rightarrow> u32 option" where "rs_end s = makeInSetOrEnd s (max_reg_num + 1)"

partial_function (option) disassx_loop :: "x86_reg_set \<Rightarrow> u32 \<Rightarrow> u32 \<Rightarrow> u32 \<Rightarrow> string \<Rightarrow> string option" where
  "disassx_loop s start finish it result =
     (if it = finish then Some result
      else do {
        reg \<leftarrow> getRegByBit it;
        d \<leftarrow> reg_disass reg;
        it' \<leftarrow> movetonext s it;
        disassx_loop s start finish it' (result @ (if it \<noteq> start then '' '' else '''') @ d)
      })"

definition disassx :: "x86_reg_set \<Rightarrow> string option" where
  "disassx s = do {
     start \<leftarrow> rs_begin s;
     finish \<leftarrow> rs_end s;
     disassx_loop s start finish start ''''
   }"

section \<open>Overlapping registers\<close>

text \<open>
  Two integer registers overlap when they are parts of the same 32-bit register: \<open>AL\<close>, \<open>AH\<close>, \<open>AX\<close>
  and \<open>eAX\<close> have the numbers 0, 4, 8 and 16, \<open>SP\<close> and \<open>eSP\<close> 12 and 20. Segment registers overlap
  nothing. \<open>closeMask\<close> is the normalisation the constructor and the difference of sets apply.
\<close>

definition family :: "nat \<Rightarrow> nat" where
  "family i = (if i < 12 then i mod 4 else if i < 16 then i - 8 else if i < 24 then i - 16 else i)"

abbreviation closeMask :: "u32 \<Rightarrow> u32" where
  "closeMask x \<equiv> correctIntRegMask (promoteIntRegMask x)"

lemma less32_cases:
  "n < (32 :: nat) \<Longrightarrow> n \<in> {0, 1, 2, 3, 4, 5, 6, 7, 8, 9, 10, 11, 12, 13, 14, 15, 16, 17, 18, 19, 20, 21, 22,
     23, 24, 25, 26, 27, 28, 29, 30, 31}"
  by (simp only: insert_iff empty_iff) presburger

lemma ex_less30:
  "(\<exists>m < (30 :: nat). P m) \<longleftrightarrow> P 0 \<or> P 1 \<or> P 2 \<or> P 3 \<or> P 4 \<or> P 5 \<or> P 6 \<or> P 7 \<or> P 8 \<or> P 9 \<or> P 10 \<or> P 11 \<or>
     P 12 \<or> P 13 \<or> P 14 \<or> P 15 \<or> P 16 \<or> P 17 \<or> P 18 \<or> P 19 \<or> P 20 \<or> P 21 \<or> P 22 \<or> P 23 \<or> P 24 \<or> P 25 \<or>
     P 26 \<or> P 27 \<or> P 28 \<or> P 29"
proof -
  have "{..<30 :: nat} = {0, 1, 2, 3, 4, 5, 6, 7, 8, 9, 10, 11, 12, 13, 14, 15, 16, 17, 18, 19, 20, 21, 22, 23, 24,
      25, 26, 27, 28, 29}" (is "_ = ?A")
  proof (intro equalityI subsetI)
    fix n :: nat assume "n \<in> {..<30}"
    then show "n \<in> ?A" using less32_cases [of n] by auto
  qed auto
  then show ?thesis unfolding lessThan_iff [symmetric] by (simp only: bex_simps simp_thms Bex_def [symmetric])
qed

lemma mask_shapes:
  "(0xf :: u32) = mask 4" "(0xf0 :: u32) = push_bit 4 (mask 4)" "(0xff00 :: u32) = push_bit 8 (mask 8)"
  "(0xf000 :: u32) = push_bit 12 (mask 4)" "(0x3fffffff :: u32) = mask 30"
  by (simp_all add: mask_eq_exp_minus_1)

lemma puff_eq: "e < 16 \<Longrightarrow> puff ! unat e = e OR push_bit 4 e OR push_bit 8 (e :: u32)"
proof -
  assume "e < 16"
  then obtain k where k: "k < (16 :: nat)" "e = of_nat k"
    using that [of "unat e"] by (simp add: word_less_nat_alt)
  have "k \<in> {0, 1, 2, 3, 4, 5, 6, 7, 8, 9, 10, 11, 12, 13, 14, 15}" using less32_cases [of k] k(1) by auto
  then have "e \<in> {0, 1, 2, 3, 4, 5, 6, 7, 8, 9, 10, 11, 12, 13, 14, 15}"
    unfolding k(2) by (elim insertE emptyE) simp_all
  then show ?thesis by (elim insertE emptyE) (simp_all add: puff_def)
qed

lemma correct_bits:
  assumes "n < 32"
  shows "bit (correctIntRegMask x) n \<longleftrightarrow>
    n < 30 \<and> (bit x n \<or> n < 12 \<and> bit x (n mod 4 + 16) \<or> 12 \<le> n \<and> n < 16 \<and> bit x (n + 8))"
proof -
  have "drop_bit 16 y AND 0xf < 16" for y :: u32 by (rule le_less_trans [OF word_and_le1]) simp
  note eq = puff_eq [OF this]
  show ?thesis
    using less32_cases [OF assms]
    unfolding correctIntRegMask_def Let_def eq
    unfolding fullIntRegMask_def mask_shapes
    by (elim insertE emptyE) (simp_all add: bit_simps)
qed

lemma promote_bits:
  assumes "n < 32"
  shows "bit (promoteIntRegMask x) n \<longleftrightarrow> bit x n \<or> 8 \<le> n \<and> n < 12 \<and> (bit x (n - 4) \<or> bit x (n - 8)) \<or>
    16 \<le> n \<and> n < 20 \<and> (bit x (n - 8) \<or> bit x (n - 12) \<or> bit x (n - 16)) \<or> 20 \<le> n \<and> n < 24 \<and> bit x (n - 8)"
  using less32_cases [OF assms]
  unfolding promoteIntRegMask_def Let_def mask_shapes
  by (elim insertE emptyE) (simp_all add: bit_simps)

lemma close_bits: "bit (closeMask x) n \<longleftrightarrow> n < 30 \<and> (\<exists>m < 30. family m = family n \<and> bit x m)"
proof (cases "n < 32")
  case True
  show ?thesis
    using less32_cases [OF True]
    by (elim insertE emptyE; simp only: ex_less30; simp add: correct_bits promote_bits family_def; blast?)
next
  case False
  then show ?thesis by (auto dest: bit_imp_le_length)
qed

section \<open>Register sets as sets of bits\<close>

datatype reg_bit = IntBit nat | FloatBit nat | MiscBit nat

fun rs_mem :: "x86_reg_set \<Rightarrow> reg_bit \<Rightarrow> bool" where
  "rs_mem s (IntBit i) = bit (int_bits s) i"
| "rs_mem s (FloatBit i) = bit (float_bits s) i"
| "rs_mem s (MiscBit i) = bit (misc_stuff s) i"

definition reg_bits :: "reg_bit set" where
  "reg_bits = IntBit ` {..<32} \<union> FloatBit ` {..<64} \<union> MiscBit ` {29..<32}"

definition rs_ok :: "x86_reg_set \<Rightarrow> bool" where
  "rs_ok s \<longleftrightarrow> clear_padding (misc_stuff s) = misc_stuff s"

text \<open>
  The interface the dataflow functions rely on: union, intersection and complement within a finite
  universe of bits, on representations that are determined by their bits.
\<close>

locale reg_sets =
  fixes U :: "'b set" and mem :: "'s \<Rightarrow> 'b \<Rightarrow> bool" and ok :: "'s \<Rightarrow> bool"
    and union :: "'s \<Rightarrow> 's \<Rightarrow> 's" and inter :: "'s \<Rightarrow> 's \<Rightarrow> 's" and compl :: "'s \<Rightarrow> 's"
  assumes finite_U: "finite U"
    and mem_U: "ok s \<Longrightarrow> mem s x \<Longrightarrow> x \<in> U"
    and mem_union: "mem (union s t) x \<longleftrightarrow> mem s x \<or> mem t x"
    and mem_inter: "mem (inter s t) x \<longleftrightarrow> mem s x \<and> mem t x"
    and mem_compl: "mem (compl s) x \<longleftrightarrow> x \<in> U \<and> \<not> mem s x"
    and ok_union: "ok s \<Longrightarrow> ok t \<Longrightarrow> ok (union s t)"
    and ok_inter: "ok s \<Longrightarrow> ok t \<Longrightarrow> ok (inter s t)"
    and ok_compl: "ok (compl s)"
    and ext: "ok s \<Longrightarrow> ok t \<Longrightarrow> (\<And>x. mem s x \<longleftrightarrow> mem t x) \<Longrightarrow> s = t"
begin

lemmas mem_simps = mem_union mem_inter mem_compl

lemma double_compl: "ok s \<Longrightarrow> compl (compl s) = s"
  by (rule ext) (auto simp: mem_compl ok_compl dest: mem_U)

lemma de_morgan: "compl (union s t) = inter (compl s) (compl t)"
  by (rule ext) (auto simp: mem_simps ok_compl ok_inter)

end

lemma bit32: "bit (x :: u32) i \<Longrightarrow> i < 32"
  by (auto dest: bit_imp_le_length)

lemma bit_misc_mask: "bit (0xe0000000 :: u32) n \<longleftrightarrow> n = 29 \<or> n = 30 \<or> n = 31"
proof (cases "n < 32")
  case True
  have eq: "(0xe0000000 :: u32) = push_bit 29 (mask 3)" by (simp add: mask_eq_exp_minus_1)
  show ?thesis using True unfolding eq by (auto simp: bit_simps)
qed (auto dest: bit_imp_le_length)

lemma bit_clear_padding [rs_simps]: "bit (clear_padding m) n \<longleftrightarrow> bit m n \<and> 29 \<le> n"
  unfolding clear_padding_def bit_and_iff bit_misc_mask using bit32 [of m n] by auto

lemma rs_ok_bits: "rs_ok s \<longleftrightarrow> (\<forall>i. bit (misc_stuff s) i \<longrightarrow> 29 \<le> i)"
  unfolding rs_ok_def bit_eq_iff bit_clear_padding by (auto dest: bit32)

lemma clear_padding_ok [simp]: "rs_ok \<lparr>int_bits = i, float_bits = f, misc_stuff = clear_padding m\<rparr>"
  by (simp add: rs_ok_bits bit_clear_padding)

lemma finite_reg_bits [simp]: "finite reg_bits"
  by (simp add: reg_bits_def)

lemma reg_bits_iff [simp]:
  "IntBit i \<in> reg_bits \<longleftrightarrow> i < 32" "FloatBit i \<in> reg_bits \<longleftrightarrow> i < 64" "MiscBit i \<in> reg_bits \<longleftrightarrow> 29 \<le> i \<and> i < 32"
  by (auto simp: reg_bits_def)

interpretation xr: reg_sets reg_bits rs_mem rs_ok rs_or rs_and rs_not
proof
  fix s t :: x86_reg_set and x
  show "finite reg_bits" by simp
  show "rs_ok s \<Longrightarrow> rs_mem s x \<Longrightarrow> x \<in> reg_bits"
    by (cases x) (auto simp: rs_ok_bits dest: bit_imp_le_length)
  show "rs_mem (rs_or s t) x \<longleftrightarrow> rs_mem s x \<or> rs_mem t x" by (cases x) (simp_all add: rs_or_def bit_or_iff)
  show "rs_mem (rs_and s t) x \<longleftrightarrow> rs_mem s x \<and> rs_mem t x" by (cases x) (simp_all add: rs_and_def bit_and_iff)
  show "rs_mem (rs_not s) x \<longleftrightarrow> x \<in> reg_bits \<and> \<not> rs_mem s x"
    by (cases x) (auto simp: rs_not_def rs_raw_def bit_not_iff bit_clear_padding dest: bit_imp_le_length)
  show "rs_ok s \<Longrightarrow> rs_ok t \<Longrightarrow> rs_ok (rs_or s t)" by (auto simp: rs_ok_bits rs_or_def bit_or_iff)
  show "rs_ok s \<Longrightarrow> rs_ok t \<Longrightarrow> rs_ok (rs_and s t)" by (auto simp: rs_ok_bits rs_and_def bit_and_iff)
  show "rs_ok (rs_not s)" by (simp add: rs_not_def rs_raw_def)
  assume "rs_ok s" "rs_ok t" and eq: "\<And>x. rs_mem s x \<longleftrightarrow> rs_mem t x"
  have "int_bits s = int_bits t" using eq [of "IntBit _"] by (simp add: bit_eq_iff)
  moreover have "float_bits s = float_bits t" using eq [of "FloatBit _"] by (simp add: bit_eq_iff)
  moreover have "misc_stuff s = misc_stuff t" using eq [of "MiscBit _"] by (simp add: bit_eq_iff)
  ultimately show "s = t" by simp
qed

section \<open>Well-formed sets\<close>

text \<open>
  A set is well formed when its padding is clear and it contains, with an integer register, every
  register that overlaps it.
\<close>

definition rs_wf :: "x86_reg_set \<Rightarrow> bool" where
  "rs_wf s \<longleftrightarrow> rs_ok s \<and> closeMask (int_bits s) = int_bits s AND fullIntRegMask"

lemma bit_fullIntRegMask: "bit fullIntRegMask n \<longleftrightarrow> n < 30"
  unfolding fullIntRegMask_def mask_shapes by (auto simp: bit_simps)

lemma rs_wf_bits:
  "rs_wf s \<longleftrightarrow> rs_ok s \<and>
     (\<forall>m n. m < 30 \<longrightarrow> n < 30 \<longrightarrow> family m = family n \<longrightarrow> bit (int_bits s) m \<longrightarrow> bit (int_bits s) n)"
proof -
  have "closeMask x = x AND fullIntRegMask \<longleftrightarrow>
      (\<forall>m n. m < 30 \<longrightarrow> n < 30 \<longrightarrow> family m = family n \<longrightarrow> bit x m \<longrightarrow> bit x n)" for x
  proof -
    have "closeMask x = x AND fullIntRegMask \<longleftrightarrow> (\<forall>n. bit (closeMask x) n \<longleftrightarrow> bit (x AND fullIntRegMask) n)"
      by (metis bit_eqI)
    then show ?thesis unfolding close_bits bit_and_iff bit_fullIntRegMask by blast
  qed
  then show ?thesis unfolding rs_wf_def by simp
qed

lemma rs_wfD:
  assumes "rs_wf s"
  shows "rs_ok s" and "closeMask (int_bits s) = int_bits s AND fullIntRegMask"
  using assms by (simp_all add: rs_wf_def)

lemma rs_wf_bitD:
  assumes "rs_wf s" and "m < 30" and "n < 30" and "family m = family n"
  shows "bit (int_bits s) m \<longleftrightarrow> bit (int_bits s) n"
  using assms unfolding rs_wf_bits by metis

lemma rs_wfI:
  assumes "rs_ok s"
    and "\<And>m n. m < 30 \<Longrightarrow> n < 30 \<Longrightarrow> family m = family n \<Longrightarrow> bit (int_bits s) m \<longleftrightarrow> bit (int_bits s) n"
  shows "rs_wf s"
  using assms unfolding rs_wf_bits by blast

lemma wf_or:
  assumes "rs_wf s" and "rs_wf t"
  shows "rs_wf (rs_or s t)"
proof (rule rs_wfI)
  show "rs_ok (rs_or s t)" by (intro xr.ok_union rs_wfD(1) assms)
  fix m n assume "m < 30" "n < 30" "family m = family n"
  note rs_wf_bitD [OF assms(1) this] rs_wf_bitD [OF assms(2) this]
  then show "bit (int_bits (rs_or s t)) m \<longleftrightarrow> bit (int_bits (rs_or s t)) n" by (simp add: rs_or_def bit_or_iff)
qed

lemma wf_and:
  assumes "rs_wf s" and "rs_wf t"
  shows "rs_wf (rs_and s t)"
proof (rule rs_wfI)
  show "rs_ok (rs_and s t)" by (intro xr.ok_inter rs_wfD(1) assms)
  fix m n assume "m < 30" "n < 30" "family m = family n"
  note rs_wf_bitD [OF assms(1) this] rs_wf_bitD [OF assms(2) this]
  then show "bit (int_bits (rs_and s t)) m \<longleftrightarrow> bit (int_bits (rs_and s t)) n" by (simp add: rs_and_def bit_and_iff)
qed

lemma wf_not:
  assumes "rs_wf s"
  shows "rs_wf (rs_not s)"
proof (rule rs_wfI)
  show "rs_ok (rs_not s)" by (rule xr.ok_compl)
  fix m n assume mn: "m < 30" "n < 30" "family m = family n"
  show "bit (int_bits (rs_not s)) m \<longleftrightarrow> bit (int_bits (rs_not s)) n"
    using rs_wf_bitD [OF assms mn] mn(1,2) by (simp add: rs_not_def rs_raw_def bit_not_iff)
qed

lemma bit_diff [rs_simps]:
  "bit (diffIntRegMasks a b) n \<longleftrightarrow> bit (closeMask a) n \<and> \<not> bit (closeMask b) n"
  unfolding diffIntRegMasks_def bit_and_iff bit_not_iff by (auto dest: bit_imp_possible_bit)

lemma wf_minus: "rs_wf (rs_minus s t)"
proof -
  have "rs_ok (rs_minus s t)" by (simp add: rs_minus_def)
  moreover have "bit (int_bits (rs_minus s t)) n"
    if "m < 30" "n < 30" "family m = family n" "bit (int_bits (rs_minus s t)) m" for m n
    using that by (simp add: rs_minus_def bit_diff close_bits)
  ultimately show ?thesis unfolding rs_wf_bits by blast
qed

lemma rs_minus_mem:
  assumes "rs_wf s" and "rs_wf t" and "x \<noteq> IntBit 30" and "x \<noteq> IntBit 31"
  shows "rs_mem (rs_minus s t) x \<longleftrightarrow> rs_mem s x \<and> \<not> rs_mem t x"
proof (cases x)
  case (IntBit i)
  then show ?thesis
    using assms(3,4) bit32 [of "int_bits s" i]
    by (auto simp: rs_minus_def bit_diff rs_wfD(2) [OF assms(1)] rs_wfD(2) [OF assms(2)] bit_and_iff bit_fullIntRegMask)
next
  case (FloatBit i)
  then show ?thesis by (auto simp: rs_minus_def bit_and_iff bit_not_iff dest: bit_imp_possible_bit)
next
  case (MiscBit i)
  then show ?thesis
    using rs_wfD(1) [OF assms(1)]
    by (auto simp: rs_minus_def rs_ok_bits bit_clear_padding bit_and_iff bit_not_iff dest: bit_imp_possible_bit)
qed

lemma wf_closeMask: "rs_ok s \<Longrightarrow> int_bits s = closeMask x \<Longrightarrow> rs_wf s"
  by (auto simp: rs_wf_bits close_bits)

lemma rs_of_reg_int:
  assumes "isIntReg r"
  shows "rs_of_reg r = Some \<lparr>int_bits = closeMask (push_bit (unat (regnum r)) 1), float_bits = 0, misc_stuff = 0\<rparr>"
proof -
  have "regnum r < 30" "regnum r < 32" "regnum r \<noteq> 46"
    using assms by (auto simp: isIntReg_def max_int_reg_def word_less_nat_alt word_le_nat_alt)
  then show ?thesis
    using assms by (simp add: rs_of_reg_def isNullReg_def nullreg_def getIntNum_def singleIntRegMask_def shl32_def)
qed

lemma wf_of_reg: "rs_of_reg r = Some s \<Longrightarrow> rs_wf s"
proof (cases "isIntReg r")
  case True
  assume "rs_of_reg r = Some s"
  then show ?thesis using rs_of_reg_int [OF True] by (intro wf_closeMask [of s]) (auto simp: rs_ok_bits)
next
  case False
  assume "rs_of_reg r = Some s"
  moreover have "rs_wf (rs_empty\<lparr>misc_stuff := m\<rparr>)" if "clear_padding m = m" for m
    using that by (intro rs_wfI) (simp_all add: rs_ok_def rs_empty_def)
  moreover have "rs_wf rs_empty" by (intro rs_wfI) (simp_all add: rs_empty_def rs_ok_bits)
  ultimately show ?thesis
    using False by (auto simp: rs_of_reg_def clear_padding_def split: if_splits)
qed

lemma wf_empty [simp]: "rs_wf rs_empty"
  using wf_of_reg [of nullreg rs_empty] by (simp add: rs_of_reg_def isNullReg_def)

lemma wf_full [simp]: "rs_wf rs_full"
  by (intro rs_wfI) (simp_all add: rs_full_def bit_fullIntRegMask)

lemma wf_always_live: "rs_wf always_live_set"
  unfolding rs_wf_def by (simp add: always_live_set_def rs_raw_def correctIntRegMask_def promoteIntRegMask_def
      fullIntRegMask_def puff_def Let_def)

lemma promote_wf:
  assumes "rs_wf s"
  shows "promoteIntRegMask (int_bits s) = int_bits s"
proof (rule bit_word_eqI)
  let ?x = "int_bits s"
  fix n assume "n < LENGTH(32)"
  then have n: "n < 32" by simp
  have "bit ?x n" if "bit (promoteIntRegMask ?x) n" "n < 30"
  proof -
    have "bit (closeMask ?x) n" using that n by (simp add: correct_bits)
    then show ?thesis by (simp add: rs_wfD(2) [OF assms] bit_and_iff)
  qed
  then show "bit (promoteIntRegMask ?x) n \<longleftrightarrow> bit ?x n" using promote_bits [OF n, of ?x] by fastforce
qed

lemma word_0_bits: "w = 0 \<longleftrightarrow> (\<forall>n. \<not> bit (w :: 'a::len word) n)"
  by (metis bit_0_eq bit_eqI bot_apply bot_bool_def)

lemma exists_set_wf:
  assumes "rs_wf s"
  shows "rs_exists_set s t \<longleftrightarrow> (\<forall>x. rs_mem t x \<longrightarrow> rs_mem s x)"
proof -
  have w: "a AND NOT b = 0 \<longleftrightarrow> (\<forall>n. bit a n \<longrightarrow> bit b n)" for a b :: "'a::len word"
  proof -
    show ?thesis unfolding word_0_bits bit_and_iff bit_not_iff using bit_imp_possible_bit [of a] by blast
  qed
  have "rs_exists_set s t \<longleftrightarrow> (\<forall>n. bit (float_bits t) n \<longrightarrow> bit (float_bits s) n) \<and>
      (\<forall>n. bit (int_bits t) n \<longrightarrow> bit (int_bits s) n) \<and> (\<forall>n. bit (misc_stuff t) n \<longrightarrow> bit (misc_stuff s) n)"
    unfolding rs_exists_set_def promote_wf [OF assms] w by simp
  also have "\<dots> \<longleftrightarrow> (\<forall>x. rs_mem t x \<longrightarrow> rs_mem s x)"
    by (metis reg_bit.exhaust rs_mem.simps)
  finally show ?thesis .
qed

lemma of_reg_bits:
  assumes "isIntReg r" and "rs_of_reg r = Some u"
  shows "rs_mem u x \<longleftrightarrow> (\<exists>i. x = IntBit i \<and> i < 30 \<and> family i = family (unat (regnum r)))"
proof -
  have r: "unat (regnum r) < 30" using assms(1) by (simp add: isIntReg_def max_int_reg_def word_le_nat_alt)
  then have "bit (push_bit (unat (regnum r)) 1 :: u32) m \<longleftrightarrow> m = unat (regnum r)" for m
    by (auto simp: bit_simps)
  then show ?thesis
    using assms(2) rs_of_reg_int [OF assms(1)] r by (cases x) (auto simp: close_bits)
qed

lemma existsIntReg_eq: "n < 30 \<Longrightarrow> existsIntReg s n = Some (bit (int_bits s) (unat n))"
proof -
  assume n: "n < 30"
  have "int_bits s AND push_bit k 1 \<noteq> 0 \<longleftrightarrow> bit (int_bits s) k" for k
    by (simp add: and_exp_eq_0_iff_not_bit push_bit_eq_mult)
  then show ?thesis using n by (simp add: existsIntReg_def singleIntRegMask_def shl32_def word_less_nat_alt)
qed

section \<open>Iteration\<close>

definition member :: "x86_reg_set \<Rightarrow> nat \<Rightarrow> bool" where
  "member s k \<longleftrightarrow> k < 30 \<and> bit (int_bits s) k \<or> k = 30 \<and> ms_eflags s \<or> k = 31 \<and> ms_pc s"

lemma inSet_eq: "k < 47 \<Longrightarrow> inSet s (of_nat k) = Some (member s k)"
  by (auto simp: inSet_def member_def existsIntReg_eq word_less_nat_alt word_unat_eq_iff)

definition next_member :: "x86_reg_set \<Rightarrow> nat \<Rightarrow> nat" where
  "next_member s n = (case find (member s) [n..<47] of None \<Rightarrow> 47 | Some k \<Rightarrow> k)"

lemma next_member_simps:
  "n < 47 \<Longrightarrow> next_member s n = (if member s n then n else next_member s (Suc n))"
  "next_member s 47 = 47"
  by (simp_all add: next_member_def upt_conv_Cons)

lemma movetonext_loop_eq: "n < 47 \<Longrightarrow> movetonext_loop s (of_nat n) = Some (of_nat (next_member s (Suc n)))"
proof (induction "46 - n" arbitrary: n)
  case 0
  then have "n = 46" by simp
  then show ?case by (simp add: movetonext_loop.simps [of s] max_reg_num_def next_member_simps)
next
  case (Suc k)
  then have n: "Suc n < 47" by simp
  have "of_nat n + 1 = (of_nat (Suc n) :: u32)" by simp
  moreover have "(of_nat (Suc n) :: u32) \<le> max_reg_num" using n by (simp add: max_reg_num_def word_le_nat_alt del: of_nat_Suc)
  ultimately show ?case
    using Suc.hyps(1) [of "Suc n"] Suc.hyps(2) n inSet_eq [OF n, of s]
    by (simp add: movetonext_loop.simps [of s "of_nat n"] next_member_simps(1) [OF n] del: of_nat_Suc)
qed

lemma makeInSetOrEnd_eq: "n \<le> 47 \<Longrightarrow> makeInSetOrEnd s (of_nat n) = Some (of_nat (next_member s n))"
proof (cases "n = 47")
  case False
  assume "n \<le> 47"
  then have n: "n < 47" using False by simp
  then have "(of_nat n :: u32) \<le> max_reg_num" "(of_nat n :: u32) \<noteq> max_reg_num + 1"
    by (simp_all add: max_reg_num_def word_le_nat_alt word_unat_eq_iff)
  then show ?thesis
    using n by (simp add: makeInSetOrEnd_def movetonext_def inSet_eq movetonext_loop_eq next_member_simps(1))
qed (simp add: makeInSetOrEnd_def max_reg_num_def next_member_simps)

fun unwords :: "string list \<Rightarrow> string" where
  "unwords [] = ''''"
| "unwords [w] = w"
| "unwords (w # v # ws) = w @ '' '' @ unwords (v # ws)"

definition reg_name :: "nat \<Rightarrow> string" where
  "reg_name k = preDisassembledRegs ! k"

lemma regArray_eq: "regArray = map (\<lambda>i. \<lparr>regnum = of_nat i\<rparr>) ([0..<36] @ [37..<47])"
  by (simp add: regArray_def upt_conv_Cons)

text \<open>The array is one short: from CR3 on it gives the next register, and it has no entry for the last one.\<close>

lemma getRegByBit_eq:
  "b < 36 \<Longrightarrow> getRegByBit b = Some \<lparr>regnum = b\<rparr>"
  "36 \<le> b \<Longrightarrow> b < 46 \<Longrightarrow> getRegByBit b = Some \<lparr>regnum = b + 1\<rparr>"
  "getRegByBit 46 = None"
proof -
  show "getRegByBit b = Some \<lparr>regnum = b + 1\<rparr>" if b: "36 \<le> b" "b < 46"
  proof -
    obtain k where k: "unat b = 36 + k" "k < 10"
      using that [of "unat b - 36"] b by (simp add: word_less_nat_alt word_le_nat_alt)
    then have "b = of_nat (36 + k)" by (metis word_unat_eq_iff unat_of_nat32 k(1) unat_less32)
    then show ?thesis
      using k by (simp add: getRegByBit_def max_reg_num_def regArray_eq nth_append word_le_nat_alt del: upt_rec_numeral)
  qed
qed (simp_all add: getRegByBit_def max_reg_num_def regArray_eq nth_append word_less_nat_alt word_le_nat_alt
      del: upt_rec_numeral)

lemma member_disass:
  assumes "member s k"
  shows "getRegByBit (of_nat k) = Some \<lparr>regnum = of_nat k\<rparr>" and "reg_disass \<lparr>regnum = of_nat k\<rparr> = Some (reg_name k)"
proof -
  have "k < 32" using assms by (auto simp: member_def)
  then show "getRegByBit (of_nat k) = Some \<lparr>regnum = of_nat k\<rparr>" "reg_disass \<lparr>regnum = of_nat k\<rparr> = Some (reg_name k)"
    using getRegByBit_eq(1) [of "of_nat k"]
    by (simp_all add: word_less_nat_alt reg_disass_def max_reg_num_def word_le_nat_alt reg_name_def)
qed

lemma next_member_cases:
  assumes "n \<le> 47"
  obtains (none) "next_member s n = 47" | (some) "n \<le> next_member s n" "next_member s n < 47" "member s (next_member s n)"
  by (cases "find (member s) [n..<47]") (auto simp: next_member_def dest!: find_SomeD)

lemma members_from:
  "n \<le> 47 \<Longrightarrow> filter (member s) [n..<47] =
     (if next_member s n = 47 then [] else next_member s n # filter (member s) [Suc (next_member s n)..<47])"
proof (induction "47 - n" arbitrary: n)
  case (Suc d)
  then have "n < 47" by simp
  then show ?case using Suc.hyps(1) [of "Suc n"] Suc.hyps(2) by (auto simp: upt_conv_Cons next_member_simps(1))
qed (simp add: next_member_simps)

lemma disassx_loop_eq:
  assumes "start \<le> 47"
  shows "n \<le> 47 \<Longrightarrow> disassx_loop s (of_nat start) 47 (of_nat (next_member s n)) acc =
     Some (acc @ concat (map (\<lambda>k. (if k \<noteq> start then '' '' else '''') @ reg_name k) (filter (member s) [n..<47])))"
proof (induction "47 - n" arbitrary: n acc rule: less_induct)
  case less
  let ?k = "next_member s n"
  from less.prems show ?case
  proof (cases rule: next_member_cases [of n s])
    case none
    then show ?thesis using members_from [OF less.prems, of s] by (simp add: disassx_loop.simps)
  next
    case some
    have eqs: "(of_nat ?k :: u32) \<noteq> 47" "of_nat ?k = (of_nat start :: u32) \<longleftrightarrow> ?k = start" "(of_nat ?k :: u32) \<le> max_reg_num"
      using some(2) assms by (simp_all add: word_unat_eq_iff max_reg_num_def word_le_nat_alt)
    have "47 - Suc ?k < 47 - n" using some(1,2) by simp
    then show ?thesis
      using less.hyps [of "Suc ?k"] some members_from [OF less.prems, of s] eqs
      by (simp add: disassx_loop.simps [of s _ _ "of_nat ?k"] member_disass movetonext_def movetonext_loop_eq)
  qed
qed

lemma unwords_eq: "start \<notin> set ks \<Longrightarrow> concat (map (\<lambda>k. (if k \<noteq> start then '' '' else '''') @ reg_name k) (start # ks)) =
  unwords (map reg_name (start # ks))"
proof (induction ks arbitrary: start)
  case (Cons k ks)
  have "concat (map (\<lambda>k. (if k \<noteq> start then '' '' else '''') @ reg_name k) js) = concat (map (\<lambda>k. '' '' @ reg_name k) js)"
    if "start \<notin> set js" for js start using that by (induction js) auto
  note eq = this [OF Cons.prems]
  have "unwords (reg_name j # map reg_name js) = reg_name j @ concat (map (\<lambda>k. '' '' @ reg_name k) js)" for j js
    by (induction js arbitrary: j) simp_all
  then show ?case using eq by simp
qed simp

lemma disassx_eq: "disassx s = Some (unwords (map reg_name (filter (member s) [0..<47])))"
proof -
  let ?k = "next_member s 0"
  have "rs_begin s = Some (of_nat ?k)" "rs_end s = Some 47"
    using makeInSetOrEnd_eq [of 0 s] makeInSetOrEnd_eq [of 47 s]
    by (simp_all add: rs_begin_def rs_end_def max_reg_num_def next_member_simps)
  moreover have "?k \<le> 47" by (cases rule: next_member_cases [of 0 s]) auto
  ultimately have "disassx s =
      Some (concat (map (\<lambda>k. (if k \<noteq> ?k then '' '' else '''') @ reg_name k) (filter (member s) [0..<47])))"
    using disassx_loop_eq [of ?k 0 s] by (simp add: disassx_def)
  also have "concat (map (\<lambda>k. (if k \<noteq> ?k then '' '' else '''') @ reg_name k) (filter (member s) [0..<47])) =
      unwords (map reg_name (filter (member s) [0..<47]))"
  proof (cases "?k = 47")
    case False
    have "?k \<notin> set (filter (member s) [Suc ?k..<47])" by simp
    from unwords_eq [OF this] show ?thesis using members_from [of 0 s] False by simp
  qed (simp add: members_from [of 0 s])
  finally show ?thesis .
qed

section \<open>Properties\<close>




text \<open>
  The set that stands for an integer register never compares equal to that register, although the
  comparison is documented as the test for a set of just that register; and asking whether a set
  contains a segment register aborts, although every well-formed set can hold one.
\<close>

theorem set_of_register_differs:
  assumes "isIntReg r" and "rs_of_reg r = Some u"
  shows "rs_eq_reg u r = Some False \<and> (\<forall>s q. isSegReg q \<longrightarrow> rs_exists s q = None \<and> rs_of_reg q = Some rs_empty)"
proof (intro conjI allI impI)
  let ?n = "unat (regnum r)"
  have n: "?n < 24" "regnum r < 30" "regnum r < 32"
    using assms(1) by (auto simp: isIntReg_def max_int_reg_def word_le_nat_alt word_less_nat_alt)
  have u: "u = \<lparr>int_bits = closeMask (push_bit ?n 1), float_bits = 0, misc_stuff = 0\<rparr>"
    using rs_of_reg_int [OF assms(1)] assms(2) by simp
  have self: "bit (int_bits u) ?n"
    using of_reg_bits [OF assms, of "IntBit ?n"] n(1) by simp
  have "\<exists>i. i \<noteq> ?n \<and> i < 30 \<and> family i = family ?n"
    using less32_cases [of ?n] n(1)
    by (intro exI [of _ "if ?n < 8 then ?n + 8 - 4 * (?n div 4) else if ?n < 16 then ?n + 8 else ?n - 8"])
      (auto simp: family_def)
  then obtain i where i: "i \<noteq> ?n" "bit (int_bits u) i"
    using of_reg_bits [OF assms, of "IntBit _"] by auto
  have "\<not> bit (push_bit ?n (1 :: u32)) i" using i(1) by (auto simp: bit_simps)
  then have "push_bit ?n 1 \<noteq> int_bits u" using i(2) by metis
  moreover have "int_bits u \<noteq> 0" using self by auto
  ultimately show "rs_eq_reg u r = Some False"
    using assms(1) n by (simp add: rs_eq_reg_def getIntNum_def singleIntRegMask_def shl32_def u)
next
  fix s q assume "isSegReg q"
  then show "rs_exists s q = None" "rs_of_reg q = Some rs_empty"
    by (auto simp: isSegReg_def rs_exists_def rs_of_reg_def isIntReg_def isFloatReg_def isPC_def isEFLAGS_def isFP_def
        isNullReg_def EFLAGS_def PC_def FP_def nullreg_def max_int_reg_def min_seg_reg_def max_seg_reg_def word_le_nat_alt)
qed

theorem set_of_register_differs_witness:
  "\<exists>u. rs_of_reg \<lparr>regnum = 16\<rparr> = Some u \<and> rs_eq_reg u \<lparr>regnum = 16\<rparr> = Some False"
proof -
  have r: "isIntReg \<lparr>regnum = 16\<rparr>" by (simp add: isIntReg_def max_int_reg_def)
  then obtain u where u: "rs_of_reg \<lparr>regnum = 16\<rparr> = Some u" using rs_of_reg_int by blast
  show ?thesis using set_of_register_differs [OF r u] u by blast
qed

end
