(* ===== verification/DataflowFn.thy ===== *)
theory DataflowFn
  imports X86RegSet
begin

text \<open>
  Monotone bitwise dataflow functions on register sets: the pairs of \<open>THRU\<close> and \<open>GEN\<close> sets of
  \<open>kerninstd/bitwise_dataflow_fn/src/mbdf_window.h\<close> and \<open>x86_mbdf_window.h\<close>, and the functions of
  \<open>x86_bitwise_dataflow_fn.h\<close> built on them. The function a pair stands for maps a set \<open>x\<close> to
  \<open>(x \<and> THRU) \<or> GEN\<close>. The methods that overwrite their object return the new one.
\<close>

named_theorems df_simps \<open>the sets of the dataflow functions\<close>

section \<open>Windows\<close>

record mbdf_window =
  thru :: x86_reg_set
  gen :: x86_reg_set

definition mbdf_window_new :: mbdf_window where
  "mbdf_window_new = \<lparr>thru = rs_empty, gen = rs_empty\<rparr>"

definition mbdf_window_bools :: "bool \<Rightarrow> bool \<Rightarrow> mbdf_window" where
  "mbdf_window_bools ithru iGenForAll =
     \<lparr>thru = (if ithru then rs_full else rs_empty), gen = (if iGenForAll then rs_full else rs_empty)\<rparr>"

definition mw_eq :: "mbdf_window \<Rightarrow> mbdf_window \<Rightarrow> bool" where
  "mw_eq w src = (rs_eq (thru w) (thru src) \<and> rs_eq (gen w) (gen src))"

definition setLevelTo :: "mbdf_window \<Rightarrow> x86_reg_set \<Rightarrow> x86_reg_set \<Rightarrow> mbdf_window" where
  "setLevelTo w new_thru new_gen = w\<lparr>thru := new_thru, gen := new_gen\<rparr>"

definition mw_apply :: "mbdf_window \<Rightarrow> x86_reg_set \<Rightarrow> x86_reg_set" where
  "mw_apply w x = rs_or (rs_and x (thru w)) (gen w)"

text \<open>The result overwrites the parameter \<open>g\<close>.\<close>

definition mw_compose_overwrite_param :: "mbdf_window \<Rightarrow> mbdf_window \<Rightarrow> mbdf_window" where
  "mw_compose_overwrite_param w g =
     (let g1 = g\<lparr>thru := rs_and (thru g) (thru w)\<rparr>;
          g2 = g1\<lparr>gen := rs_and (gen g1) (thru w)\<rparr>
      in g2\<lparr>gen := rs_or (gen g2) (gen w)\<rparr>)"

definition composeWith :: "mbdf_window \<Rightarrow> mbdf_window \<Rightarrow> mbdf_window" where
  "composeWith w g =
     (let w1 = w\<lparr>gen := rs_or (gen w) (rs_and (thru w) (gen g))\<rparr>
      in w1\<lparr>thru := rs_and (thru w1) (thru g)\<rparr>)"

definition mw_compose :: "mbdf_window \<Rightarrow> mbdf_window \<Rightarrow> mbdf_window" where
  "mw_compose w g = composeWith w g"

definition mw_mergeWith :: "mbdf_window \<Rightarrow> mbdf_window \<Rightarrow> bool \<Rightarrow> mbdf_window" where
  "mw_mergeWith w g mergeWithBitOr =
     (if mergeWithBitOr then
        (let w1 = w\<lparr>thru := rs_and (rs_and (rs_or (thru w) (thru g)) (rs_not (gen w))) (rs_not (gen g))\<rparr>
         in w1\<lparr>gen := rs_or (gen w1) (gen g)\<rparr>)
      else
        (let w1 = w\<lparr>thru := rs_or (rs_and (thru w) (rs_or (gen g) (thru g))) (rs_and (gen w) (thru g))\<rparr>
         in w1\<lparr>gen := rs_and (gen w1) (gen g)\<rparr>))"

definition mw_swapStartsAndStops :: "mbdf_window \<Rightarrow> mbdf_window" where
  "mw_swapStartsAndStops w = w\<lparr>gen := rs_and (rs_not (gen w)) (rs_not (thru w))\<rparr>"

definition mw_pass :: "mbdf_window \<Rightarrow> x86_reg \<Rightarrow> mbdf_window option" where
  "mw_pass w r = do {
     t \<leftarrow> rs_or_reg (thru w) r;
     g \<leftarrow> rs_minus_reg (gen w) r;
     Some (w\<lparr>thru := t, gen := g\<rparr>)
   }"

definition mw_passSet :: "mbdf_window \<Rightarrow> x86_reg_set \<Rightarrow> mbdf_window" where
  "mw_passSet w regs = w\<lparr>thru := rs_or (thru w) regs, gen := rs_minus (gen w) regs\<rparr>"

definition mw_start :: "mbdf_window \<Rightarrow> x86_reg \<Rightarrow> mbdf_window option" where
  "mw_start w r = do {
     t \<leftarrow> rs_minus_reg (thru w) r;
     g \<leftarrow> rs_or_reg (gen w) r;
     Some (w\<lparr>thru := t, gen := g\<rparr>)
   }"

definition mw_startSet :: "mbdf_window \<Rightarrow> x86_reg_set \<Rightarrow> mbdf_window" where
  "mw_startSet w regs = w\<lparr>thru := rs_minus (thru w) regs, gen := rs_or (gen w) regs\<rparr>"

definition mw_stop :: "mbdf_window \<Rightarrow> x86_reg \<Rightarrow> mbdf_window option" where
  "mw_stop w r = do {
     t \<leftarrow> rs_minus_reg (thru w) r;
     g \<leftarrow> rs_minus_reg (gen w) r;
     Some (w\<lparr>thru := t, gen := g\<rparr>)
   }"

definition mw_stopSet :: "mbdf_window \<Rightarrow> x86_reg_set \<Rightarrow> mbdf_window" where
  "mw_stopSet w regs = w\<lparr>thru := rs_minus (thru w) regs, gen := rs_minus (gen w) regs\<rparr>"

definition getFnForReg :: "mbdf_window \<Rightarrow> x86_reg \<Rightarrow> (bool \<times> bool) option" where
  "getFnForReg w r = do { t \<leftarrow> rs_exists (thru w) r; g \<leftarrow> rs_exists (gen w) r; Some (t, g) }"

definition getStarts :: "mbdf_window \<Rightarrow> x86_reg_set" where
  "getStarts w = rs_and (rs_not (thru w)) (gen w)"

definition getStops :: "mbdf_window \<Rightarrow> x86_reg_set" where
  "getStops w = rs_and (rs_not (thru w)) (rs_not (gen w))"

section \<open>Dataflow functions\<close>

datatype mbdf_functions = fnpass | fnstart | fnstop
datatype mergeoperators = mergeopBitwiseAnd | mergeopBitwiseOr

record dataflow_fn =
  df_data :: mbdf_window
  Dummy :: bool

definition df_of_window :: "mbdf_window \<Rightarrow> dataflow_fn" where
  "df_of_window w = \<lparr>df_data = w, Dummy = False\<rparr>"

definition passAllRegs :: dataflow_fn where "passAllRegs = df_of_window (mbdf_window_bools True False)"
definition startAllRegs :: dataflow_fn where "startAllRegs = df_of_window (mbdf_window_bools False True)"
definition stopAllRegs :: dataflow_fn where "stopAllRegs = df_of_window (mbdf_window_bools False False)"
definition dummy_fn :: dataflow_fn where "dummy_fn = \<lparr>df_data = mbdf_window_new, Dummy = True\<rparr>"

definition df_of_fn :: "mbdf_functions \<Rightarrow> dataflow_fn" where
  "df_of_fn iFn = df_of_window (if iFn = fnpass then df_data passAllRegs
     else if iFn = fnstart then df_data startAllRegs else df_data stopAllRegs)"

definition df_eq :: "dataflow_fn \<Rightarrow> dataflow_fn \<Rightarrow> bool" where
  "df_eq f cmp = mw_eq (df_data f) (df_data cmp)"

definition df_apply :: "dataflow_fn \<Rightarrow> x86_reg_set \<Rightarrow> x86_reg_set" where
  "df_apply f x = mw_apply (df_data f) x"

definition df_compose :: "dataflow_fn \<Rightarrow> dataflow_fn \<Rightarrow> dataflow_fn" where
  "df_compose f g = df_of_window (mw_compose (df_data f) (df_data g))"

definition df_compose_overwrite_param :: "dataflow_fn \<Rightarrow> dataflow_fn \<Rightarrow> dataflow_fn" where
  "df_compose_overwrite_param f g = g\<lparr>df_data := mw_compose_overwrite_param (df_data f) (df_data g)\<rparr>"

definition df_mergeWith :: "dataflow_fn \<Rightarrow> dataflow_fn \<Rightarrow> mergeoperators \<Rightarrow> dataflow_fn" where
  "df_mergeWith f g mergeop = f\<lparr>df_data := mw_mergeWith (df_data f) (df_data g) (mergeop = mergeopBitwiseOr)\<rparr>"

definition df_merge :: "dataflow_fn \<Rightarrow> dataflow_fn \<Rightarrow> mergeoperators \<Rightarrow> dataflow_fn" where
  "df_merge f g mergeop = df_mergeWith f g mergeop"

definition df_passSet :: "dataflow_fn \<Rightarrow> x86_reg_set \<Rightarrow> dataflow_fn" where
  "df_passSet f regs = f\<lparr>df_data := mw_passSet (df_data f) regs\<rparr>"

definition df_startSet :: "dataflow_fn \<Rightarrow> x86_reg_set \<Rightarrow> dataflow_fn" where
  "df_startSet f regs = f\<lparr>df_data := mw_startSet (df_data f) regs\<rparr>"

definition df_stopSet :: "dataflow_fn \<Rightarrow> x86_reg_set \<Rightarrow> dataflow_fn" where
  "df_stopSet f regs = f\<lparr>df_data := mw_stopSet (df_data f) regs\<rparr>"

definition df_swapStartsAndStops :: "dataflow_fn \<Rightarrow> dataflow_fn" where
  "df_swapStartsAndStops f = f\<lparr>df_data := mw_swapStartsAndStops (df_data f)\<rparr>"

definition getNumSavedWindows :: "dataflow_fn \<Rightarrow> nat" where "getNumSavedWindows f = 0"
definition getNumLevels :: "dataflow_fn \<Rightarrow> nat" where "getNumLevels f = 1"
definition getNumPreSaveFramesManufactured :: "dataflow_fn \<Rightarrow> nat" where
  "getNumPreSaveFramesManufactured f = 0"

definition getStartsAndStopsForLevel :: "dataflow_fn \<Rightarrow> nat \<Rightarrow> (x86_reg_set \<times> x86_reg_set) option" where
  "getStartsAndStopsForLevel f level = do {
     assert (level = 0);
     Some (getStarts (df_data f), getStops (df_data f))
   }"

definition getFnForRegSavedLevel :: "dataflow_fn \<Rightarrow> x86_reg \<Rightarrow> nat \<Rightarrow> mbdf_functions option" where
  "getFnForRegSavedLevel f r howFarBack = do {
     assert (howFarBack = 0);
     (iThruBit, iGenBit) \<leftarrow> getFnForReg (df_data f) r;
     Some (if iThruBit then fnpass else if iGenBit then fnstart else fnstop)
   }"

definition setEachLevelTo :: "dataflow_fn \<Rightarrow> x86_reg_set \<Rightarrow> x86_reg_set \<Rightarrow> dataflow_fn" where
  "setEachLevelTo f new_thru new_gen = f\<lparr>df_data := setLevelTo (df_data f) new_thru new_gen\<rparr>"

section \<open>What the windows compute\<close>

text \<open>Facts on \<open>THRU\<close> and \<open>GEN\<close> over any implementation of register sets.\<close>

context reg_sets
begin

lemmas ok_simps = ok_union ok_inter ok_compl

lemma compose_law:
  assumes "ok x" "ok ft" "ok fg" "ok gt" "ok gg"
  shows "union (inter x (inter gt ft)) (union (inter gg ft) fg) = union (inter (union (inter x gt) gg) ft) fg"
  by (rule ext) (use assms in \<open>auto simp: mem_simps ok_simps\<close>)

lemma merge_or_law:
  assumes "ok x" "ok ft" "ok fg" "ok gt" "ok gg"
  shows "union (inter x (inter (inter (union ft gt) (compl fg)) (compl gg))) (union fg gg) =
    union (union (inter x ft) fg) (union (inter x gt) gg)"
  by (rule ext) (use assms mem_U [OF assms(1)] in \<open>auto simp: mem_simps ok_simps\<close>)

lemma merge_and_law:
  assumes "ok x" "ok ft" "ok fg" "ok gt" "ok gg"
  shows "union (inter x (union (inter ft (union gg gt)) (inter fg gt))) (inter fg gg) =
    inter (union (inter x ft) fg) (union (inter x gt) gg)"
  by (rule ext) (use assms in \<open>auto simp: mem_simps ok_simps\<close>)

lemma thru_gen_determined:
  assumes ok: "ok ft" "ok fg" "ok gt" "ok gg"
    and nf: "\<And>x. \<not> (mem ft x \<and> mem fg x)" "\<And>x. \<not> (mem gt x \<and> mem gg x)"
    and same: "\<And>x. ok x \<Longrightarrow> union (inter x ft) fg = union (inter x gt) gg"
  shows "ft = gt" and "fg = gg"
proof -
  define none where "none = inter ft (compl ft)"
  have none: "ok none" "\<not> mem none x" for x by (simp_all add: none_def ok ok_simps mem_simps)
  have "mem (union (inter none ft) fg) x \<longleftrightarrow> mem (union (inter none gt) gg) x" for x
    using same [OF none(1)] by simp
  then have g: "mem fg x \<longleftrightarrow> mem gg x" for x using none(2) by (simp add: mem_simps)
  then show "fg = gg" by (intro ext) (simp_all add: ok)
  have all: "ok (compl none)" by (rule ok_compl)
  have "mem (union (inter (compl none) ft) fg) x \<longleftrightarrow> mem (union (inter (compl none) gt) gg) x" for x
    using same [OF all] by simp
  then have "mem ft x \<or> mem fg x \<longleftrightarrow> mem gt x \<or> mem gg x" for x
    using none(2) mem_U [OF ok(1)] mem_U [OF ok(3)] unfolding mem_simps by blast
  then have "mem ft x \<longleftrightarrow> mem gt x" for x using nf g by blast
  then show "ft = gt" by (intro ext) (simp_all add: ok)
qed

end

definition mw_ok :: "mbdf_window \<Rightarrow> bool" where
  "mw_ok w \<longleftrightarrow> rs_ok (thru w) \<and> rs_ok (gen w)"

text \<open>
  Normal form: no register is both passed and started. The methods keep it, and it makes the
  representation of a function unique.
\<close>

definition mw_normal :: "mbdf_window \<Rightarrow> bool" where
  "mw_normal w \<longleftrightarrow> mw_ok w \<and> rs_isempty (rs_and (thru w) (gen w))"

definition mw_wf :: "mbdf_window \<Rightarrow> bool" where
  "mw_wf w \<longleftrightarrow> mw_normal w \<and> rs_wf (thru w) \<and> rs_wf (gen w)"

lemma rs_isempty_mem: "rs_isempty s \<longleftrightarrow> (\<forall>x. \<not> rs_mem s x)"
proof -
  have "rs_isempty s \<longleftrightarrow> (\<forall>n. \<not> bit (int_bits s) n) \<and> (\<forall>n. \<not> bit (float_bits s) n) \<and> (\<forall>n. \<not> bit (misc_stuff s) n)"
    unfolding rs_isempty_def word_0_bits by blast
  also have "\<dots> \<longleftrightarrow> (\<forall>x. \<not> rs_mem s x)" by (metis reg_bit.exhaust rs_mem.simps)
  finally show ?thesis .
qed

lemma mw_normal_mem: "mw_normal w \<longleftrightarrow> mw_ok w \<and> (\<forall>x. \<not> (rs_mem (thru w) x \<and> rs_mem (gen w) x))"
  by (simp add: mw_normal_def rs_isempty_mem xr.mem_inter)

lemma rs_eq_iff: "rs_eq s t \<longleftrightarrow> s = t"
  by (auto simp: rs_eq_def)

lemma mw_eq_iff: "mw_eq f g \<longleftrightarrow> f = g"
  by (auto simp: mw_eq_def rs_eq_iff)

lemma mw_okD: "mw_ok w \<Longrightarrow> rs_ok (thru w)" "mw_ok w \<Longrightarrow> rs_ok (gen w)"
  by (simp_all add: mw_ok_def)

lemma mw_sets [df_simps]:
  "thru (mw_compose f g) = rs_and (thru f) (thru g)"
  "gen (mw_compose f g) = rs_or (gen f) (rs_and (thru f) (gen g))"
  "thru (mw_compose_overwrite_param f g) = rs_and (thru g) (thru f)"
  "gen (mw_compose_overwrite_param f g) = rs_or (rs_and (gen g) (thru f)) (gen f)"
  "thru (mw_mergeWith f g True) = rs_and (rs_and (rs_or (thru f) (thru g)) (rs_not (gen f))) (rs_not (gen g))"
  "gen (mw_mergeWith f g True) = rs_or (gen f) (gen g)"
  "thru (mw_mergeWith f g False) = rs_or (rs_and (thru f) (rs_or (gen g) (thru g))) (rs_and (gen f) (thru g))"
  "gen (mw_mergeWith f g False) = rs_and (gen f) (gen g)"
  by (simp_all add: mw_compose_def composeWith_def mw_compose_overwrite_param_def mw_mergeWith_def Let_def)

lemmas mem_laws = xr.mem_union xr.mem_inter xr.mem_compl
lemmas ok_laws = xr.ok_union xr.ok_inter xr.ok_compl

lemma mw_ok_ops:
  "mw_ok f \<Longrightarrow> mw_ok g \<Longrightarrow> mw_ok (mw_compose f g)"
  "mw_ok f \<Longrightarrow> mw_ok g \<Longrightarrow> mw_ok (mw_compose_overwrite_param f g)"
  "mw_ok f \<Longrightarrow> mw_ok g \<Longrightarrow> mw_ok (mw_mergeWith f g b)"
  by (cases b; simp add: mw_ok_def df_simps ok_laws)+

lemma mw_normal_ops:
  assumes "mw_normal f" and "mw_normal g"
  shows "mw_normal (mw_compose f g)" and "mw_normal (mw_compose_overwrite_param f g)"
    and "mw_normal (mw_mergeWith f g b)"
  using assms
  by (cases b; auto simp: mw_normal_mem mw_ok_ops df_simps mem_laws)+

lemma compose_variants: "mw_ok f \<Longrightarrow> mw_ok g \<Longrightarrow> mw_compose_overwrite_param f g = mw_compose f g"
proof -
  assume "mw_ok f" "mw_ok g"
  note ok = this [THEN mw_okD(1)] this [THEN mw_okD(2)]
  have "thru (mw_compose_overwrite_param f g) = thru (mw_compose f g)"
    by (rule xr.ext) (auto simp: df_simps mem_laws ok_laws ok)
  moreover have "gen (mw_compose_overwrite_param f g) = gen (mw_compose f g)"
    by (rule xr.ext) (auto simp: df_simps mem_laws ok_laws ok)
  ultimately show ?thesis by simp
qed

lemma apply_compose:
  assumes "mw_ok f" and "mw_ok g" and "rs_ok x"
  shows "mw_apply (mw_compose f g) x = mw_apply f (mw_apply g x)"
  unfolding compose_variants [OF assms(1,2), symmetric] mw_apply_def mw_sets
  by (rule xr.compose_law) (use assms in \<open>simp_all add: mw_okD\<close>)

lemma apply_merge:
  assumes "mw_ok f" and "mw_ok g" and "rs_ok x"
  shows "mw_apply (mw_mergeWith f g True) x = rs_or (mw_apply f x) (mw_apply g x)"
    and "mw_apply (mw_mergeWith f g False) x = rs_and (mw_apply f x) (mw_apply g x)"
  unfolding mw_apply_def mw_sets
  by (rule xr.merge_or_law xr.merge_and_law; use assms in \<open>simp_all add: mw_okD\<close>)+

section \<open>Starting, stopping and passing registers\<close>

lemma mw_wfD:
  assumes "mw_wf w"
  shows "rs_wf (thru w)" "rs_wf (gen w)" "mw_ok w" "mw_normal w" "\<not> (rs_mem (thru w) x \<and> rs_mem (gen w) x)"
  using assms by (auto simp: mw_wf_def mw_normal_mem)

lemma mw_wfI:
  assumes "rs_wf (thru w)" and "rs_wf (gen w)" and "\<And>x. rs_mem (thru w) x \<Longrightarrow> rs_mem (gen w) x \<Longrightarrow> False"
  shows "mw_wf w"
  using assms by (auto simp: mw_wf_def mw_normal_mem mw_ok_def rs_wfD(1))

lemma rs_minus_not_30: "rs_mem (rs_minus s t) x \<Longrightarrow> x \<noteq> IntBit 30 \<and> x \<noteq> IntBit 31"
  by (auto simp: rs_minus_def bit_diff close_bits)

lemma rs_minus_iff:
  assumes "rs_wf s" and "rs_wf t"
  shows "rs_mem (rs_minus s t) x \<longleftrightarrow> x \<notin> {IntBit 30, IntBit 31} \<and> rs_mem s x \<and> \<not> rs_mem t x"
  using rs_minus_mem [OF assms] rs_minus_not_30 [of s t x] by blast

lemmas wf_laws = wf_or wf_and wf_not wf_minus

lemma mw_wf_ops:
  assumes "mw_wf f" and "mw_wf g"
  shows "mw_wf (mw_compose f g)" and "mw_wf (mw_compose_overwrite_param f g)" and "mw_wf (mw_mergeWith f g b)"
proof -
  note wf = mw_wfD(1,2) [OF assms(1)] mw_wfD(1,2) [OF assms(2)]
  note nf = mw_normal_ops [OF mw_wfD(4) [OF assms(1)] mw_wfD(4) [OF assms(2)]]
  show "mw_wf (mw_compose f g)" "mw_wf (mw_compose_overwrite_param f g)" "mw_wf (mw_mergeWith f g b)"
    using nf by (cases b; simp add: mw_wf_def df_simps wf_laws wf)+
qed

lemma mw_wf_sets:
  assumes "mw_wf w" and "rs_wf regs"
  shows "mw_wf (mw_startSet w regs)" and "mw_wf (mw_stopSet w regs)" and "mw_wf (mw_passSet w regs)"
proof -
  note wf = mw_wfD(1,2) [OF assms(1)] assms(2)
  note [simp] = rs_minus_iff [OF wf(1,3)] rs_minus_iff [OF wf(2,3)]
  show "mw_wf (mw_startSet w regs)" "mw_wf (mw_stopSet w regs)" "mw_wf (mw_passSet w regs)"
    using mw_wfD(5) [OF assms(1)]
    by (intro mw_wfI; auto simp: mw_startSet_def mw_stopSet_def mw_passSet_def wf_laws wf mem_laws)+
qed

lemma mw_set_members:
  assumes "mw_wf w" and "rs_wf regs" and "x \<notin> {IntBit 30, IntBit 31}"
  shows "rs_mem (mw_apply (mw_startSet w regs) s) x \<longleftrightarrow> rs_mem regs x \<or> rs_mem (mw_apply w s) x"
    and "rs_mem (mw_apply (mw_stopSet w regs) s) x \<longleftrightarrow> \<not> rs_mem regs x \<and> rs_mem (mw_apply w s) x"
    and "rs_mem (mw_apply (mw_passSet w regs) s) x \<longleftrightarrow> (if rs_mem regs x then rs_mem s x else rs_mem (mw_apply w s) x)"
  using assms(3) rs_minus_iff [OF mw_wfD(1) [OF assms(1)] assms(2)] rs_minus_iff [OF mw_wfD(2) [OF assms(1)] assms(2)]
  by (auto simp: mw_apply_def mw_startSet_def mw_stopSet_def mw_passSet_def mem_laws)

section \<open>Properties\<close>

abbreviation df_wf :: "dataflow_fn \<Rightarrow> bool" where
  "df_wf f \<equiv> mw_wf (df_data f)"

lemma rs_mem_empty [simp]: "\<not> rs_mem rs_empty x"
  by (cases x) (simp_all add: rs_empty_def)

lemma df_wf_consts: "df_wf passAllRegs" "df_wf startAllRegs" "df_wf stopAllRegs"
  by (intro mw_wfI; simp add: passAllRegs_def startAllRegs_def stopAllRegs_def df_of_window_def mbdf_window_bools_def)+

lemma df_okD: "df_wf f \<Longrightarrow> mw_ok (df_data f)"
  by (rule mw_wfD(3))

text \<open>
  C13: Composing two dataflow functions composes the maps they stand for, whichever of the two
  routines is used, and merging them with \<open>or\<close> (\<open>and\<close>) gives the union (intersection) of their results;
  the results are well formed, with no register both passed and started.
\<close>

theorem dataflow_functions_compose_and_merge:
  assumes "df_wf f" and "df_wf g" and "rs_ok x"
  shows "df_apply (df_compose f g) x = df_apply f (df_apply g x) \<and>
    df_apply (df_compose_overwrite_param f g) x = df_apply f (df_apply g x) \<and>
    df_apply (df_merge f g mergeopBitwiseOr) x = rs_or (df_apply f x) (df_apply g x) \<and>
    df_apply (df_merge f g mergeopBitwiseAnd) x = rs_and (df_apply f x) (df_apply g x) \<and>
    df_wf (df_compose f g) \<and> df_wf (df_compose_overwrite_param f g) \<and> df_wf (df_merge f g mop)"
  using apply_compose [OF df_okD [OF assms(1)] df_okD [OF assms(2)] assms(3)]
    apply_merge [OF df_okD [OF assms(1)] df_okD [OF assms(2)] assms(3)]
    compose_variants [OF df_okD [OF assms(1)] df_okD [OF assms(2)]] mw_wf_ops [OF assms(1,2)]
  by (simp add: df_apply_def df_compose_def df_compose_overwrite_param_def df_merge_def df_mergeWith_def df_of_window_def)

theorem dataflow_functions_compose_and_merge_witness:
  "df_apply (df_compose startAllRegs stopAllRegs) rs_full = df_apply startAllRegs (df_apply stopAllRegs rs_full)"
proof -
  have "rs_ok rs_full" by (simp add: rs_full_def)
  then show ?thesis
    using dataflow_functions_compose_and_merge [OF df_wf_consts(2,3), of rs_full] by blast
qed

text \<open>
  Comparing two well-formed dataflow functions bit by bit decides whether they are the same map.
\<close>

theorem dataflow_equality:
  assumes "df_wf f" and "df_wf g"
  shows "df_eq f g = (\<forall>x. rs_ok x \<longrightarrow> df_apply f x = df_apply g x)"
proof
  assume "df_eq f g"
  then show "\<forall>x. rs_ok x \<longrightarrow> df_apply f x = df_apply g x" by (simp add: df_eq_def mw_eq_iff df_apply_def)
next
  assume same: "\<forall>x. rs_ok x \<longrightarrow> df_apply f x = df_apply g x"
  note d = xr.thru_gen_determined [OF mw_okD(1) [OF df_okD [OF assms(1)]] mw_okD(2) [OF df_okD [OF assms(1)]]
      mw_okD(1) [OF df_okD [OF assms(2)]] mw_okD(2) [OF df_okD [OF assms(2)]] mw_wfD(5) [OF assms(1)] mw_wfD(5) [OF assms(2)]]
  have "rs_or (rs_and x (thru (df_data f))) (gen (df_data f)) = rs_or (rs_and x (thru (df_data g))) (gen (df_data g))"
    if "rs_ok x" for x using same that by (simp add: df_apply_def mw_apply_def)
  from d [OF this] show "df_eq f g" by (simp add: df_eq_def mw_eq_iff)
qed

theorem dataflow_equality_witness:
  "\<exists>x. rs_ok x \<and> df_apply startAllRegs x \<noteq> df_apply stopAllRegs x"
proof -
  have "\<not> df_eq startAllRegs stopAllRegs"
    by (simp add: df_eq_def mw_eq_def startAllRegs_def stopAllRegs_def df_of_window_def mbdf_window_bools_def
        rs_eq_def rs_full_def rs_empty_def fullIntRegMask_def)
  then show ?thesis using dataflow_equality [OF df_wf_consts(2,3)] by blast
qed

end
