(* ===== verification/FnCode.thy ===== *)
theory FnCode
  imports DataflowFn
begin

text \<open>
  The code of a function as the i386 daemon keeps it: vectors of decoded instructions
  (\<open>kerninstd/insnVec/src/insnVec.C\<close>, \<open>x86_insnVec.C\<close>) and the chunks of them that make up a function
  (\<open>kerninstd/function/src/fnCode.C\<close>). Instructions are what their accessors return; the decoder, which
  turns the bytes at an address into an instruction, is a parameter. Byte counts and addresses are
  32-bit words.
\<close>

section \<open>Instructions\<close>

record registerUsage =
  definitelyUsedBeforeWritten :: x86_reg_set
  maybeUsedBeforeWritten :: x86_reg_set
  definitelyWritten :: x86_reg_set
  maybeWritten :: x86_reg_set

datatype desttype = dstUndefined | pcRelative | regRelative | dstDoubleReg | memIndirect | dstAbsolute

datatype addrtype = addrUndefined | absoluteAddr | relativeOffset | singleReg | singleRegPlusOffset |
  scaledSingleRegPlusOffset | addrDoubleReg | doubleRegPlusOffset | scaledDoubleRegPlusOffset

text \<open>An address operand by its type and offset; its registers and scale are not read here.\<close>

record insn_address =
  getType :: addrtype
  getOffset :: u32

text \<open>The fields of \<open>controlFlowInfo\<close> and of its i386 extension \<open>x86_cfi\<close>.\<close>

record controlFlowInfo =
  controlFlowInstruction :: bool
  isCall :: bool
  isRet :: bool
  isBranch :: bool
  isConditional :: bool
  isAlways :: bool
  cfi_condition :: u32
  destination :: desttype
  offset_nbytes :: u32
  memaddr :: insn_address
  isInt :: bool
  isUd2 :: bool
  farSegment :: u16

record x86_instr =
  getNumBytes :: u32
  getRawBytes :: "u8 list"
  getRegisterUsage :: registerUsage
  getControlFlowInfo :: controlFlowInfo
  isBranchToFixedAddress :: "kptr \<Rightarrow> kptr option"

section \<open>Vectors of instructions\<close>

record insnVec =
  the_insns :: "x86_instr list"
  num_bytes :: u32

definition insnVec_new :: insnVec where
  "insnVec_new = \<lparr>the_insns = [], num_bytes = 0\<rparr>"

definition insnVec_of_insns :: "x86_instr list \<Rightarrow> insnVec" where
  "insnVec_of_insns ithe_insns = \<lparr>the_insns = ithe_insns, num_bytes = sum_list (map getNumBytes ithe_insns)\<rparr>"

definition appendAnInsn :: "insnVec \<Rightarrow> x86_instr \<Rightarrow> insnVec" where
  "appendAnInsn v i = v\<lparr>the_insns := the_insns v @ [i], num_bytes := num_bytes v + getNumBytes i\<rparr>"

definition insnVec_clear :: "insnVec \<Rightarrow> insnVec" where
  "insnVec_clear v = v\<lparr>the_insns := [], num_bytes := 0\<rparr>"

text \<open>Assignment appends to the instructions already there, and \<open>+=\<close> leaves the byte count.\<close>

definition insnVec_assign :: "insnVec \<Rightarrow> insnVec \<Rightarrow> insnVec" where
  "insnVec_assign v src = v\<lparr>the_insns := the_insns v @ the_insns src, num_bytes := num_bytes src\<rparr>"

definition insnVec_plus :: "insnVec \<Rightarrow> insnVec \<Rightarrow> insnVec" where
  "insnVec_plus v other = v\<lparr>the_insns := the_insns v @ the_insns other\<rparr>"

fun ndx_loop :: "nat \<Rightarrow> x86_instr list \<Rightarrow> u32 \<Rightarrow> u32 option" where
  "ndx_loop 0 is offset = Some offset"
| "ndx_loop (Suc n) [] offset = None"
| "ndx_loop (Suc n) (i # is) offset = ndx_loop n is (offset + getNumBytes i)"

definition insnNdx2ByteOffset :: "insnVec \<Rightarrow> nat \<Rightarrow> bool \<Rightarrow> u32 option" where
  "insnNdx2ByteOffset v ndx enforce_range = do {
     assert (enforce_range \<longrightarrow> (ndx = 0 \<and> length (the_insns v) = 0) \<or> ndx < length (the_insns v));
     ndx_loop ndx (the_insns v) 0
   }"

fun offset_loop :: "u32 \<Rightarrow> x86_instr list \<Rightarrow> nat \<Rightarrow> u32 \<Rightarrow> nat \<times> u32" where
  "offset_loop byteoffset [] ndx offset = (ndx, offset)"
| "offset_loop byteoffset (i # is) ndx offset =
     (if offset < byteoffset then offset_loop byteoffset is (ndx + 1) (offset + getNumBytes i) else (ndx, offset))"

definition byteOffset2InsnNdx :: "insnVec \<Rightarrow> u32 \<Rightarrow> nat option" where
  "byteOffset2InsnNdx v byteoffset = do {
     assert (byteoffset \<le> num_bytes v);
     let (ndx, offset) = offset_loop byteoffset (the_insns v) 0 0;
     assert (offset = byteoffset);
     Some ndx
   }"

definition get_by_ndx :: "insnVec \<Rightarrow> nat \<Rightarrow> x86_instr option" where
  "get_by_ndx v ndx = (if ndx < length (the_insns v) then Some (the_insns v ! ndx) else None)"

definition get_by_byteoffset :: "insnVec \<Rightarrow> u32 \<Rightarrow> x86_instr option" where
  "get_by_byteoffset v byteoffset = do { n \<leftarrow> byteOffset2InsnNdx v byteoffset; get_by_ndx v n }"

text \<open>The loop looks at every instruction with the same \<open>offset\<close>, which it never advances.\<close>

fun containing_loop :: "u32 \<Rightarrow> x86_instr list \<Rightarrow> u32 \<Rightarrow> bool \<Rightarrow> u32" where
  "containing_loop byteoffset [] offset found = offset"
| "containing_loop byteoffset (i # is) offset found =
     (if found then offset
      else containing_loop byteoffset is offset (byteoffset < offset + getNumBytes i))"

definition offsetOfInsnContaining :: "insnVec \<Rightarrow> u32 \<Rightarrow> u32 option" where
  "offsetOfInsnContaining v byteoffset = do {
     assert (byteoffset \<le> num_bytes v);
     Some (containing_loop byteoffset (the_insns v) 0 False)
   }"

text \<open>\<open>decode\<close> is the instruction constructor, applied to the bytes that are left.\<close>

partial_function (option) raw_loop ::
  "(u8 list \<Rightarrow> x86_instr) \<Rightarrow> u32 \<Rightarrow> u8 list \<Rightarrow> insnVec \<Rightarrow> insnVec option" where
  "raw_loop decode nbytes raw v =
     (if num_bytes v < nbytes then
        (let i = decode raw;
             v1 = v\<lparr>num_bytes := num_bytes v + getNumBytes i\<rparr>
         in raw_loop decode nbytes (drop (unat (getNumBytes i)) raw)
              (if num_bytes v1 \<le> nbytes then v1\<lparr>the_insns := the_insns v1 @ [i]\<rparr> else v1))
      else Some v)"

definition raw_initialize :: "(u8 list \<Rightarrow> x86_instr) \<Rightarrow> u8 list \<Rightarrow> u32 \<Rightarrow> insnVec \<Rightarrow> insnVec option" where
  "raw_initialize decode raw nbytes v = do {
     assert (num_bytes v = 0);
     raw_loop decode nbytes raw v
   }"

definition overwriteEnMasse :: "(u8 list \<Rightarrow> x86_instr) \<Rightarrow> u8 list \<Rightarrow> u32 \<Rightarrow> insnVec \<Rightarrow> insnVec option" where
  "overwriteEnMasse decode raw nbytes v = raw_initialize decode raw nbytes (v\<lparr>the_insns := []\<rparr>)"

definition shrinkToBytes :: "insnVec \<Rightarrow> u32 \<Rightarrow> insnVec option" where
  "shrinkToBytes v newNumBytes =
     (if newNumBytes < num_bytes v then do {
        newNumInsns \<leftarrow> byteOffset2InsnNdx v newNumBytes;
        Some (v\<lparr>the_insns := take newNumInsns (the_insns v), num_bytes := newNumBytes\<rparr>)
      }
      else Some (v\<lparr>num_bytes := newNumBytes\<rparr>))"

section \<open>Chunks of code\<close>

record codeChunk =
  startAddr :: kptr
  theCode :: insnVec

type_synonym fnCode = "codeChunk list"

definition numBytes :: "codeChunk \<Rightarrow> u32" where
  "numBytes c = num_bytes (theCode c)"

definition chunk_get1Insn :: "codeChunk \<Rightarrow> kptr \<Rightarrow> x86_instr option" where
  "chunk_get1Insn c addr = do {
     assert (the_insns (theCode c) \<noteq> []);
     get_by_byteoffset (theCode c) (addr - startAddr c)
   }"

definition get1InsnByNdx :: "codeChunk \<Rightarrow> nat \<Rightarrow> x86_instr option" where
  "get1InsnByNdx c index = do {
     assert (the_insns (theCode c) \<noteq> []);
     get_by_ndx (theCode c) index
   }"

definition chunk_enclosesAddr :: "codeChunk \<Rightarrow> kptr \<Rightarrow> bool" where
  "chunk_enclosesAddr c addr = (startAddr c \<le> addr \<and> addr < startAddr c + numBytes c)"

definition chunk_enclosesRange :: "codeChunk \<Rightarrow> kptr \<Rightarrow> kptr \<Rightarrow> bool option" where
  "chunk_enclosesRange c low hi = do {
     assert (low \<le> hi);
     Some (startAddr c \<le> low \<and> hi \<le> startAddr c + numBytes c)
   }"

definition chunk_calcNumInsns :: "codeChunk \<Rightarrow> kptr \<Rightarrow> kptr \<Rightarrow> nat option" where
  "chunk_calcNumInsns c low finish = do {
     assert (low \<le> finish);
     e \<leftarrow> chunk_enclosesRange c low finish;
     assert e;
     insnndx1 \<leftarrow> byteOffset2InsnNdx (theCode c) (finish - startAddr c);
     insnndx0 \<leftarrow> byteOffset2InsnNdx (theCode c) (low - startAddr c);
     Some (insnndx1 - insnndx0)
   }"

definition sortChunksNow :: "fnCode \<Rightarrow> fnCode" where
  "sortChunksNow cs = sort_key startAddr cs"

definition addChunk :: "fnCode \<Rightarrow> codeChunk \<Rightarrow> bool \<Rightarrow> fnCode option" where
  "addChunk cs c resortNow = do {
     assert (numBytes c > 0);
     Some (if resortNow then sortChunksNow (cs @ [c]) else cs @ [c])
   }"

text \<open>
  \<open>std::equal_range\<close> with the comparison \<open>lt1\<close> of a chunk with an address and \<open>lt2\<close> of an address with
  a chunk: from the first chunk that is not below to the first one above. On a vector that the two do
  not partition the result is unspecified, here an abort.
\<close>

definition chunk_equal_range ::
  "(codeChunk \<Rightarrow> kptr \<Rightarrow> bool) \<Rightarrow> (kptr \<Rightarrow> codeChunk \<Rightarrow> bool) \<Rightarrow> fnCode \<Rightarrow> kptr \<Rightarrow> (nat \<times> nat) option" where
  "chunk_equal_range lt1 lt2 cs addr = do {
     let first = length (takeWhile (\<lambda>c. lt1 c addr) cs);
     let second = length (takeWhile (\<lambda>c. \<not> lt2 addr c) cs);
     assert (first \<le> second);
     Some (first, second)
   }"

definition lt_start :: "codeChunk \<Rightarrow> kptr \<Rightarrow> bool" where "lt_start c addr = (startAddr c < addr)"
definition lt_end :: "codeChunk \<Rightarrow> kptr \<Rightarrow> bool" where "lt_end c addr = (startAddr c + numBytes c \<le> addr)"
definition gt_start :: "kptr \<Rightarrow> codeChunk \<Rightarrow> bool" where "gt_start addr c = (addr < startAddr c)"

text \<open>The search in the range: empty chunks are skipped; \<open>ok\<close> is the assertion on the first other one.\<close>

fun first_nonempty :: "(codeChunk \<Rightarrow> bool) \<Rightarrow> fnCode \<Rightarrow> nat list \<Rightarrow> nat option option" where
  "first_nonempty ok cs [] = Some None"
| "first_nonempty ok cs (i # is) =
     (if numBytes (cs ! i) = 0 then first_nonempty ok cs is
      else do { assert (ok (cs ! i)); Some (Some i) })"

text \<open>\<^term>\<open>Some None\<close> is \<open>end()\<close>.\<close>

definition findChunk :: "fnCode \<Rightarrow> kptr \<Rightarrow> bool \<Rightarrow> nat option option" where
  "findChunk cs addr definitelyStartOfSomeChunk =
     (if length cs = 1 then
        (let c = cs ! 0 in
         if startAddr c \<le> addr \<and> addr < startAddr c + numBytes c then do {
           assert (definitelyStartOfSomeChunk \<longrightarrow> addr = startAddr c);
           Some (Some 0)
         }
         else Some None)
      else if definitelyStartOfSomeChunk then do {
        (first, second) \<leftarrow> chunk_equal_range lt_start gt_start cs addr;
        first_nonempty (\<lambda>c. startAddr c = addr) cs [first..<second]
      }
      else do {
        (first, second) \<leftarrow> chunk_equal_range lt_end gt_start cs addr;
        first_nonempty (\<lambda>c. startAddr c \<le> addr \<and> addr < startAddr c + numBytes c) cs [first..<second]
      })"

definition fn_calcNumInsns :: "fnCode \<Rightarrow> kptr \<Rightarrow> kptr \<Rightarrow> nat option" where
  "fn_calcNumInsns cs low finish =
     (if low = finish then Some 0
      else do {
        i \<leftarrow> findChunk cs low False;
        j \<leftarrow> findChunk cs (finish - 1) False;
        assert (i = j);
        k \<leftarrow> i;
        chunk_calcNumInsns (cs ! k) low finish
      })"

definition fn_get1Insn :: "fnCode \<Rightarrow> kptr \<Rightarrow> (unit + x86_instr) option" where
  "fn_get1Insn cs addr = do {
     r \<leftarrow> findChunk cs addr False;
     (case r of None \<Rightarrow> Some (Inl ()) | Some i \<Rightarrow> do { x \<leftarrow> chunk_get1Insn (cs ! i) addr; Some (Inr x) })
   }"

definition fn_enclosesAddr :: "fnCode \<Rightarrow> kptr \<Rightarrow> bool option" where
  "fn_enclosesAddr cs addr = do { r \<leftarrow> findChunk cs addr False; Some (r \<noteq> None) }"

definition hasChunkStartingAt :: "fnCode \<Rightarrow> kptr \<Rightarrow> bool option" where
  "hasChunkStartingAt cs addr = do { r \<leftarrow> findChunk cs addr True; Some (r \<noteq> None) }"

definition shrink1ChunkIfAppropriate :: "fnCode \<Rightarrow> kptr \<Rightarrow> u32 \<Rightarrow> fnCode option" where
  "shrink1ChunkIfAppropriate cs chunkStartAddr newnumbytes = do {
     (first, second) \<leftarrow> chunk_equal_range lt_start gt_start cs chunkStartAddr;
     r \<leftarrow> first_nonempty (\<lambda>c. startAddr c = chunkStartAddr \<and> newnumbytes \<le> numBytes c) cs [first..<second];
     i \<leftarrow> r;
     v \<leftarrow> shrinkToBytes (theCode (cs ! i)) newnumbytes;
     Some (cs[i := (cs ! i)\<lparr>theCode := v\<rparr>])
   }"

fun shrinkChunksIfAppropriate :: "fnCode \<Rightarrow> (kptr \<times> u32) list \<Rightarrow> fnCode option" where
  "shrinkChunksIfAppropriate cs [] = Some cs"
| "shrinkChunksIfAppropriate cs ((addr, n) # rest) = do {
     cs' \<leftarrow> shrink1ChunkIfAppropriate cs addr n;
     shrinkChunksIfAppropriate cs' rest
   }"

definition getCodeRanges :: "fnCode \<Rightarrow> (kptr \<times> u32) list" where
  "getCodeRanges cs = map (\<lambda>c. (startAddr c, numBytes c)) cs"

definition totalNumBytes_fromChunks :: "fnCode \<Rightarrow> u32" where
  "totalNumBytes_fromChunks cs = sum_list (map numBytes cs)"

text \<open>The loop of \<open>enclosesRange\<close> stops one chunk short of the last pair, as written.\<close>

function gap_loop :: "fnCode \<Rightarrow> nat \<Rightarrow> nat \<Rightarrow> bool option" where
  "gap_loop cs lowiter hiiter =
     (if lowiter + 1 < hiiter then do {
        let fin = startAddr (cs ! lowiter) + numBytes (cs ! lowiter);
        assert (startAddr (cs ! lowiter) < startAddr (cs ! (lowiter + 1)));
        assert (fin \<le> startAddr (cs ! (lowiter + 1)));
        if fin \<noteq> startAddr (cs ! (lowiter + 1)) then Some False
        else gap_loop cs (lowiter + 1) hiiter
      }
      else if lowiter + 1 = hiiter then Some True else None)"
  by pat_completeness auto
termination
  by (relation "measure (\<lambda>(_, l, h). h - l)") auto

declare gap_loop.simps [simp del]

definition fn_enclosesRange :: "fnCode \<Rightarrow> kptr \<Rightarrow> kptr \<Rightarrow> bool option" where
  "fn_enclosesRange cs low hi = do {
     assert (low \<le> hi);
     hiiter \<leftarrow> findChunk cs (hi - 1) False;
     (case hiiter of
        None \<Rightarrow> Some False
      | Some h \<Rightarrow>
          if low = hi then Some True
          else do {
            lowiter \<leftarrow> findChunk cs low False;
            (case lowiter of
               None \<Rightarrow> Some False
             | Some l \<Rightarrow> if l = h then Some True else gap_loop cs l h)
          })
   }"

section \<open>Offsets and indices\<close>

primrec bytes_of :: "x86_instr list \<Rightarrow> nat" where
  "bytes_of [] = 0"
| "bytes_of (i # is) = unat (getNumBytes i) + bytes_of is"

lemma bytes_of_append [simp]: "bytes_of (xs @ ys) = bytes_of xs + bytes_of ys"
  by (induction xs) simp_all

text \<open>A vector as the constructor and \<open>appendAnInsn\<close> leave it: no empty instruction, and an exact count.\<close>

definition iv_ok :: "insnVec \<Rightarrow> bool" where
  "iv_ok v \<longleftrightarrow> list_all (\<lambda>i. 0 < getNumBytes i) (the_insns v) \<and> bytes_of (the_insns v) < 2 ^ 32 \<and>
     num_bytes v = of_nat (bytes_of (the_insns v))"

lemma of_nat_bytes_of: "of_nat (bytes_of is) = sum_list (map getNumBytes is)"
  by (induction "is") simp_all

lemma iv_ok_new: "iv_ok insnVec_new"
  by (simp add: iv_ok_def insnVec_new_def)

lemma iv_ok_of_insns:
  "list_all (\<lambda>i. 0 < getNumBytes i) is \<Longrightarrow> bytes_of is < 2 ^ 32 \<Longrightarrow> iv_ok (insnVec_of_insns is)"
  by (simp add: iv_ok_def insnVec_of_insns_def of_nat_bytes_of)

lemma iv_ok_append:
  "iv_ok v \<Longrightarrow> 0 < getNumBytes i \<Longrightarrow> bytes_of (the_insns v) + unat (getNumBytes i) < 2 ^ 32 \<Longrightarrow> iv_ok (appendAnInsn v i)"
  by (simp add: iv_ok_def appendAnInsn_def)

lemma bytes_of_take: "n \<le> length is \<Longrightarrow> bytes_of (take n is) \<le> bytes_of is"
  by (metis append_take_drop_id le_add1 bytes_of_append)

lemma ndx_loop_eq: "n \<le> length is \<Longrightarrow> ndx_loop n is a = Some (a + of_nat (bytes_of (take n is)))"
  by (induction n "is" a rule: ndx_loop.induct) (simp_all add: add.assoc)

lemma offset_loop_eq:
  "list_all (\<lambda>i. 0 < getNumBytes i) is \<Longrightarrow> k \<le> length is \<Longrightarrow> a + bytes_of is < 2 ^ 32 \<Longrightarrow>
     offset_loop (of_nat (a + bytes_of (take k is))) is ndx (of_nat a) = (ndx + k, of_nat (a + bytes_of (take k is)))"
proof (induction "is" arbitrary: k a ndx)
  case (Cons i "is")
  show ?case
  proof (cases k)
    case (Suc k')
    let ?b = "bytes_of (take k' is)" and ?n = "unat (getNumBytes i)"
    have n: "0 < ?n" using Cons.prems(1) by (auto simp: unat_gt_0)
    have "?b \<le> bytes_of is" using Cons.prems(2) Suc by (intro bytes_of_take) simp
    then have "a + ?n + ?b < 2 ^ 32" "a < 2 ^ 32" using Cons.prems(3) by simp_all
    then have "(of_nat a :: u32) < of_nat (a + ?n + ?b)" using n by (simp add: word_less_nat_alt del: of_nat_add)
    moreover have "of_nat a + getNumBytes i = of_nat (a + ?n)" by simp
    ultimately show ?thesis
      using Cons.IH [of k' "a + ?n" "ndx + 1"] Cons.prems Suc by (simp add: add.assoc)
  qed simp
qed simp

lemma byteOffset2InsnNdx_eq:
  assumes "iv_ok v" and "k \<le> length (the_insns v)"
  shows "byteOffset2InsnNdx v (of_nat (bytes_of (take k (the_insns v)))) = Some k"
proof -
  have "bytes_of (take k (the_insns v)) \<le> bytes_of (the_insns v)" by (rule bytes_of_take [OF assms(2)])
  then have "(of_nat (bytes_of (take k (the_insns v))) :: u32) \<le> num_bytes v"
    using assms(1) by (simp add: iv_ok_def word_le_nat_alt)
  then show ?thesis
    using offset_loop_eq [of "the_insns v" k 0 0] assms by (simp add: byteOffset2InsnNdx_def iv_ok_def)
qed

lemma offsetOfInsnContaining_zero: "b \<le> num_bytes v \<Longrightarrow> offsetOfInsnContaining v b = Some 0"
proof -
  have "containing_loop b is off f = off" for "is" off f
    by (induction b "is" off f rule: containing_loop.induct) simp_all
  then show "b \<le> num_bytes v \<Longrightarrow> ?thesis" by (simp add: offsetOfInsnContaining_def)
qed

section \<open>Finding chunks\<close>

text \<open>Chunks in address order that do not overlap, none of them empty or wrapping around.\<close>

definition chunk_end :: "codeChunk \<Rightarrow> nat" where
  "chunk_end c = unat (startAddr c) + unat (numBytes c)"

definition fn_ok :: "fnCode \<Rightarrow> bool" where
  "fn_ok cs \<longleftrightarrow> list_all (\<lambda>c. 0 < unat (numBytes c) \<and> chunk_end c < 2 ^ 32) cs \<and>
     sorted_wrt (\<lambda>c d. chunk_end c \<le> unat (startAddr d)) cs"

definition encloses :: "codeChunk \<Rightarrow> kptr \<Rightarrow> bool" where
  "encloses c addr \<longleftrightarrow> unat (startAddr c) \<le> unat addr \<and> unat addr < chunk_end c"

lemma chunk_words:
  assumes "chunk_end c < 2 ^ 32"
  shows "startAddr c + numBytes c \<le> addr \<longleftrightarrow> chunk_end c \<le> unat addr"
    and "addr < startAddr c + numBytes c \<longleftrightarrow> unat addr < chunk_end c"
  using assms by (simp_all add: chunk_end_def word_le_nat_alt word_less_nat_alt unat_word_ariths)

lemma fn_ok_nth:
  assumes "fn_ok cs"
  shows "i < length cs \<Longrightarrow> 0 < unat (numBytes (cs ! i))" "i < length cs \<Longrightarrow> chunk_end (cs ! i) < 2 ^ 32"
    "i < j \<Longrightarrow> j < length cs \<Longrightarrow> chunk_end (cs ! i) \<le> unat (startAddr (cs ! j))"
  using assms by (auto simp: fn_ok_def list_all_length sorted_wrt_iff_nth_less)

lemma encloses_unique:
  assumes "fn_ok cs" and "i < length cs" and "j < length cs" and "encloses (cs ! i) a" and "encloses (cs ! j) a"
  shows "i = j"
proof (rule ccontr)
  assume "i \<noteq> j"
  then have "chunk_end (cs ! i) \<le> unat (startAddr (cs ! j)) \<or> chunk_end (cs ! j) \<le> unat (startAddr (cs ! i))"
    using fn_ok_nth(3) [OF assms(1)] assms(2,3) by (meson linorder_neqE_nat)
  then show False using assms(4,5) by (auto simp: encloses_def)
qed

lemma takeWhile_prefix:
  assumes "\<And>i j. i < j \<Longrightarrow> j < length xs \<Longrightarrow> P (xs ! j) \<Longrightarrow> P (xs ! i)"
  shows "i < length (takeWhile P xs) \<longleftrightarrow> i < length xs \<and> P (xs ! i)"
proof
  assume "i < length (takeWhile P xs)"
  then show "i < length xs \<and> P (xs ! i)" by (metis length_takeWhile_le less_le_trans nth_mem set_takeWhileD takeWhile_nth)
next
  assume i: "i < length xs \<and> P (xs ! i)"
  show "i < length (takeWhile P xs)"
  proof (rule ccontr)
    let ?k = "length (takeWhile P xs)"
    assume "\<not> i < ?k"
    then have k: "?k \<le> i" "?k < length xs" using i by simp_all
    then have "\<not> P (xs ! ?k)" by (simp add: nth_length_takeWhile)
    then show False using assms [of ?k i] i k(1) by (cases "?k = i") auto
  qed
qed

lemma range_encloses:
  assumes ok: "fn_ok cs"
  shows "i \<in> {length (takeWhile (\<lambda>c. lt_end c a) cs)..<length (takeWhile (\<lambda>c. \<not> gt_start a c) cs)} \<longleftrightarrow>
      i < length cs \<and> encloses (cs ! i) a" (is ?thesis1)
    and "length (takeWhile (\<lambda>c. lt_end c a) cs) \<le> length (takeWhile (\<lambda>c. \<not> gt_start a c) cs)" (is ?thesis2)
proof -
  note nth = fn_ok_nth [OF ok]
  have lt: "lt_end (cs ! i) a \<longleftrightarrow> chunk_end (cs ! i) \<le> unat a" if "i < length cs" for i
    using chunk_words(1) [OF nth(2) [OF that]] by (simp add: lt_end_def)
  have gt: "\<not> gt_start a c \<longleftrightarrow> unat (startAddr c) \<le> unat a" for c by (simp add: gt_start_def word_less_nat_alt not_less)
  have le: "unat (startAddr (cs ! i)) \<le> chunk_end (cs ! i)" for i by (simp add: chunk_end_def)
  have 1: "i < length (takeWhile (\<lambda>c. lt_end c a) cs) \<longleftrightarrow> i < length cs \<and> chunk_end (cs ! i) \<le> unat a" for i
  proof -
    have "i < length (takeWhile (\<lambda>c. lt_end c a) cs) \<longleftrightarrow> i < length cs \<and> lt_end (cs ! i) a"
    proof (rule takeWhile_prefix)
      fix i j assume "i < j" "j < length cs" "lt_end (cs ! j) a"
      then show "lt_end (cs ! i) a" using nth(3) [of i j] le [of j] lt [of i] lt [of j] by simp
    qed
    then show ?thesis using lt by auto
  qed
  have 2: "i < length (takeWhile (\<lambda>c. \<not> gt_start a c) cs) \<longleftrightarrow> i < length cs \<and> unat (startAddr (cs ! i)) \<le> unat a" for i
  proof -
    have "i < length (takeWhile (\<lambda>c. \<not> gt_start a c) cs) \<longleftrightarrow> i < length cs \<and> \<not> gt_start a (cs ! i)"
    proof (rule takeWhile_prefix)
      fix i j assume "i < j" "j < length cs" "\<not> gt_start a (cs ! j)"
      then show "\<not> gt_start a (cs ! i)" using nth(3) [of i j] le [of i] unfolding gt by simp
    qed
    then show ?thesis unfolding gt .
  qed
  show ?thesis1 using 1 [of i] 2 [of i] by (auto simp: encloses_def not_less)
  show ?thesis2
  proof (rule ccontr)
    assume "\<not> ?thesis2"
    then show False using 1 2 le by (meson le_trans not_le_imp_less less_irrefl)
  qed
qed

lemma find_ndx_unique:
  assumes "i < length xs" and "P (xs ! i)" and "\<And>j. j < length xs \<Longrightarrow> P (xs ! j) \<Longrightarrow> j = i"
  shows "find_ndx P xs = Some i"
  using assms find_ndx_SomeD [of P xs] find_ndx_None [of P xs] by (metis not_None_eq nth_mem)

lemma distinct_single: "distinct xs \<Longrightarrow> set xs = {i} \<Longrightarrow> xs = [i]"
  by (cases xs; cases "tl xs") auto

lemma findChunk_eq:
  assumes ok: "fn_ok cs"
  shows "findChunk cs a False = Some (find_ndx (\<lambda>c. encloses c a) cs)"
proof (cases "length cs = 1")
  case True
  then obtain c where c: "cs = [c]" by (metis length_0_conv length_Suc_conv One_nat_def)
  then have "chunk_end c < 2 ^ 32" using ok by (simp add: fn_ok_def)
  then show ?thesis
    by (simp add: findChunk_def c encloses_def chunk_words(2) word_le_nat_alt)
next
  case False
  let ?f = "length (takeWhile (\<lambda>c. lt_end c a) cs)" and ?s = "length (takeWhile (\<lambda>c. \<not> gt_start a c) cs)"
  note range = range_encloses [OF ok, where a = a]
  show ?thesis
  proof (cases "\<exists>i < length cs. encloses (cs ! i) a")
    case True
    then obtain i where i: "i < length cs" "encloses (cs ! i) a" by blast
    have "set [?f..<?s] = {i}"
      using range(1) i encloses_unique [OF ok] by (auto simp del: atLeastLessThan_iff simp: set_upt)
    then have "[?f..<?s] = [i]" by (rule distinct_single [OF distinct_upt])
    moreover have "numBytes (cs ! i) \<noteq> 0" using fn_ok_nth(1) [OF ok i(1)] by auto
    moreover have "find_ndx (\<lambda>c. encloses c a) cs = Some i"
      by (rule find_ndx_unique) (use i encloses_unique [OF ok _ i(1) _ i(2)] in blast)+
    ultimately show ?thesis
      using False i(2) range(2) chunk_words(2) [OF fn_ok_nth(2) [OF ok i(1)], of a]
      by (simp add: findChunk_def chunk_equal_range_def encloses_def word_le_nat_alt Let_def)
  next
    case none: False
    have "?s \<le> ?f"
    proof (rule ccontr)
      assume "\<not> ?s \<le> ?f"
      then have "?f \<in> {?f..<?s}" by simp
      then show False using range(1) none by blast
    qed
    moreover have "find_ndx (\<lambda>c. encloses c a) cs = None" using none by (auto simp: find_ndx_None in_set_conv_nth)
    ultimately show ?thesis
      using False range(2) by (simp add: findChunk_def chunk_equal_range_def Let_def)
  qed
qed

section \<open>Properties\<close>

text \<open>
  C17: On a vector of instructions none of which is empty, the byte offset of an instruction leads back
  to its index and to the instruction, and the offset one past the end to the number of instructions.
\<close>

theorem insn_offset_roundtrip:
  assumes "iv_ok v" and "i < length (the_insns v)"
  shows "\<exists>off. insnNdx2ByteOffset v i True = Some off \<and> byteOffset2InsnNdx v off = Some i \<and>
    get_by_byteoffset v off = Some (the_insns v ! i) \<and>
    byteOffset2InsnNdx v (num_bytes v) = Some (length (the_insns v))"
  using byteOffset2InsnNdx_eq [OF assms(1), of i] byteOffset2InsnNdx_eq [OF assms(1) le_refl] assms
  by (simp add: insnNdx2ByteOffset_def ndx_loop_eq get_by_byteoffset_def get_by_ndx_def iv_ok_def)

definition demo_insn :: "u32 \<Rightarrow> x86_instr" where
  "demo_insn n = \<lparr>getNumBytes = n, getRawBytes = replicate (unat n) 0x90,
     getRegisterUsage = \<lparr>definitelyUsedBeforeWritten = rs_empty, maybeUsedBeforeWritten = rs_empty,
       definitelyWritten = rs_empty, maybeWritten = rs_empty\<rparr>,
     getControlFlowInfo = \<lparr>controlFlowInstruction = False, isCall = False, isRet = False, isBranch = False,
       isConditional = False, isAlways = False, cfi_condition = 0, destination = dstUndefined, offset_nbytes = 0,
       memaddr = \<lparr>getType = addrUndefined, getOffset = 0\<rparr>, isInt = False, isUd2 = False, farSegment = 0\<rparr>,
     isBranchToFixedAddress = (\<lambda>_. None)\<rparr>"

theorem insn_offset_roundtrip_witness:
  "\<exists>off. insnNdx2ByteOffset (insnVec_of_insns [demo_insn 2, demo_insn 5]) 1 True = Some off \<and>
     byteOffset2InsnNdx (insnVec_of_insns [demo_insn 2, demo_insn 5]) off = Some 1"
proof -
  have "iv_ok (insnVec_of_insns [demo_insn 2, demo_insn 5])" by (rule iv_ok_of_insns) (simp_all add: demo_insn_def)
  from insn_offset_roundtrip [OF this, of 1] show ?thesis by (auto simp: insnVec_of_insns_def)
qed

text \<open>
  C16: In a function whose chunks are sorted, non-empty and disjoint, looking an address up finds the
  chunk that contains it when there is one, and the end otherwise; the lookup never aborts.
\<close>

theorem findChunk_finds:
  assumes "fn_ok cs"
  shows "(case findChunk cs a False of
      None \<Rightarrow> False
    | Some None \<Rightarrow> \<not> list_ex (\<lambda>c. encloses c a) cs
    | Some (Some i) \<Rightarrow> i < length cs \<and> encloses (cs ! i) a)"
  unfolding findChunk_eq [OF assms]
  by (auto simp: find_ndx_None list_ex_iff split: option.split dest: find_ndx_SomeD)

definition demo_chunk :: "kptr \<Rightarrow> codeChunk" where
  "demo_chunk a = \<lparr>startAddr = a, theCode = insnVec_of_insns [demo_insn 2, demo_insn 5]\<rparr>"

lemma demo_fn_ok: "fn_ok [demo_chunk 100, demo_chunk 200]"
  by (simp add: fn_ok_def demo_chunk_def chunk_end_def numBytes_def insnVec_of_insns_def demo_insn_def)

theorem findChunk_finds_witness:
  "findChunk [demo_chunk 100, demo_chunk 200] 205 False = Some (Some 1)"
proof -
  let ?cs = "[demo_chunk 100, demo_chunk 200]"
  have "encloses (?cs ! 1) 205"
    by (simp add: encloses_def chunk_end_def demo_chunk_def numBytes_def insnVec_of_insns_def demo_insn_def)
  moreover have "\<not> encloses (?cs ! 0) 205"
    by (simp add: encloses_def chunk_end_def demo_chunk_def numBytes_def insnVec_of_insns_def demo_insn_def)
  ultimately show ?thesis
    using findChunk_finds [OF demo_fn_ok, of 205] by (auto simp: less_Suc_eq split: option.splits)
qed

text \<open>
  The test whether a function's code encloses a range of addresses does not look at the gap
  before the last chunk of the range: on two chunks it accepts every range that starts in the first
  and ends in the second, whatever lies between them.
\<close>

theorem enclosesRange_misses_gap:
  assumes ok: "fn_ok [c, d]" and "encloses c low" and "encloses d (hi - 1)" and "low < hi"
  shows "fn_enclosesRange [c, d] low hi = Some True"
proof -
  have "find_ndx (\<lambda>c. encloses c low) [c, d] = Some 0"
    by (rule find_ndx_unique) (use assms(2) encloses_unique [OF ok, of _ 0 low] in \<open>auto simp: less_Suc_eq\<close>)
  moreover have "find_ndx (\<lambda>c. encloses c (hi - 1)) [c, d] = Some 1"
    by (rule find_ndx_unique) (use assms(3) encloses_unique [OF ok, of _ 1 "hi - 1"] in \<open>auto simp: less_Suc_eq\<close>)
  ultimately show ?thesis
    using less_imp_le [OF assms(4)] by (simp add: fn_enclosesRange_def findChunk_eq [OF ok] gap_loop.simps)
qed

theorem enclosesRange_misses_gap_witness:
  "fn_enclosesRange [demo_chunk 100, demo_chunk 200] 100 205 = Some True \<and>
   \<not> encloses (demo_chunk 100) 150 \<and> \<not> encloses (demo_chunk 200) 150"
proof -
  have e: "encloses (demo_chunk a) b \<longleftrightarrow> unat a \<le> unat b \<and> unat b < unat a + 7" for a b
    by (simp add: encloses_def chunk_end_def demo_chunk_def numBytes_def insnVec_of_insns_def demo_insn_def)
  have "fn_enclosesRange [demo_chunk 100, demo_chunk 200] 100 205 = Some True"
    by (rule enclosesRange_misses_gap [OF demo_fn_ok]) (simp_all add: e)
  then show ?thesis by (simp add: e)
qed

end
