(* ===== verification/BasicBlock.thy ===== *)
theory BasicBlock
  imports FnCode
begin

text \<open>
  Basic blocks (\<open>kerninstd/basicblock/src/basicblock.C\<close>, \<open>basicblock.h\<close>, \<open>x86_basicblock.C\<close>). Most blocks have
  at most two successors and two predecessors, which are kept in place; more of them are in a vector
  that ends with -1. The lemmas show that this representation behaves as a list without duplicates,
  and that a block sent over the wire is received unchanged. A wire is a list of 32-bit XDR units.
\<close>

section \<open>Edges\<close>

datatype edges = Two u16 u16 | Many "u16 list"

text \<open>What the iterators \<open>SuccIter\<close> and \<open>PredIter\<close> run through, and the number of steps to the -1 of a vector.\<close>

fun edge_list :: "edges \<Rightarrow> u16 list" where
  "edge_list (Two e0 e1) = (if e0 = -1 then [] else if e1 = -1 then [e0] else [e0, e1])"
| "edge_list (Many v) = takeWhile (\<lambda>i. i \<noteq> -1) v"

fun vec_count :: "u16 list \<Rightarrow> nat option" where
  "vec_count [] = None"
| "vec_count (i # v) = (if i = -1 then Some 0 else map_option Suc (vec_count v))"

fun is_many :: "edges \<Rightarrow> bool" where
  "is_many (Two _ _) = False"
| "is_many (Many _) = True"

section \<open>Blocks\<close>

record basicblock =
  bb_startAddr :: kptr
  lastInsnAddr :: kptr
  numInsnBytesInBB :: "14 word"
  bb_s :: edges
  bb_p :: edges

definition bb_succs :: "basicblock \<Rightarrow> u16 list" where "bb_succs bb = edge_list (bb_s bb)"
definition bb_preds :: "basicblock \<Rightarrow> u16 list" where "bb_preds bb = edge_list (bb_p bb)"

definition UnanalyzableBBId :: u16 where "UnanalyzableBBId = -3"
definition interProcBranchExitBBId :: u16 where "interProcBranchExitBBId = -4"
definition xExitBBId :: u16 where "xExitBBId = -5"

definition getEndAddr :: "basicblock \<Rightarrow> kptr" where
  "getEndAddr bb = bb_startAddr bb + ucast (numInsnBytesInBB bb) - 1"

definition getEndAddrPlus1 :: "basicblock \<Rightarrow> kptr" where
  "getEndAddrPlus1 bb = bb_startAddr bb + ucast (numInsnBytesInBB bb)"

definition bb_containsAddr :: "basicblock \<Rightarrow> kptr \<Rightarrow> bool" where
  "bb_containsAddr bb addr = (bb_startAddr bb \<le> addr \<and> addr < getEndAddrPlus1 bb)"

definition bumpUpNumInsnsBy1 :: "basicblock \<Rightarrow> u16 \<Rightarrow> basicblock" where
  "bumpUpNumInsnsBy1 bb numInsnBytes =
     bb\<lparr>lastInsnAddr := bb_startAddr bb + ucast (numInsnBytesInBB bb),
        numInsnBytesInBB := numInsnBytesInBB bb + ucast numInsnBytes\<rparr>"

text \<open>The field is compared before it is cut to 14 bits.\<close>

definition trimNumInsnBytesTo :: "basicblock \<Rightarrow> u16 \<Rightarrow> basicblock option" where
  "trimNumInsnBytesTo bb newval = do {
     assert (newval < ucast (numInsnBytesInBB bb));
     Some (bb\<lparr>numInsnBytesInBB := ucast newval\<rparr>)
   }"

definition numSuccessors :: "basicblock \<Rightarrow> nat option" where
  "numSuccessors bb =
     (case bb_s bb of
        Many v \<Rightarrow> do { result \<leftarrow> vec_count v; assert (result > 2); Some result }
      | Two s0 s1 \<Rightarrow> Some (if s0 = -1 then 0 else if s1 = -1 then 1 else 2))"

definition numPredecessors :: "basicblock \<Rightarrow> nat option" where
  "numPredecessors bb =
     (case bb_p bb of
        Many v \<Rightarrow> vec_count v
      | Two p0 p1 \<Rightarrow> Some (if p0 = -1 then 0 else if p1 = -1 then 1 else 2))"

definition getsucc :: "basicblock \<Rightarrow> nat \<Rightarrow> u16 option" where
  "getsucc bb ndx = do {
     n \<leftarrow> numSuccessors bb;
     assert (ndx < n);
     (case bb_s bb of
        Many v \<Rightarrow> Some (v ! ndx)
      | Two s0 s1 \<Rightarrow> if s0 = -1 then None else if ndx = 0 then Some s0 else if ndx = 1 then Some s1 else None)
   }"

definition getpred :: "basicblock \<Rightarrow> nat \<Rightarrow> u16 option" where
  "getpred bb ndx = do {
     n \<leftarrow> numPredecessors bb;
     assert (ndx < n);
     (case bb_p bb of
        Two p0 p1 \<Rightarrow> if ndx = 0 then Some p0 else if ndx = 1 then Some p1 else None
      | Many v \<Rightarrow> if ndx = 0 \<or> ndx = 1 then None else Some (v ! ndx))
   }"

definition hasAsAPredecessor :: "basicblock \<Rightarrow> u16 \<Rightarrow> bool" where
  "hasAsAPredecessor bb testme = list_ex (\<lambda>p. p = testme) (bb_preds bb)"

definition hasAsASuccessor :: "basicblock \<Rightarrow> u16 \<Rightarrow> bool" where
  "hasAsASuccessor bb testme = list_ex (\<lambda>s. s = testme) (bb_succs bb)"

section \<open>Adding and removing edges\<close>

definition addPredecessorNoDup :: "basicblock \<Rightarrow> u16 \<Rightarrow> basicblock option" where
  "addPredecessorNoDup bb pred = do {
     origNumPreds \<leftarrow> numPredecessors bb;
     assert (is_many (bb_p bb) = (origNumPreds > 2));
     p \<leftarrow> (case bb_p bb of
        Many v \<Rightarrow> do {
          assert (v ! origNumPreds = -1);
          assert (list_all (\<lambda>bb_id. bb_id \<noteq> pred \<and> bb_id \<noteq> -1) (take origNumPreds v));
          Some (Many (take origNumPreds v @ [pred, -1]))
        }
      | Two p0 p1 \<Rightarrow>
          if origNumPreds = 0 then do { assert (p0 = -1); Some (Two pred (-1)) }
          else if origNumPreds = 1 then do {
            assert (p0 \<noteq> -1 \<and> p0 \<noteq> pred);
            assert (p1 = -1);
            Some (Two p0 pred)
          }
          else Some (Many [p0, p1, pred, -1]));
     n \<leftarrow> numPredecessors (bb\<lparr>bb_p := p\<rparr>);
     assert (n = origNumPreds + 1);
     assert (is_many p = (n > 2));
     Some (bb\<lparr>bb_p := p\<rparr>)
   }"

definition addPredecessorUnlessDup :: "basicblock \<Rightarrow> u16 \<Rightarrow> (bool \<times> basicblock) option" where
  "addPredecessorUnlessDup bb pred =
     (if list_ex (\<lambda>i. i = pred) (bb_preds bb) then Some (False, bb)
      else do { bb' \<leftarrow> addPredecessorNoDup bb pred; Some (True, bb') })"

definition clearAllPredecessors :: "basicblock \<Rightarrow> basicblock" where
  "clearAllPredecessors bb = bb\<lparr>bb_p := Two (-1) (-1)\<rparr>"

text \<open>With two successors in place only the first is compared with the new one.\<close>

definition addSuccessorNoDup :: "basicblock \<Rightarrow> u16 \<Rightarrow> basicblock option" where
  "addSuccessorNoDup bb succ = do {
     orig_num_successors \<leftarrow> numSuccessors bb;
     assert (is_many (bb_s bb) = (orig_num_successors > 2));
     s \<leftarrow> (case bb_s bb of
        Many v \<Rightarrow> do {
          assert (v ! orig_num_successors = -1);
          assert (list_all (\<lambda>bb_id. bb_id \<noteq> succ \<and> bb_id \<noteq> -1) (take orig_num_successors v));
          Some (Many (take orig_num_successors v @ [succ, -1]))
        }
      | Two s0 s1 \<Rightarrow>
          if s0 = -1 then Some (Two succ (-1))
          else do {
            assert (s0 \<noteq> succ);
            if s1 = -1 then do { assert (orig_num_successors = 1); Some (Two s0 succ) }
            else do { assert (orig_num_successors = 2); Some (Many [s0, s1, succ, -1]) }
          });
     n \<leftarrow> numSuccessors (bb\<lparr>bb_s := s\<rparr>);
     assert (n = orig_num_successors + 1);
     Some (bb\<lparr>bb_s := s\<rparr>)
   }"

definition addSuccessorUnlessDup :: "basicblock \<Rightarrow> u16 \<Rightarrow> (bool \<times> basicblock) option" where
  "addSuccessorUnlessDup bb succ =
     (if list_ex (\<lambda>i. i = succ) (bb_succs bb) then Some (False, bb)
      else do { bb' \<leftarrow> addSuccessorNoDup bb succ; Some (True, bb') })"

definition clearAllSuccessors :: "basicblock \<Rightarrow> basicblock" where
  "clearAllSuccessors bb = bb\<lparr>bb_s := Two (-1) (-1)\<rparr>"

text \<open>
  Writing through the iterator: the edges it has run through are put back in place. A written -1 would
  stop \<open>operator++\<close> with a failed assertion.
\<close>

fun put_edges :: "edges \<Rightarrow> u16 list \<Rightarrow> edges" where
  "put_edges (Two e0 e1) [] = Two e0 e1"
| "put_edges (Two e0 e1) [a] = Two a e1"
| "put_edges (Two e0 e1) (a # b # _) = Two a b"
| "put_edges (Many v) xs = Many (xs @ drop (length xs) v)"

fun replace_loop :: "u16 \<Rightarrow> u16 \<Rightarrow> u16 list \<Rightarrow> bool \<Rightarrow> (u16 list \<times> bool) option" where
  "replace_loop old_bb_id new_bb_id [] successful = Some ([], successful)"
| "replace_loop old_bb_id new_bb_id (bbid # ids) successful =
     (if bbid = old_bb_id then do {
        assert (\<not> successful);
        assert (new_bb_id \<noteq> -1);
        (ids', successful') \<leftarrow> replace_loop old_bb_id new_bb_id ids True;
        Some (new_bb_id # ids', successful')
      }
      else do {
        assert (bbid \<noteq> new_bb_id);
        (ids', successful') \<leftarrow> replace_loop old_bb_id new_bb_id ids successful;
        Some (bbid # ids', successful')
      })"

definition replace1Predecessor :: "basicblock \<Rightarrow> u16 \<Rightarrow> u16 \<Rightarrow> basicblock option" where
  "replace1Predecessor bb old_bb_id new_bb_id = do {
     (ids, successful) \<leftarrow> replace_loop old_bb_id new_bb_id (bb_preds bb) False;
     assert successful;
     let bb' = bb\<lparr>bb_p := put_edges (bb_p bb) ids\<rparr>;
     assert (\<not> hasAsAPredecessor bb' old_bb_id);
     Some bb'
   }"

fun add_all_preds :: "basicblock \<Rightarrow> u16 list \<Rightarrow> basicblock option" where
  "add_all_preds bb [] = Some bb"
| "add_all_preds bb (new_pred_id # ids) = do {
     bb' \<leftarrow> addPredecessorNoDup bb new_pred_id;
     add_all_preds bb' ids
   }"

definition erase1Predecessor :: "basicblock \<Rightarrow> u16 \<Rightarrow> basicblock option" where
  "erase1Predecessor bb old_bb_id = do {
     assert (length (filter (\<lambda>p. p = old_bb_id) (bb_preds bb)) = 1);
     add_all_preds (clearAllPredecessors bb) (filter (\<lambda>p. p \<noteq> old_bb_id) (bb_preds bb))
   }"

section \<open>Constructors\<close>

definition bb_new :: "kptr \<Rightarrow> u16 \<Rightarrow> basicblock option" where
  "bb_new bbStartAddr parent_id =
     (let bb = \<lparr>bb_startAddr = bbStartAddr, lastInsnAddr = bbStartAddr, numInsnBytesInBB = 0,
                bb_s = Two (-1) (-1), bb_p = Two (-1) (-1)\<rparr>
      in if parent_id \<noteq> -1 then addPredecessorNoDup bb parent_id else Some bb)"

definition bb_from_parts :: "kptr \<Rightarrow> kptr \<Rightarrow> u16 \<Rightarrow> basicblock" where
  "bb_from_parts bbStartAddr bbLastInsnAddr bbNumInsnBytes =
     \<lparr>bb_startAddr = bbStartAddr, lastInsnAddr = bbLastInsnAddr, numInsnBytesInBB = ucast bbNumInsnBytes,
      bb_s = Two (-1) (-1), bb_p = Two (-1) (-1)\<rparr>"

text \<open>The copy of a vector runs up to its -1; the second edge in place is copied when there is a first.\<close>

fun copy_edges :: "edges \<Rightarrow> edges" where
  "copy_edges (Two e0 e1) = (if e0 = -1 then Two (-1) (-1) else Two e0 e1)"
| "copy_edges (Many v) = Many (takeWhile (\<lambda>i. i \<noteq> -1) v @ [-1])"

definition bb_assign :: "basicblock \<Rightarrow> basicblock option" where
  "bb_assign src = do {
     numSuccessors src;
     numPredecessors src;
     Some (src\<lparr>bb_s := copy_edges (bb_s src), bb_p := copy_edges (bb_p src)\<rparr>)
   }"

text \<open>The lower half of a block that is split at an address inside of it.\<close>

definition bb_split :: "u16 \<Rightarrow> basicblock \<Rightarrow> kptr \<Rightarrow> basicblock option" where
  "bb_split parent_bb_id parent splitAddr = do {
     assert (splitAddr > bb_startAddr parent);
     assert (splitAddr \<le> getEndAddr parent);
     num_succ \<leftarrow> numSuccessors parent;
     s \<leftarrow> (case bb_s parent of
        Many v \<Rightarrow> do {
          assert (v ! num_succ = -1);
          Some (Many (take (num_succ + 1) v))
        }
      | Two s0 s1 \<Rightarrow> Some (Two s0 (if s0 \<noteq> -1 then s1 else -1)));
     let bb = \<lparr>bb_startAddr = splitAddr, lastInsnAddr = lastInsnAddr parent,
               numInsnBytesInBB = ucast (getEndAddr parent - splitAddr + 1), bb_s = s, bb_p = Two (-1) (-1)\<rparr>;
     n \<leftarrow> numSuccessors bb;
     assert (n = num_succ);
     (added, bb') \<leftarrow> addPredecessorUnlessDup bb parent_bb_id;
     assert added;
     Some bb'
   }"

section \<open>Exit points\<close>

definition insn_at :: "fnCode \<Rightarrow> kptr \<Rightarrow> x86_instr option" where
  "insn_at fnCode addr = do {
     r \<leftarrow> fn_get1Insn fnCode addr;
     (case r of Inl _ \<Rightarrow> None | Inr i \<Rightarrow> Some i)
   }"

text \<open>An address without code makes \<open>get1Insn\<close> throw, which nothing here catches.\<close>

partial_function (option) exit_loop :: "fnCode \<Rightarrow> kptr \<Rightarrow> kptr \<Rightarrow> kptr option" where
  "exit_loop fnCode finish lastAddr = do {
     lastInsn \<leftarrow> insn_at fnCode lastAddr;
     if lastAddr + getNumBytes lastInsn \<noteq> finish then exit_loop fnCode finish (lastAddr + getNumBytes lastInsn)
     else Some lastAddr
   }"

definition getExitPoint :: "basicblock \<Rightarrow> fnCode \<Rightarrow> kptr option" where
  "getExitPoint bb fnCode = do {
     let bbNumInsnBytes = (ucast (numInsnBytesInBB bb) :: u32);
     assert (bbNumInsnBytes \<ge> 1);
     firstInsn \<leftarrow> insn_at fnCode (bb_startAddr bb);
     if getNumBytes firstInsn = bbNumInsnBytes then Some (bb_startAddr bb)
     else exit_loop fnCode (bb_startAddr bb + bbNumInsnBytes) (bb_startAddr bb + getNumBytes firstInsn)
   }"

section \<open>Sending and receiving\<close>

type_synonym xdr = "u32 list"

definition bb_send :: "basicblock \<Rightarrow> xdr option" where
  "bb_send bb = do {
     num_succs \<leftarrow> numSuccessors bb;
     num_preds \<leftarrow> numPredecessors bb;
     Some ([bb_startAddr bb, lastInsnAddr bb, ucast (numInsnBytesInBB bb), of_nat num_succs, of_nat num_preds] @
           map ucast (bb_succs bb) @ map ucast (bb_preds bb))
   }"

text \<open>A received value with the rest of the wire; \<^term>\<open>None\<close> is the exception \<open>xdr_recv_fail\<close>.\<close>

fun recv_u32 :: "xdr \<Rightarrow> (u32 \<times> xdr) option" where
  "recv_u32 [] = None"
| "recv_u32 (w # ws) = Some (w, ws)"

definition recv_u16 :: "xdr \<Rightarrow> (u16 \<times> xdr) option" where
  "recv_u16 ws = do { (w, ws) \<leftarrow> recv_u32 ws; Some (ucast w, ws) }"

primrec recv_ids :: "nat \<Rightarrow> xdr \<Rightarrow> (u16 list \<times> xdr) option" where
  "recv_ids 0 ws = Some ([], ws)"
| "recv_ids (Suc n) ws = do {
     (i, ws) \<leftarrow> recv_u16 ws;
     (is, ws) \<leftarrow> recv_ids n ws;
     Some (i # is, ws)
   }"

text \<open>Edges as received: more than two go to a vector with its -1, fewer in place.\<close>

definition recv_edges :: "nat \<Rightarrow> xdr \<Rightarrow> (edges \<times> xdr) option" where
  "recv_edges n ws = do {
     (is, ws) \<leftarrow> recv_ids n ws;
     Some (if n > 2 then Many (is @ [-1])
           else if n = 0 then Two (-1) (-1)
           else if n = 1 then Two (is ! 0) (-1)
           else Two (is ! 0) (is ! 1), ws)
   }"

definition bb_recv :: "xdr \<Rightarrow> (basicblock \<times> xdr) option" where
  "bb_recv ws = do {
     (start, ws) \<leftarrow> recv_u32 ws;
     (lastInsn, ws) \<leftarrow> recv_u32 ws;
     (temp_numInsnBytes, ws) \<leftarrow> recv_u16 ws;
     (num_succs, ws) \<leftarrow> recv_u32 ws;
     (num_preds, ws) \<leftarrow> recv_u32 ws;
     (s, ws) \<leftarrow> recv_edges (unat num_succs) ws;
     (p, ws) \<leftarrow> recv_edges (unat num_preds) ws;
     let bb = \<lparr>bb_startAddr = start, lastInsnAddr = lastInsn, numInsnBytesInBB = ucast temp_numInsnBytes, bb_s = s, bb_p = p\<rparr>;
     n \<leftarrow> numPredecessors bb;
     assert (unat num_preds = n);
     Some (bb, ws)
   }"

section \<open>Edges as lists\<close>

text \<open>The representation of a list of edges, and the edges that are represented this way.\<close>

fun edges_rep :: "u16 list \<Rightarrow> edges" where
  "edges_rep [] = Two (-1) (-1)"
| "edges_rep [a] = Two a (-1)"
| "edges_rep [a, b] = Two a b"
| "edges_rep xs = Many (xs @ [-1])"

definition edges_ok :: "edges \<Rightarrow> bool" where "edges_ok r \<longleftrightarrow> r = edges_rep (edge_list r)"

definition bb_ok :: "basicblock \<Rightarrow> bool" where "bb_ok bb \<longleftrightarrow> edges_ok (bb_s bb) \<and> edges_ok (bb_p bb)"

lemma list_0123: "(xs = [] \<Longrightarrow> P) \<Longrightarrow> (\<And>a. xs = [a] \<Longrightarrow> P) \<Longrightarrow> (\<And>a b. xs = [a, b] \<Longrightarrow> P) \<Longrightarrow>
    (\<And>a b c ys. xs = a # b # c # ys \<Longrightarrow> P) \<Longrightarrow> P"
  by (metis list.exhaust)

lemma takeWhile_end: "e \<notin> set xs \<Longrightarrow> takeWhile (\<lambda>i. i \<noteq> e) (xs @ e # ys) = xs"
  by (induction xs) auto

lemma no_end [simp]: "-1 \<notin> set (edge_list r)"
  by (cases r) (auto dest: set_takeWhileD)

lemma no_end_bb [simp]: "-1 \<notin> set (bb_succs bb)" "-1 \<notin> set (bb_preds bb)"
  by (simp_all add: bb_succs_def bb_preds_def)

lemma edge_list_rep: "-1 \<notin> set xs \<Longrightarrow> edge_list (edges_rep xs) = xs"
  by (rule list_0123 [of xs]) (auto simp: takeWhile_end)

lemma edges_ok_rep [simp]: "-1 \<notin> set xs \<Longrightarrow> edges_ok (edges_rep xs)"
  by (simp add: edges_ok_def edge_list_rep)

lemma is_many_rep: "is_many (edges_rep xs) \<longleftrightarrow> length xs > 2"
  by (rule list_0123 [of xs]) auto

lemma vec_count_end: "-1 \<notin> set xs \<Longrightarrow> vec_count (xs @ -1 # ys) = Some (length xs)"
  by (induction xs) auto

lemma edges_okE:
  assumes "edges_ok r"
  obtains xs where "r = edges_rep xs" and "-1 \<notin> set xs" and "edge_list r = xs"
  using assms by (metis edges_ok_def no_end)

lemma numSuccessors_eq:
  assumes "edges_ok (bb_s bb)"
  shows "numSuccessors bb = Some (length (bb_succs bb))"
proof -
  obtain xs where "bb_s bb = edges_rep xs" "-1 \<notin> set xs" "edge_list (bb_s bb) = xs" using edges_okE [OF assms] .
  then show ?thesis
    using vec_count_end [of xs "[]"] by (cases rule: list_0123 [of xs]) (auto simp: numSuccessors_def bb_succs_def)
qed

lemma numPredecessors_eq:
  assumes "edges_ok (bb_p bb)"
  shows "numPredecessors bb = Some (length (bb_preds bb))"
proof -
  obtain xs where "bb_p bb = edges_rep xs" "-1 \<notin> set xs" "edge_list (bb_p bb) = xs" using edges_okE [OF assms] .
  then show ?thesis
    using vec_count_end [of xs "[]"] by (cases rule: list_0123 [of xs]) (auto simp: numPredecessors_def bb_preds_def)
qed

lemma getsucc_eq:
  assumes "edges_ok (bb_s bb)"
  shows "getsucc bb k = (if k < length (bb_succs bb) then Some (bb_succs bb ! k) else None)"
proof -
  obtain xs where "bb_s bb = edges_rep xs" "-1 \<notin> set xs" "bb_succs bb = xs"
    using edges_okE [OF assms] by (metis bb_succs_def)
  then show ?thesis
    using numSuccessors_eq [OF assms]
    by (cases rule: list_0123 [of xs]) (auto simp: getsucc_def nth_append nth_Cons')
qed

text \<open>The first two of more than two predecessors cannot be asked for.\<close>

lemma getpred_eq:
  assumes "edges_ok (bb_p bb)"
  shows "getpred bb k = (if k < length (bb_preds bb) \<and> (length (bb_preds bb) \<le> 2 \<or> 2 \<le> k) then Some (bb_preds bb ! k) else None)"
proof -
  obtain xs where "bb_p bb = edges_rep xs" "-1 \<notin> set xs" "bb_preds bb = xs"
    using edges_okE [OF assms] by (metis bb_preds_def)
  then show ?thesis
    using numPredecessors_eq [OF assms]
    by (cases rule: list_0123 [of xs]) (auto simp: getpred_def nth_append nth_Cons')
qed

lemma set_succs [simp]:
  "-1 \<notin> set xs \<Longrightarrow> bb_succs (bb\<lparr>bb_s := edges_rep xs\<rparr>) = xs" "bb_preds (bb\<lparr>bb_s := e\<rparr>) = bb_preds bb"
  by (simp_all add: bb_succs_def bb_preds_def edge_list_rep)

lemma set_preds [simp]:
  "-1 \<notin> set xs \<Longrightarrow> bb_preds (bb\<lparr>bb_p := edges_rep xs\<rparr>) = xs" "bb_succs (bb\<lparr>bb_p := e\<rparr>) = bb_succs bb"
  by (simp_all add: bb_succs_def bb_preds_def edge_list_rep)

text \<open>An edge that is already there stops the two routines, but the second of two successors does not.\<close>

definition succ_refused :: "u16 list \<Rightarrow> u16 \<Rightarrow> bool" where
  "succ_refused xs i = (if length xs = 2 then i = hd xs else i \<in> set xs)"

lemma addSuccessorNoDup_eq:
  assumes ok: "edges_ok (bb_s bb)" and i: "i \<noteq> -1"
  shows "addSuccessorNoDup bb i =
    (if succ_refused (bb_succs bb) i then None else Some (bb\<lparr>bb_s := edges_rep (bb_succs bb @ [i])\<rparr>))"
proof -
  obtain xs where xs: "bb_s bb = edges_rep xs" "-1 \<notin> set xs" "bb_succs bb = xs"
    using edges_okE [OF ok] by (metis bb_succs_def)
  have n: "numSuccessors bb = Some (length xs)" using numSuccessors_eq [OF ok] xs by simp
  have n': "numSuccessors (bb\<lparr>bb_s := edges_rep (xs @ [i])\<rparr>) = Some (Suc (length xs))"
    using numSuccessors_eq [of "bb\<lparr>bb_s := edges_rep (xs @ [i])\<rparr>"] xs(2) i by simp
  show ?thesis
    using xs n n' i
    by (cases rule: list_0123 [of xs])
      (auto simp: addSuccessorNoDup_def succ_refused_def list_all_iff assert_def)
qed

lemma addPredecessorNoDup_eq:
  assumes ok: "edges_ok (bb_p bb)" and i: "i \<noteq> -1" "i \<notin> set (bb_preds bb)"
  shows "addPredecessorNoDup bb i = Some (bb\<lparr>bb_p := edges_rep (bb_preds bb @ [i])\<rparr>)"
proof -
  obtain xs where xs: "bb_p bb = edges_rep xs" "-1 \<notin> set xs" "bb_preds bb = xs"
    using edges_okE [OF ok] by (metis bb_preds_def)
  have n: "numPredecessors bb = Some (length xs)" using numPredecessors_eq [OF ok] xs by simp
  have n': "numPredecessors (bb\<lparr>bb_p := edges_rep (xs @ [i])\<rparr>) = Some (Suc (length xs))"
    using numPredecessors_eq [of "bb\<lparr>bb_p := edges_rep (xs @ [i])\<rparr>"] xs(2) i by simp
  show ?thesis
    using xs n n' i
    by (cases rule: list_0123 [of xs])
      (auto simp: addPredecessorNoDup_def list_all_iff assert_def)
qed

lemma addUnlessDup_eq:
  assumes "bb_ok bb" and "i \<noteq> -1"
  shows "addSuccessorUnlessDup bb i =
      (if i \<in> set (bb_succs bb) then Some (False, bb) else Some (True, bb\<lparr>bb_s := edges_rep (bb_succs bb @ [i])\<rparr>))"
    and "addPredecessorUnlessDup bb i =
      (if i \<in> set (bb_preds bb) then Some (False, bb) else Some (True, bb\<lparr>bb_p := edges_rep (bb_preds bb @ [i])\<rparr>))"
proof -
  have "\<not> succ_refused (bb_succs bb) i" if "i \<notin> set (bb_succs bb)"
    using that by (cases "bb_succs bb") (auto simp: succ_refused_def)
  then show "addSuccessorUnlessDup bb i =
      (if i \<in> set (bb_succs bb) then Some (False, bb) else Some (True, bb\<lparr>bb_s := edges_rep (bb_succs bb @ [i])\<rparr>))"
    using assms by (auto simp: addSuccessorUnlessDup_def list_ex_iff bb_ok_def addSuccessorNoDup_eq)
  show "addPredecessorUnlessDup bb i =
      (if i \<in> set (bb_preds bb) then Some (False, bb) else Some (True, bb\<lparr>bb_p := edges_rep (bb_preds bb @ [i])\<rparr>))"
    using assms by (auto simp: addPredecessorUnlessDup_def list_ex_iff bb_ok_def addPredecessorNoDup_eq)
qed

definition subst_id :: "u16 \<Rightarrow> u16 \<Rightarrow> u16 \<Rightarrow> u16" where
  "subst_id old new i = (if i = old then new else i)"

lemma subst_id_absent: "old \<notin> set ids \<Longrightarrow> map (subst_id old new) ids = ids"
  by (induction ids) (auto simp: subst_id_def)

lemma replace_loop_eq:
  assumes "new \<noteq> -1"
  shows "distinct ids \<Longrightarrow> new \<notin> set ids \<Longrightarrow> (ok \<longrightarrow> old \<notin> set ids) \<Longrightarrow>
    replace_loop old new ids ok = Some (map (subst_id old new) ids, ok \<or> old \<in> set ids)"
proof (induction ids arbitrary: ok)
  case (Cons i ids)
  show ?case
  proof (cases "i = old")
    case True
    then show ?thesis using Cons.IH [of True] Cons.prems assms by (auto simp: subst_id_def)
  next
    case False
    then show ?thesis using Cons.IH [of ok] Cons.prems by (auto simp: subst_id_def)
  qed
qed simp

lemma put_edges_rep: "length ys = length xs \<Longrightarrow> put_edges (edges_rep xs) ys = edges_rep ys"
  by (cases rule: list_0123 [of xs]; cases rule: list_0123 [of ys]) auto

lemma replace1Predecessor_eq:
  assumes ok: "edges_ok (bb_p bb)" and "distinct (bb_preds bb)" and "old \<in> set (bb_preds bb)"
    and new: "new \<notin> set (bb_preds bb)" "new \<noteq> -1"
  shows "replace1Predecessor bb old new = Some (bb\<lparr>bb_p := edges_rep (map (subst_id old new) (bb_preds bb))\<rparr>)"
proof -
  let ?ys = "map (subst_id old new) (bb_preds bb)"
  have "bb_p bb = edges_rep (bb_preds bb)" using ok by (simp add: edges_ok_def bb_preds_def)
  then have put: "put_edges (bb_p bb) ?ys = edges_rep ?ys" using put_edges_rep [of ?ys "bb_preds bb"] by simp
  have "-1 \<notin> set ?ys" using new(2) no_end_bb(2) [of bb] by (auto simp: subst_id_def)
  moreover have "old \<notin> set ?ys" using assms(3) new(1) by (auto simp: subst_id_def)
  ultimately show ?thesis
    using replace_loop_eq [OF new(2) assms(2) new(1), of False old] assms(3) put
    by (auto simp: replace1Predecessor_def hasAsAPredecessor_def list_ex_iff)
qed

lemma add_all_preds_eq:
  "edges_ok (bb_p bb) \<Longrightarrow> -1 \<notin> set ids \<Longrightarrow> distinct (bb_preds bb @ ids) \<Longrightarrow>
     add_all_preds bb ids = Some (bb\<lparr>bb_p := edges_rep (bb_preds bb @ ids)\<rparr>)"
proof (induction ids arbitrary: bb)
  case Nil
  then show ?case by (simp add: edges_ok_def bb_preds_def)
next
  case (Cons i ids)
  have new: "addPredecessorNoDup bb i = Some (bb\<lparr>bb_p := edges_rep (bb_preds bb @ [i])\<rparr>)"
    using Cons.prems by (intro addPredecessorNoDup_eq) auto
  have end1: "-1 \<notin> set (bb_preds bb @ [i])" using Cons.prems(2) by auto
  then show ?case
    using Cons.IH [of "bb\<lparr>bb_p := edges_rep (bb_preds bb @ [i])\<rparr>"] Cons.prems new set_preds(1) [OF end1]
      edges_ok_rep [OF end1] by simp
qed

lemma erase1Predecessor_eq:
  assumes ok: "edges_ok (bb_p bb)" and d: "distinct (bb_preds bb)" and old: "old \<in> set (bb_preds bb)"
  shows "erase1Predecessor bb old = Some (bb\<lparr>bb_p := edges_rep (filter (\<lambda>p. p \<noteq> old) (bb_preds bb))\<rparr>)"
proof -
  have "length (filter (\<lambda>p. p = old) (bb_preds bb)) = 1"
    using distinct_length_filter [OF d, of "\<lambda>p. p = old"] old by (simp add: Collect_conv_if)
  moreover have "edges_ok (bb_p (clearAllPredecessors bb))" "bb_preds (clearAllPredecessors bb) = []"
    by (simp_all add: clearAllPredecessors_def edges_ok_def bb_preds_def)
  ultimately show ?thesis
    using add_all_preds_eq [of "clearAllPredecessors bb" "filter (\<lambda>p. p \<noteq> old) (bb_preds bb)"] d
    by (simp add: erase1Predecessor_def clearAllPredecessors_def)
qed

lemma clear_edges:
  "clearAllSuccessors bb = bb\<lparr>bb_s := edges_rep []\<rparr>" "clearAllPredecessors bb = bb\<lparr>bb_p := edges_rep []\<rparr>"
  by (simp_all add: clearAllSuccessors_def clearAllPredecessors_def)

lemma bb_new_eq:
  "bb_new a i = Some \<lparr>bb_startAddr = a, lastInsnAddr = a, numInsnBytesInBB = 0, bb_s = edges_rep [],
     bb_p = edges_rep (if i = -1 then [] else [i])\<rparr>"
proof (cases "i = -1")
  case False
  let ?bb = "\<lparr>bb_startAddr = a, lastInsnAddr = a, numInsnBytesInBB = 0, bb_s = edges_rep [], bb_p = edges_rep []\<rparr>"
  have "bb_preds ?bb = []" "edges_ok (bb_p ?bb)" by (simp_all add: bb_preds_def edges_ok_def)
  then show ?thesis using addPredecessorNoDup_eq [of ?bb i] False by (simp add: bb_new_def)
qed (simp add: bb_new_def)

lemma copy_edges_ok: "edges_ok r \<Longrightarrow> copy_edges r = r"
proof -
  assume "edges_ok r"
  then obtain xs where "r = edges_rep xs" "-1 \<notin> set xs" by (rule edges_okE)
  then show ?thesis by (cases rule: list_0123 [of xs]) (auto simp: takeWhile_end)
qed

lemma bb_assign_eq: "bb_ok bb \<Longrightarrow> bb_assign bb = Some bb"
  by (simp add: bb_assign_def bb_ok_def numSuccessors_eq numPredecessors_eq copy_edges_ok)

lemma bb_split_eq:
  assumes ok: "edges_ok (bb_s bb)" and i: "i \<noteq> -1" and at: "bb_startAddr bb < a" "a \<le> getEndAddr bb"
  shows "bb_split i bb a = Some \<lparr>bb_startAddr = a, lastInsnAddr = lastInsnAddr bb,
    numInsnBytesInBB = ucast (getEndAddr bb - a + 1), bb_s = bb_s bb, bb_p = edges_rep [i]\<rparr>"
proof -
  let ?bb = "\<lparr>bb_startAddr = a, lastInsnAddr = lastInsnAddr bb, numInsnBytesInBB = ucast (getEndAddr bb - a + 1),
    bb_s = bb_s bb, bb_p = Two (-1) (-1)\<rparr>"
  have p: "bb_preds ?bb = []" "edges_ok (bb_p ?bb)" by (simp_all add: bb_preds_def edges_ok_def)
  have add: "addPredecessorUnlessDup ?bb i = Some (True, ?bb\<lparr>bb_p := edges_rep [i]\<rparr>)"
    using addPredecessorNoDup_eq [OF p(2) i] p(1) by (simp add: addPredecessorUnlessDup_def)
  have n: "numSuccessors ?bb = Some (length (bb_succs bb))" "numSuccessors bb = Some (length (bb_succs bb))"
    using numSuccessors_eq [OF ok] by (simp_all add: numSuccessors_def)
  obtain xs where xs: "bb_s bb = edges_rep xs" "-1 \<notin> set xs" "bb_succs bb = xs"
    using edges_okE [OF ok] by (metis bb_succs_def)
  show ?thesis
    using xs n add at by (cases rule: list_0123 [of xs]) (auto simp: bb_split_def Let_def)
qed

section \<open>Transfer\<close>

lemma recv_ids_eq: "recv_ids (length is) (map ucast is @ ws) = Some (is, ws)"
proof (induction "is")
  case (Cons i "is")
  have "ucast (ucast i :: u32) = i" by (rule bit_word_eqI) (simp add: bit_ucast_iff)
  then show ?case using Cons by (simp add: recv_u16_def)
qed simp

lemma recv_edges_eq: "recv_edges (length is) (map ucast is @ ws) = Some (edges_rep is, ws)"
  unfolding recv_edges_def recv_ids_eq by (cases rule: list_0123 [of "is"]) simp_all

lemma bb_recv_send:
  assumes ok: "bb_ok bb" and len: "length (bb_succs bb) < 2 ^ 32" "length (bb_preds bb) < 2 ^ 32"
  shows "\<exists>ws. bb_send bb = Some ws \<and> bb_recv (ws @ rest) = Some (bb, rest)"
proof -
  have e: "edges_ok (bb_s bb)" "edges_ok (bb_p bb)" using ok by (simp_all add: bb_ok_def)
  note n = numSuccessors_eq [OF e(1)] numPredecessors_eq [OF e(2)]
  have rep: "edges_rep (bb_succs bb) = bb_s bb" "edges_rep (bb_preds bb) = bb_p bb"
    using e by (simp_all add: edges_ok_def bb_succs_def bb_preds_def)
  have cast: "ucast (ucast (ucast (numInsnBytesInBB bb) :: u32) :: u16) = numInsnBytesInBB bb"
    by (rule bit_word_eqI) (auto simp: bit_ucast_iff)
  have self: "\<lparr>bb_startAddr = bb_startAddr bb, lastInsnAddr = lastInsnAddr bb, numInsnBytesInBB = numInsnBytesInBB bb,
    bb_s = bb_s bb, bb_p = bb_p bb\<rparr> = bb" by simp
  show ?thesis
    using n len by (simp add: bb_send_def bb_recv_def recv_u16_def recv_edges_eq rep cast self Let_def)
qed

section \<open>Blocks of code\<close>

text \<open>A block that consists of the \<open>n\<close> instructions from index \<open>i\<close> on of a chunk.\<close>

definition block_at :: "fnCode \<Rightarrow> nat \<Rightarrow> nat \<Rightarrow> nat \<Rightarrow> basicblock \<Rightarrow> bool" where
  "block_at cs k i n bb \<longleftrightarrow> fn_ok cs \<and> k < length cs \<and> iv_ok (theCode (cs ! k)) \<and>
     (let is = the_insns (theCode (cs ! k)) in
      0 < n \<and> i + n \<le> length is \<and> bb_startAddr bb = startAddr (cs ! k) + of_nat (bytes_of (take i is)) \<and>
      unat (numInsnBytesInBB bb) = bytes_of (take n (drop i is)))"

lemma bytes_split: "i + n \<le> length is \<Longrightarrow> bytes_of (take i is) + bytes_of (take n (drop i is)) \<le> bytes_of is"
  by (metis add.commute bytes_of_append bytes_of_take take_add)

lemma bytes_pos: "list_all (\<lambda>i. 0 < getNumBytes i) is \<Longrightarrow> 0 < n \<Longrightarrow> n \<le> length is \<Longrightarrow> 0 < bytes_of (take n is)"
  by (cases "is"; cases n) (auto simp: unat_gt_0)

lemma unat_14: "unat (w :: 14 word) < 2 ^ 32"
  by (rule less_trans [OF unsigned_less]) simp

lemma block_at_bounds:
  assumes "block_at cs k i n bb"
  defines "is \<equiv> the_insns (theCode (cs ! k))"
  shows "unat (bb_startAddr bb) = unat (startAddr (cs ! k)) + bytes_of (take i is)"
    and "unat (getEndAddrPlus1 bb) = unat (bb_startAddr bb) + bytes_of (take n (drop i is))"
    and "0 < bytes_of (take n (drop i is))"
    and "unat (getEndAddrPlus1 bb) \<le> chunk_end (cs ! k)" and "chunk_end (cs ! k) < 2 ^ 32"
proof -
  have b: "fn_ok cs" "k < length cs" "iv_ok (theCode (cs ! k))" "0 < n" "i + n \<le> length is"
    "bb_startAddr bb = startAddr (cs ! k) + of_nat (bytes_of (take i is))"
    "unat (numInsnBytesInBB bb) = bytes_of (take n (drop i is))"
    using assms(1) by (simp_all add: block_at_def Let_def is_def)
  show end_small: "chunk_end (cs ! k) < 2 ^ 32" using fn_ok_nth(2) [OF b(1,2)] .
  have "unat (numBytes (cs ! k)) = bytes_of is" using b(3) by (simp add: numBytes_def iv_ok_def is_def)
  then have e: "chunk_end (cs ! k) = unat (startAddr (cs ! k)) + bytes_of is" by (simp add: chunk_end_def)
  note split = bytes_split [OF b(5)]
  show 1: "unat (bb_startAddr bb) = unat (startAddr (cs ! k)) + bytes_of (take i is)"
    using split e end_small unfolding b(6) by (simp add: unat_word_ariths)
  have "unat (ucast (numInsnBytesInBB bb) :: u32) = bytes_of (take n (drop i is))"
    using b(7) unat_14 [of "numInsnBytesInBB bb"] by (simp add: unsigned_ucast_eq take_bit_nat_eq_self)
  then show 2: "unat (getEndAddrPlus1 bb) = unat (bb_startAddr bb) + bytes_of (take n (drop i is))"
    using split e end_small 1 by (simp add: getEndAddrPlus1_def unat_word_ariths)
  show "unat (getEndAddrPlus1 bb) \<le> chunk_end (cs ! k)" using split e 1 2 by simp
  have "list_all (\<lambda>i. 0 < getNumBytes i) (drop i is)"
    using b(3) by (auto simp: iv_ok_def is_def list_all_iff dest: in_set_dropD)
  then show "0 < bytes_of (take n (drop i is))" by (rule bytes_pos) (use b(4,5) in simp_all)
qed

lemma word_of_unat_sum: "unat x = unat y + n \<Longrightarrow> x = y + of_nat n" for x y :: u32
  by (drule arg_cong [where f = "of_nat :: nat \<Rightarrow> u32"]) simp

lemma findChunk_enclosing:
  assumes ok: "fn_ok cs" "k < length cs" and e: "encloses (cs ! k) a"
  shows "findChunk cs a False = Some (Some k)"
  unfolding findChunk_eq [OF ok(1)] option.inject
  by (rule find_ndx_unique) (use ok(2) e encloses_unique [OF ok(1) _ ok(2) _ e] in blast)+

lemma block_at_chunk:
  assumes b: "block_at cs k i n bb"
  defines "is \<equiv> the_insns (theCode (cs ! k))"
  shows "findChunk cs (bb_startAddr bb) False = Some (Some k)"
    and "findChunk cs (getEndAddrPlus1 bb - 1) False = Some (Some k)"
    and "bb_startAddr bb \<le> getEndAddrPlus1 bb" and "bb_startAddr bb \<noteq> getEndAddrPlus1 bb"
    and "chunk_enclosesRange (cs ! k) (bb_startAddr bb) (getEndAddrPlus1 bb) = Some True"
    and "byteOffset2InsnNdx (theCode (cs ! k)) (bb_startAddr bb - startAddr (cs ! k)) = Some i"
    and "chunk_calcNumInsns (cs ! k) (bb_startAddr bb) (getEndAddrPlus1 bb) = Some n"
proof -
  let ?lo = "bb_startAddr bb" and ?hi = "getEndAddrPlus1 bb"
  have ok: "fn_ok cs" "k < length cs" "iv_ok (theCode (cs ! k))" "0 < n" "i + n \<le> length is"
    using b by (simp_all add: block_at_def Let_def is_def)
  note bd = block_at_bounds [OF b, folded is_def]
  have lt: "unat ?lo < unat ?hi" using bd(2,3) by simp
  have hi1: "unat (?hi - 1) = unat ?hi - 1" using lt by (intro unat_minus_one) auto
  have enc: "encloses (cs ! k) ?lo" "encloses (cs ! k) (?hi - 1)"
    unfolding encloses_def hi1 using bd(1,2,4) lt by linarith+
  show "findChunk cs ?lo False = Some (Some k)" "findChunk cs (?hi - 1) False = Some (Some k)"
    by (rule findChunk_enclosing [OF ok(1,2) enc(1)], rule findChunk_enclosing [OF ok(1,2) enc(2)])
  show words: "?lo \<le> ?hi" "?lo \<noteq> ?hi" using lt by (auto simp: word_le_nat_alt)
  show range: "chunk_enclosesRange (cs ! k) ?lo ?hi = Some True"
    using words(1) bd by (auto simp: chunk_enclosesRange_def word_le_nat_alt unat_word_ariths chunk_end_def)
  have lo_off: "?lo - startAddr (cs ! k) = of_nat (bytes_of (take i is))"
    using b by (simp add: block_at_def Let_def is_def)
  have "unat ?hi = unat (startAddr (cs ! k)) + bytes_of (take (i + n) is)" using bd(1,2) by (simp add: take_add)
  from word_of_unat_sum [OF this]
  have hi_off: "?hi - startAddr (cs ! k) = of_nat (bytes_of (take (i + n) is))" by simp
  note off = byteOffset2InsnNdx_eq [OF ok(3), folded is_def]
  show "byteOffset2InsnNdx (theCode (cs ! k)) (?lo - startAddr (cs ! k)) = Some i"
    unfolding lo_off using off [of i] ok(5) by simp
  show "chunk_calcNumInsns (cs ! k) ?lo ?hi = Some n"
    using words(1) range off [of i] off [of "i + n"] ok(5) by (simp add: chunk_calcNumInsns_def lo_off hi_off)
qed

section \<open>Exit points of blocks\<close>

lemma insn_at_eq:
  assumes b: "block_at cs k i n bb" and j: "j < n"
  shows "insn_at cs (bb_startAddr bb + of_nat (bytes_of (take j (drop i (the_insns (theCode (cs ! k))))))) =
    Some (the_insns (theCode (cs ! k)) ! (i + j))"
proof -
  let ?is = "the_insns (theCode (cs ! k))"
  let ?a = "bb_startAddr bb + of_nat (bytes_of (take j (drop i ?is)))"
  have ok: "fn_ok cs" "k < length cs" "iv_ok (theCode (cs ! k))" "i + n \<le> length ?is"
    and start: "bb_startAddr bb = startAddr (cs ! k) + of_nat (bytes_of (take i ?is))"
    using b by (simp_all add: block_at_def Let_def)
  have off: "?a - startAddr (cs ! k) = of_nat (bytes_of (take (i + j) ?is))" unfolding start by (simp add: take_add)
  have "take n (drop i ?is) = take j (drop i ?is) @ take (n - j) (drop (i + j) ?is)"
    using j by (metis add.commute drop_drop le_add_diff_inverse less_imp_le take_add)
  moreover have "0 < bytes_of (take (n - j) (drop (i + j) ?is))"
    by (rule bytes_pos) (use ok j in \<open>auto simp: iv_ok_def list_all_iff dest: in_set_dropD\<close>)
  ultimately have less: "bytes_of (take j (drop i ?is)) < bytes_of (take n (drop i ?is))" by simp
  note bd = block_at_bounds [OF b]
  have "unat ?a = unat (bb_startAddr bb) + bytes_of (take j (drop i ?is))"
    using bd less by (simp add: unat_word_ariths)
  then have "encloses (cs ! k) ?a" using bd less by (simp add: encloses_def)
  from findChunk_enclosing [OF ok(1,2) this] have "findChunk cs ?a False = Some (Some k)" .
  moreover have "i + j < length ?is" using j ok(4) by simp
  moreover from this have "?is \<noteq> []" by auto
  ultimately show ?thesis
    using byteOffset2InsnNdx_eq [OF ok(3), of "i + j"] off
    by (simp add: insn_at_def fn_get1Insn_def chunk_get1Insn_def get_by_byteoffset_def get_by_ndx_def)
qed

lemma exit_loop_eq:
  assumes b: "block_at cs k i n bb"
  defines "at \<equiv> \<lambda>j. bb_startAddr bb + of_nat (bytes_of (take j (drop i (the_insns (theCode (cs ! k))))))"
  shows "j < n \<Longrightarrow> exit_loop cs (getEndAddrPlus1 bb) (at j) = Some (at (n - 1))"
proof (induction "n - j" arbitrary: j)
  case (Suc d)
  let ?is = "drop i (the_insns (theCode (cs ! k)))" and ?x = "the_insns (theCode (cs ! k)) ! (i + j)"
  have ok: "iv_ok (theCode (cs ! k))" "i + n \<le> length (the_insns (theCode (cs ! k)))"
    using b by (simp_all add: block_at_def Let_def)
  have at: "insn_at cs (at j) = Some ?x" unfolding at_def by (rule insn_at_eq [OF b Suc.prems])
  have next_at: "at j + getNumBytes ?x = at (Suc j)"
    using Suc.prems ok(2) by (simp add: at_def take_Suc_conv_app_nth add.assoc)
  have fin: "getEndAddrPlus1 bb = at n" unfolding at_def by (rule word_of_unat_sum [OF block_at_bounds(2) [OF b]])
  show ?case
  proof (cases "Suc j = n")
    case True
    then show ?thesis using at next_at fin by (subst exit_loop.simps) auto
  next
    case False
    have "take n ?is = take (Suc j) ?is @ take (n - Suc j) (drop (Suc j) ?is)"
      using Suc.prems by (metis Suc_leI le_add_diff_inverse take_add)
    moreover have "0 < bytes_of (take (n - Suc j) (drop (Suc j) ?is))"
      by (rule bytes_pos) (use ok False Suc.prems in \<open>auto simp: iv_ok_def list_all_iff dest: in_set_dropD\<close>)
    ultimately have "bytes_of (take (Suc j) ?is) < bytes_of (take n ?is)" by simp
    then have "unat (at (Suc j)) < unat (at n)"
      using block_at_bounds [OF b] unfolding fin [symmetric] by (simp add: at_def unat_word_ariths)
    then have "at (Suc j) \<noteq> at n" by auto
    moreover have "exit_loop cs (getEndAddrPlus1 bb) (at (Suc j)) = Some (at (n - 1))"
      using Suc.hyps(1) [of "Suc j"] Suc.hyps(2) Suc.prems False by simp
    ultimately show ?thesis using at next_at fin by (subst exit_loop.simps) auto
  qed
qed simp

lemma getExitPoint_eq:
  assumes b: "block_at cs k i n bb"
  shows "getExitPoint bb cs =
    Some (bb_startAddr bb + of_nat (bytes_of (take (n - 1) (drop i (the_insns (theCode (cs ! k)))))))"
proof -
  let ?is = "drop i (the_insns (theCode (cs ! k)))" and ?x = "the_insns (theCode (cs ! k)) ! i"
  have ok: "0 < n" "i + n \<le> length (the_insns (theCode (cs ! k)))" using b by (simp_all add: block_at_def Let_def)
  have x: "insn_at cs (bb_startAddr bb) = Some ?x" using insn_at_eq [OF b ok(1)] by simp
  have nb: "unat (ucast (numInsnBytesInBB bb) :: u32) = bytes_of (take n ?is)"
    using b unat_14 [of "numInsnBytesInBB bb"] by (simp add: block_at_def Let_def unsigned_ucast_eq take_bit_nat_eq_self)
  have first: "take 1 ?is = [?x]" using ok by (simp add: take_Suc_conv_app_nth)
  have big: "(1 :: u32) \<le> ucast (numInsnBytesInBB bb)" using block_at_bounds(3) [OF b] nb by (simp add: word_le_nat_alt)
  show ?thesis
  proof (cases "n = 1")
    case True
    then have "getNumBytes ?x = ucast (numInsnBytesInBB bb)" using nb first by (simp add: word_unat_eq_iff)
    then show ?thesis using x big True by (simp add: getExitPoint_def)
  next
    case False
    have "take n ?is = take 1 ?is @ take (n - 1) (drop 1 ?is)" using ok(1) by (metis Suc_leI le_add_diff_inverse take_add One_nat_def)
    moreover have "0 < bytes_of (take (n - 1) (drop 1 ?is))"
      by (rule bytes_pos) (use ok False b in \<open>auto simp: block_at_def Let_def iv_ok_def list_all_iff dest: in_set_dropD\<close>)
    ultimately have "getNumBytes ?x \<noteq> ucast (numInsnBytesInBB bb)" using nb first by (auto simp: word_unat_eq_iff)
    moreover have "exit_loop cs (getEndAddrPlus1 bb) (bb_startAddr bb + getNumBytes ?x) =
        Some (bb_startAddr bb + of_nat (bytes_of (take (n - 1) ?is)))"
      using exit_loop_eq [OF b, of 1] ok False first by simp
    ultimately show ?thesis using x big by (simp add: getExitPoint_def getEndAddrPlus1_def)
  qed
qed

section \<open>Properties\<close>

definition add_id :: "u16 list \<Rightarrow> u16 \<Rightarrow> u16 list" where
  "add_id xs i = (if i \<in> set xs then xs else xs @ [i])"

text \<open>
  C8: The two-in-place and vector representation of a block's edges refines lists without duplicates:
  adding a successor or a predecessor reports whether it is new and appends it exactly then, replacing
  a predecessor substitutes it in place and erasing one filters it out. No assertion fails, the edges in
  the other direction stay as they are, and the representation invariant is kept.
\<close>

theorem block_edges_refine_lists:
  assumes ok: "bb_ok bb" and i: "i \<noteq> -1"
    and d: "distinct (bb_preds bb)" "old \<in> set (bb_preds bb)" "new \<notin> set (bb_preds bb)" "new \<noteq> -1"
  shows "(\<exists>bb'. addSuccessorUnlessDup bb i = Some (i \<notin> set (bb_succs bb), bb') \<and> bb_ok bb' \<and>
        bb_succs bb' = add_id (bb_succs bb) i \<and> bb_preds bb' = bb_preds bb) \<and>
    (\<exists>bb'. addPredecessorUnlessDup bb i = Some (i \<notin> set (bb_preds bb), bb') \<and> bb_ok bb' \<and>
        bb_preds bb' = add_id (bb_preds bb) i \<and> bb_succs bb' = bb_succs bb) \<and>
    (\<exists>bb'. replace1Predecessor bb old new = Some bb' \<and> bb_ok bb' \<and>
        bb_preds bb' = map (\<lambda>p. if p = old then new else p) (bb_preds bb) \<and> bb_succs bb' = bb_succs bb) \<and>
    (\<exists>bb'. erase1Predecessor bb old = Some bb' \<and> bb_ok bb' \<and>
        bb_preds bb' = filter (\<lambda>p. p \<noteq> old) (bb_preds bb) \<and> bb_succs bb' = bb_succs bb)"
proof (intro conjI)
  have e: "edges_ok (bb_s bb)" "edges_ok (bb_p bb)" using ok by (simp_all add: bb_ok_def)
  note ends = no_end_bb [of bb]
  show "\<exists>bb'. addSuccessorUnlessDup bb i = Some (i \<notin> set (bb_succs bb), bb') \<and> bb_ok bb' \<and>
      bb_succs bb' = add_id (bb_succs bb) i \<and> bb_preds bb' = bb_preds bb"
    using addUnlessDup_eq(1) [OF ok i] ok e ends i by (auto simp: add_id_def bb_ok_def)
  show "\<exists>bb'. addPredecessorUnlessDup bb i = Some (i \<notin> set (bb_preds bb), bb') \<and> bb_ok bb' \<and>
      bb_preds bb' = add_id (bb_preds bb) i \<and> bb_succs bb' = bb_succs bb"
    using addUnlessDup_eq(2) [OF ok i] ok e ends i by (auto simp: add_id_def bb_ok_def)
  let ?ys = "map (subst_id old new) (bb_preds bb)"
  have ys: "-1 \<notin> set ?ys" using d(4) ends(2) by (auto simp: subst_id_def)
  then show "\<exists>bb'. replace1Predecessor bb old new = Some bb' \<and> bb_ok bb' \<and>
      bb_preds bb' = map (\<lambda>p. if p = old then new else p) (bb_preds bb) \<and> bb_succs bb' = bb_succs bb"
    using replace1Predecessor_eq [OF e(2) d] e(1) set_preds(1) [OF ys, of bb] by (simp add: bb_ok_def) (simp add: subst_id_def)
  have "-1 \<notin> set (filter (\<lambda>p. p \<noteq> old) (bb_preds bb))" using ends(2) by simp
  then show "\<exists>bb'. erase1Predecessor bb old = Some bb' \<and> bb_ok bb' \<and>
      bb_preds bb' = filter (\<lambda>p. p \<noteq> old) (bb_preds bb) \<and> bb_succs bb' = bb_succs bb"
    using erase1Predecessor_eq [OF e(2) d(1,2)] e(1) by (simp add: bb_ok_def)
qed

definition demo_bb :: "u16 list \<Rightarrow> u16 list \<Rightarrow> basicblock" where
  "demo_bb ss ps = \<lparr>bb_startAddr = 100, lastInsnAddr = 102, numInsnBytesInBB = 4, bb_s = edges_rep ss, bb_p = edges_rep ps\<rparr>"

theorem block_edges_refine_lists_witness:
  "(\<exists>bb'. addSuccessorUnlessDup (demo_bb [1, 2] [3, 4, 5]) 6 = Some (True, bb') \<and> bb_succs bb' = [1, 2, 6]) \<and>
   (\<exists>bb'. erase1Predecessor (demo_bb [1, 2] [3, 4, 5]) 4 = Some bb' \<and> bb_preds bb' = [3, 5])"
proof -
  have "bb_ok (demo_bb [1, 2] [3, 4, 5])" "bb_succs (demo_bb [1, 2] [3, 4, 5]) = [1, 2]" "bb_preds (demo_bb [1, 2] [3, 4, 5]) = [3, 4, 5]"
    by (simp_all add: demo_bb_def bb_ok_def edges_ok_def bb_succs_def bb_preds_def)
  then show ?thesis
    using block_edges_refine_lists [of "demo_bb [1, 2] [3, 4, 5]" 6 4 7] by (auto simp: add_id_def)
qed

text \<open>
  C9: A basic block that is sent to another process is received unchanged, with its edges in the same
  representation, and the receiver leaves exactly the rest of the wire.
\<close>

theorem block_transfer_roundtrip:
  assumes "bb_ok bb" and "length (bb_succs bb) < 2 ^ 32" and "length (bb_preds bb) < 2 ^ 32"
  shows "\<exists>ws. bb_send bb = Some ws \<and> bb_recv (ws @ rest) = Some (bb, rest)"
  by (rule bb_recv_send [OF assms])

theorem block_transfer_roundtrip_witness:
  "\<exists>ws. bb_send (demo_bb [1, 2] [3, 4, 5]) = Some ws \<and> bb_recv (ws @ [7]) = Some (demo_bb [1, 2] [3, 4, 5], [7])"
  by (rule block_transfer_roundtrip) (simp_all add: demo_bb_def bb_ok_def edges_ok_def bb_succs_def bb_preds_def)

text \<open>The routine that may assume its argument to be new accepts the second of two successors again.\<close>

theorem second_successor_twice:
  assumes "bb_ok bb" and "bb_succs bb = [a, b]" and "a \<noteq> b"
  shows "\<exists>bb'. addSuccessorNoDup bb b = Some bb' \<and> bb_succs bb' = [a, b, b]"
proof -
  have "b \<noteq> -1" using no_end_bb(1) [of bb] assms(2) by auto
  moreover have "-1 \<notin> set [a, b, b]" using no_end_bb(1) [of bb] assms(2) by auto
  ultimately show ?thesis
    using addSuccessorNoDup_eq [of bb b] assms set_succs(1) [of "[a, b, b]" bb] by (simp add: bb_ok_def succ_refused_def)
qed

text \<open>Instrumentation of a block's exit goes before its last instruction.\<close>

theorem exit_point_is_last_insn:
  assumes "block_at cs k i n bb"
  shows "getExitPoint bb cs =
    Some (bb_startAddr bb + of_nat (bytes_of (take (n - 1) (drop i (the_insns (theCode (cs ! k)))))))"
  by (rule getExitPoint_eq [OF assms])

end
