(* ===== verification/LiveRegs.thy ===== *)
theory LiveRegs
  imports BasicBlock
begin

text \<open>
  Register analysis of one basic block of i386 code (\<open>kerninstd/basicblock/src/x86_bb.h\<close>): the dataflow
  function that takes the registers live at the bottom of a block to those live at its top, and the
  backward slice of a block. The oracle that knows the effect of calls and branches to other
  functions (\<open>moduleMgr/src/regAnalysisOracles.h\<close> over \<open>interProcRegAnalysis/src/LatticeInfo.h\<close>) is a record
  of its answers.
\<close>

section \<open>The oracle\<close>

record call_oracle =
  getMergeOp :: mergeoperators
  getOptimisticDataflowFn :: dataflow_fn
  getPessimisticDataflowFn :: "kptr \<Rightarrow> dataflow_fn"
  whenDestAddrIsKnown :: "kptr \<Rightarrow> dataflow_fn"

definition getIdentityDataflowFn :: "call_oracle \<Rightarrow> dataflow_fn" where
  "getIdentityDataflowFn c = passAllRegs"

definition whenDestAddrIsUnknown :: "call_oracle \<Rightarrow> dataflow_fn" where
  "whenDestAddrIsUnknown c = getPessimisticDataflowFn c 0"

section \<open>Live registers of a block\<close>

text \<open>
  The search for the last instruction to analyse: the instruction \<open>n - 1\<close> places after the one at
  \<open>stop\<close>. Instruction objects are told apart by their position in the vector.
\<close>

function find_start :: "nat \<Rightarrow> nat \<Rightarrow> nat \<Rightarrow> nat \<Rightarrow> bool \<Rightarrow> nat option" where
  "find_start len stop n ndx stop_found =
     (if len \<le> ndx then None
      else if \<not> stop_found then
        (if ndx = stop then (if n = 1 then Some ndx else find_start len stop n (ndx + 1) True)
         else find_start len stop n (ndx + 1) False)
      else if int ndx = int stop + (int n - 1) then Some ndx
      else find_start len stop n (ndx + 1) True)"
  by pat_completeness auto
termination
  by (relation "measure (\<lambda>(len, _, _, ndx, _). len - ndx)") auto

declare find_start.simps [simp del]

text \<open>0 when the instruction transfers no control out of the block, -1 when the target is unknown.\<close>

definition insn_destAddr :: "x86_instr \<Rightarrow> kptr \<Rightarrow> kptr" where
  "insn_destAddr insn insnaddr =
     (let cfi = getControlFlowInfo insn in
      if controlFlowInstruction cfi then
        (if isCall cfi \<or> isBranch cfi \<and> \<not> isConditional cfi then
           (if destination cfi = pcRelative then (insnaddr + getNumBytes insn) + offset_nbytes cfi else -1)
         else 0)
      else 0)"

definition insn_effect :: "call_oracle \<Rightarrow> kptr \<Rightarrow> x86_instr \<Rightarrow> dataflow_fn \<Rightarrow> dataflow_fn" where
  "insn_effect c insnaddr insn result =
     (let ru = getRegisterUsage insn;
          destAddr = insn_destAddr insn insnaddr;
          result1 = (if destAddr \<noteq> 0
                     then df_compose (if destAddr = -1 then whenDestAddrIsUnknown c
                                      else whenDestAddrIsKnown c destAddr) result
                     else result);
          result2 = df_stopSet result1 (definitelyWritten ru);
          result3 = df_startSet result2 (maybeUsedBeforeWritten ru)
      in df_startSet result3 (definitelyUsedBeforeWritten ru))"

text \<open>
  The loop goes up from instruction \<open>stop + n\<close> to \<open>stop\<close>; the address counts down by the sizes, and is
  \<open>addrWhereToStop\<close> for the last one.
\<close>

fun live_loop :: "call_oracle \<Rightarrow> x86_instr list \<Rightarrow> nat \<Rightarrow> kptr \<Rightarrow> nat \<Rightarrow> kptr \<Rightarrow> dataflow_fn \<Rightarrow> dataflow_fn" where
  "live_loop c is stop addrWhereToStop 0 insnaddr result =
     insn_effect c addrWhereToStop (is ! stop) result"
| "live_loop c is stop addrWhereToStop (Suc n) insnaddr result =
     (let insn = is ! (stop + Suc n); insnaddr' = insnaddr - getNumBytes insn
      in live_loop c is stop addrWhereToStop n insnaddr' (insn_effect c insnaddr' insn result))"

definition arch_doLiveRegAnalysis :: "basicblock \<Rightarrow> kptr \<Rightarrow> kptr \<Rightarrow> fnCode \<Rightarrow> call_oracle \<Rightarrow> dataflow_fn option" where
  "arch_doLiveRegAnalysis bb addrWhereToStart addrWhereToStop theFnCode c = do {
     let result = getIdentityDataflowFn c;
     assert (numInsnBytesInBB bb > 0);
     assert (bb_startAddr bb \<le> addrWhereToStop);
     assert (addrWhereToStop \<le> addrWhereToStart);
     assert (addrWhereToStart \<le> getEndAddrPlus1 bb);
     if addrWhereToStart = addrWhereToStop then Some result
     else do {
       bbcode_iter \<leftarrow> findChunk theFnCode (bb_startAddr bb) False;
       k \<leftarrow> bbcode_iter;
       let bbCode = theFnCode ! k;
       e1 \<leftarrow> fn_enclosesRange theFnCode addrWhereToStop addrWhereToStart;
       assert e1;
       e2 \<leftarrow> chunk_enclosesRange bbCode addrWhereToStop addrWhereToStart;
       assert e2;
       num_insns \<leftarrow> chunk_calcNumInsns bbCode addrWhereToStop addrWhereToStart;
       stop_insn \<leftarrow> byteOffset2InsnNdx (theCode bbCode) (addrWhereToStop - startAddr bbCode);
       start_ndx \<leftarrow> find_start (length (the_insns (theCode bbCode))) stop_insn num_insns 0 False;
       Some (live_loop c (the_insns (theCode bbCode)) stop_insn addrWhereToStop (start_ndx - stop_insn)
               addrWhereToStart result)
     }
   }"

text \<open>The wrapper of class \<open>basicblock_t\<close> also reads the number of successors and the first one, which must exist.\<close>

definition doLiveRegAnalysis :: "basicblock \<Rightarrow> kptr \<Rightarrow> kptr \<Rightarrow> fnCode \<Rightarrow> call_oracle \<Rightarrow> dataflow_fn option" where
  "doLiveRegAnalysis bb addrWhereToStart addrWhereToStop theFnCode c = do {
     assert (addrWhereToStart \<ge> addrWhereToStop);
     numSuccessors bb;
     getsucc bb 0;
     arch_doLiveRegAnalysis bb addrWhereToStart addrWhereToStop theFnCode c
   }"

definition doLiveRegAnalysisWholeBlock :: "basicblock \<Rightarrow> fnCode \<Rightarrow> call_oracle \<Rightarrow> dataflow_fn option" where
  "doLiveRegAnalysisWholeBlock bb theFnCode c =
     doLiveRegAnalysis bb (bb_startAddr bb + ucast (numInsnBytesInBB bb)) (bb_startAddr bb) theFnCode c"

definition doLiveRegAnalysisFromBottom :: "basicblock \<Rightarrow> kptr \<Rightarrow> fnCode \<Rightarrow> call_oracle \<Rightarrow> dataflow_fn option" where
  "doLiveRegAnalysisFromBottom bb addrWhereToStop theFnCode c =
     doLiveRegAnalysis bb (bb_startAddr bb + ucast (numInsnBytesInBB bb)) addrWhereToStop theFnCode c"

section \<open>Slices\<close>

definition factorInControlDependencyInRegsToSlice ::
  "x86_reg_set \<Rightarrow> codeChunk \<Rightarrow> kptr \<Rightarrow> kptr \<Rightarrow> x86_reg_set option" where
  "factorInControlDependencyInRegsToSlice regsToSlice theCodeChunk bbStartAddr bbEndAddrPlus1 = do {
     bb_num_insns \<leftarrow> chunk_calcNumInsns theCodeChunk bbStartAddr bbEndAddrPlus1;
     if bb_num_insns = 0 then Some regsToSlice
     else do {
       possible_branch \<leftarrow> get1InsnByNdx theCodeChunk (bb_num_insns - 1);
       let cfi = getControlFlowInfo possible_branch;
       if \<not> controlFlowInstruction cfi then Some regsToSlice
       else if isBranch cfi \<and> isConditional cfi then rs_or_reg regsToSlice PC
       else Some regsToSlice
     }
   }"

definition slice_insn :: "x86_instr \<Rightarrow> x86_reg_set \<Rightarrow> bool \<times> x86_reg_set" where
  "slice_insn instr regs =
     (let ru = getRegisterUsage instr;
          definitelyUsed = rs_minus (definitelyUsedBeforeWritten ru) regsThatIgnoreWrites;
          maybeUsed = rs_minus (maybeUsedBeforeWritten ru) regsThatIgnoreWrites;
          defW = rs_and (definitelyWritten ru) regs;
          mayW = rs_and (maybeWritten ru) regs;
          regs1 = (if \<not> rs_isempty defW then rs_or (rs_or (rs_minus regs defW) definitelyUsed) maybeUsed else regs);
          regs2 = (if \<not> rs_isempty mayW then rs_or (rs_or regs1 definitelyUsed) maybeUsed else regs1)
      in (\<not> rs_isempty defW \<or> \<not> rs_isempty mayW, regs2))"

text \<open>\<open>lcv\<close> counts down to 0; the loop returns early when no register is left.\<close>

fun slice_loop :: "codeChunk \<Rightarrow> nat \<Rightarrow> x86_reg_set \<Rightarrow> bool list \<Rightarrow> (bool list \<times> x86_reg_set) option" where
  "slice_loop theCodeChunk lcv regs result =
     (if rs_isempty regs then Some (result, regs)
      else do {
        instr \<leftarrow> get1InsnByNdx theCodeChunk lcv;
        let (inslice, regs') = slice_insn instr regs;
        let result' = (if inslice then result[lcv := True] else result);
        (case lcv of 0 \<Rightarrow> Some (result', regs') | Suc l \<Rightarrow> slice_loop theCodeChunk l regs' result')
      })"

definition backwardsSlice ::
  "basicblock \<Rightarrow> x86_reg_set \<Rightarrow> bool \<Rightarrow> fnCode \<Rightarrow> u32 \<Rightarrow> (bool list \<times> x86_reg_set) option" where
  "backwardsSlice bb regsToSlice includeControlDependencies theFnCode numInsnBytesToSkipAtEnd = do {
     assert (numInsnBytesToSkipAtEnd \<le> ucast (numInsnBytesInBB bb));
     chunk_iter \<leftarrow> findChunk theFnCode (bb_startAddr bb) False;
     k \<leftarrow> chunk_iter;
     let theCodeChunk = theFnCode ! k;
     bbnumInsns \<leftarrow> chunk_calcNumInsns theCodeChunk (bb_startAddr bb) (getEndAddrPlus1 bb);
     let result = replicate bbnumInsns False;
     regs \<leftarrow> (if includeControlDependencies \<and> numInsnBytesToSkipAtEnd = 0
              then factorInControlDependencyInRegsToSlice regsToSlice theCodeChunk (bb_startAddr bb) (getEndAddrPlus1 bb)
              else Some regsToSlice);
     assert (numInsnBytesToSkipAtEnd = 0);
     (if rs_isempty regs then Some (result, regs)
      else do { assert (bbnumInsns > 0); slice_loop theCodeChunk (bbnumInsns - 1) regs result })
   }"

section \<open>Liveness\<close>

text \<open>
  What the analysis should compute: an instruction makes live what it uses, after its writes have made
  dead what it surely overwrites; before that come the effects of a call. The two bits of a register
  set that stand for no register are left out.
\<close>

definition bits :: "x86_reg_set \<Rightarrow> reg_bit set" where
  "bits s = {x. rs_mem s x} - {IntBit 30, IntBit 31}"

definition df_map :: "dataflow_fn \<Rightarrow> reg_bit set \<Rightarrow> reg_bit set" where
  "df_map f L = (L \<inter> bits (thru (df_data f))) \<union> bits (gen (df_data f))"

definition call_live :: "call_oracle \<Rightarrow> kptr \<Rightarrow> x86_instr \<Rightarrow> reg_bit set \<Rightarrow> reg_bit set" where
  "call_live c a i L =
     (let d = insn_destAddr i a in
      if d = 0 then L else df_map (if d = -1 then whenDestAddrIsUnknown c else whenDestAddrIsKnown c d) L)"

definition insn_live :: "call_oracle \<Rightarrow> kptr \<Rightarrow> x86_instr \<Rightarrow> reg_bit set \<Rightarrow> reg_bit set" where
  "insn_live c a i L =
     (let ru = getRegisterUsage i in
      bits (definitelyUsedBeforeWritten ru) \<union> bits (maybeUsedBeforeWritten ru) \<union>
      (call_live c a i L - bits (definitelyWritten ru)))"

primrec block_live :: "call_oracle \<Rightarrow> kptr \<Rightarrow> x86_instr list \<Rightarrow> reg_bit set \<Rightarrow> reg_bit set" where
  "block_live c a [] L = L"
| "block_live c a (i # is) L = insn_live c a i (block_live c (a + getNumBytes i) is L)"

definition usage_wf :: "x86_instr \<Rightarrow> bool" where
  "usage_wf i \<longleftrightarrow> (let ru = getRegisterUsage i in
     rs_wf (definitelyUsedBeforeWritten ru) \<and> rs_wf (maybeUsedBeforeWritten ru) \<and> rs_wf (definitelyWritten ru))"

definition oracle_wf :: "call_oracle \<Rightarrow> bool" where
  "oracle_wf c \<longleftrightarrow> df_wf (getOptimisticDataflowFn c) \<and> (\<forall>a. df_wf (getPessimisticDataflowFn c a)) \<and>
     (\<forall>a. df_wf (whenDestAddrIsKnown c a))"

lemma bits_iff: "x \<in> bits s \<longleftrightarrow> rs_mem s x \<and> x \<notin> {IntBit 30, IntBit 31}"
  by (simp add: bits_def)

lemma bits_apply: "bits (df_apply f s) = df_map f (bits s)"
  by (auto simp: df_apply_def mw_apply_def df_map_def bits_iff mem_laws)

lemma bits_compose:
  assumes "df_wf f" and "df_wf g" and "rs_ok s"
  shows "bits (df_apply (df_compose f g) s) = df_map f (bits (df_apply g s))"
  using apply_compose [OF df_okD [OF assms(1)] df_okD [OF assms(2)] assms(3)]
  by (simp add: df_compose_def df_of_window_def df_apply_def bits_apply [unfolded df_apply_def])

lemma bits_startSet: "df_wf f \<Longrightarrow> rs_wf r \<Longrightarrow> bits (df_apply (df_startSet f r) s) = bits r \<union> bits (df_apply f s)"
  by (auto simp: bits_iff df_apply_def df_startSet_def mw_set_members(1))

lemma bits_stopSet: "df_wf f \<Longrightarrow> rs_wf r \<Longrightarrow> bits (df_apply (df_stopSet f r) s) = bits (df_apply f s) - bits r"
  by (auto simp: bits_iff df_apply_def df_stopSet_def mw_set_members(2))

lemma df_wf_sets: "df_wf f \<Longrightarrow> rs_wf r \<Longrightarrow> df_wf (df_startSet f r)" "df_wf f \<Longrightarrow> rs_wf r \<Longrightarrow> df_wf (df_stopSet f r)"
  by (simp_all add: df_startSet_def df_stopSet_def mw_wf_sets)

lemma df_wf_compose: "df_wf f \<Longrightarrow> df_wf g \<Longrightarrow> df_wf (df_compose f g)"
  by (simp add: df_compose_def df_of_window_def mw_wf_ops)

lemma rs_mem_full: "rs_mem rs_full x \<longleftrightarrow> x \<in> reg_bits - {IntBit 30, IntBit 31}"
proof -
  have ones: "(0xffffffffffffffff :: u64) = -1" "(0xffffffff :: u32) = -1" by simp_all
  have "bit (-1 :: u64) n \<longleftrightarrow> n < 64" "bit (-1 :: u32) n \<longleftrightarrow> n < 32" for n by (simp_all add: bit_minus_1_iff possible_bit_def)
  then show ?thesis
    unfolding rs_full_def ones by (cases x) (auto simp: bit_fullIntRegMask bit_clear_padding)
qed

lemma bits_pass: "rs_ok s \<Longrightarrow> bits (df_apply passAllRegs s) = bits s"
  unfolding bits_apply
  by (auto simp: df_map_def passAllRegs_def df_of_window_def mbdf_window_bools_def bits_iff rs_mem_full dest: xr.mem_U)

lemma insn_effect_live:
  assumes c: "oracle_wf c" and u: "usage_wf i" and r: "df_wf r"
  shows "df_wf (insn_effect c a i r)"
    and "rs_ok s \<Longrightarrow> bits (df_apply (insn_effect c a i r) s) = insn_live c a i (bits (df_apply r s))"
proof -
  let ?d = "insn_destAddr i a"
  let ?e = "if ?d = -1 then whenDestAddrIsUnknown c else whenDestAddrIsKnown c ?d"
  let ?r = "if ?d \<noteq> 0 then df_compose ?e r else r"
  have e: "df_wf ?e" using c by (simp add: oracle_wf_def whenDestAddrIsUnknown_def)
  then have r1: "df_wf ?r" using r by (simp add: df_wf_compose)
  note u' = u [unfolded usage_wf_def Let_def]
  show "df_wf (insn_effect c a i r)" using r1 u' by (simp add: insn_effect_def Let_def df_wf_sets)
  assume s: "rs_ok s"
  have "bits (df_apply ?r s) = call_live c a i (bits (df_apply r s))"
    using bits_compose [OF e r s] by (simp add: call_live_def Let_def)
  then show "bits (df_apply (insn_effect c a i r) s) = insn_live c a i (bits (df_apply r s))"
    using r1 u' by (auto simp: insn_effect_def insn_live_def Let_def bits_startSet bits_stopSet df_wf_sets)
qed

lemma block_live_snoc:
  "block_live c a (is @ [i]) L = block_live c a is (insn_live c (a + of_nat (bytes_of is)) i L)"
  by (induction "is" arbitrary: a) (simp_all add: add.assoc)

lemma live_loop_live:
  assumes c: "oracle_wf c" and u: "list_all usage_wf is"
  shows "stop + n < length is \<Longrightarrow> df_wf r \<Longrightarrow> addr = a + of_nat (bytes_of (take (Suc n) (drop stop is))) \<Longrightarrow>
    df_wf (live_loop c is stop a n addr r) \<and>
    (rs_ok s \<longrightarrow> bits (df_apply (live_loop c is stop a n addr r) s) =
       block_live c a (take (Suc n) (drop stop is)) (bits (df_apply r s)))"
proof (induction n arbitrary: addr r)
  case 0
  have "take (Suc 0) (drop stop is) = [is ! stop]" using 0 by (simp add: take_Suc_conv_app_nth)
  then show ?case
    using insn_effect_live [OF c _ 0(2), of "is ! stop"] u 0(1) by (simp add: list_all_length)
next
  case (Suc n)
  let ?i = "is ! (stop + Suc n)" and ?xs = "take (Suc n) (drop stop is)"
  have sn: "take (Suc (Suc n)) (drop stop is) = ?xs @ [?i]"
    using Suc.prems(1) by (subst take_Suc_conv_app_nth) simp_all
  have addr: "addr - getNumBytes ?i = a + of_nat (bytes_of ?xs)"
    unfolding Suc.prems(3) sn by simp
  have i: "usage_wf ?i" using u Suc.prems(1) by (simp add: list_all_length)
  note e = insn_effect_live [OF c i Suc.prems(2)]
  show ?case
    using Suc.IH [OF _ e(1) addr, of "addr - getNumBytes ?i"] Suc.prems(1) e(2) [of s] addr unfolding sn block_live_snoc
    by (simp add: Let_def)
qed

lemma find_start_found:
  "stop + n \<le> len \<Longrightarrow> 1 < n \<Longrightarrow> stop < ndx \<Longrightarrow> ndx < stop + n \<Longrightarrow> find_start len stop n ndx True = Some (stop + n - 1)"
proof (induction "stop + n - ndx" arbitrary: ndx)
  case (Suc d)
  then show ?case by (subst find_start.simps) auto
qed simp

lemma find_start_eq:
  "0 < n \<Longrightarrow> stop + n \<le> len \<Longrightarrow> ndx \<le> stop \<Longrightarrow> find_start len stop n ndx False = Some (stop + n - 1)"
proof (induction "stop - ndx" arbitrary: ndx)
  case 0
  then show ?case using find_start_found [of stop n len "stop + 1"] by (subst find_start.simps) auto
next
  case (Suc d)
  then show ?case by (subst find_start.simps) auto
qed

lemma block_at_analysis:
  assumes b: "block_at cs k i n bb" and s: "edges_ok (bb_s bb)" "bb_succs bb \<noteq> []"
  shows "doLiveRegAnalysisWholeBlock bb cs c =
    Some (live_loop c (the_insns (theCode (cs ! k))) i (bb_startAddr bb) (n - 1) (getEndAddrPlus1 bb) passAllRegs)"
proof -
  note chunk = block_at_chunk [OF b]
  have n: "0 < n" "i + n \<le> length (the_insns (theCode (cs ! k)))" using b by (simp_all add: block_at_def Let_def)
  have "numInsnBytesInBB bb > 0"
    using block_at_bounds(3) [OF b] b by (simp add: block_at_def Let_def word_less_nat_alt)
  moreover have "fn_enclosesRange cs (bb_startAddr bb) (getEndAddrPlus1 bb) = Some True"
    using chunk by (simp add: fn_enclosesRange_def)
  ultimately show ?thesis
    using chunk n find_start_eq [OF n(1,2), of 0] numSuccessors_eq [OF s(1)] getsucc_eq [OF s(1), of 0] s(2)
    by (simp add: doLiveRegAnalysisWholeBlock_def doLiveRegAnalysis_def arch_doLiveRegAnalysis_def
        getEndAddrPlus1_def [symmetric] getIdentityDataflowFn_def)
qed

lemma whole_block_live:
  assumes b: "block_at cs k i n bb" and s: "edges_ok (bb_s bb)" "bb_succs bb \<noteq> []"
    and c: "oracle_wf c" and u: "list_all usage_wf (the_insns (theCode (cs ! k)))"
  shows "\<exists>f. doLiveRegAnalysisWholeBlock bb cs c = Some f \<and> df_wf f \<and>
    (\<forall>s. rs_ok s \<longrightarrow> bits (df_apply f s) =
       block_live c (bb_startAddr bb) (take n (drop i (the_insns (theCode (cs ! k))))) (bits s))"
proof -
  let ?is = "the_insns (theCode (cs ! k))"
  have n: "0 < n" "i + n \<le> length ?is" using b by (simp_all add: block_at_def Let_def)
  have hi: "getEndAddrPlus1 bb = bb_startAddr bb + of_nat (bytes_of (take n (drop i ?is)))"
    by (rule word_of_unat_sum [OF block_at_bounds(2) [OF b]])
  show ?thesis
    unfolding block_at_analysis [OF b s]
    using live_loop_live [OF c u, of i "n - 1" passAllRegs "getEndAddrPlus1 bb" "bb_startAddr bb"] n hi df_wf_consts(1) bits_pass
    by simp
qed

section \<open>Slices keep the values of the sliced registers\<close>

text \<open>
  An abstract machine: \<open>exec\<close> gives the register values after an instruction. It respects the register
  usage of the instruction when other registers keep their values and the new ones depend on the used
  registers only (the program counter, which the slice does not track, left out).
\<close>

type_synonym 'v regfile = "reg_bit \<Rightarrow> 'v"

definition used_bits :: "x86_instr \<Rightarrow> reg_bit set" where
  "used_bits i = (let ru = getRegisterUsage i in
     bits (definitelyUsedBeforeWritten ru) \<union> bits (maybeUsedBeforeWritten ru)) - {MiscBit 29}"

definition respects_usage :: "(x86_instr \<Rightarrow> 'v regfile \<Rightarrow> 'v regfile) \<Rightarrow> x86_instr \<Rightarrow> bool" where
  "respects_usage exec i \<longleftrightarrow> (let ru = getRegisterUsage i in
     (\<forall>\<sigma> x. x \<notin> bits (definitelyWritten ru) \<union> bits (maybeWritten ru) \<longrightarrow> exec i \<sigma> x = \<sigma> x) \<and>
     (\<forall>\<sigma> \<tau> x. (\<forall>y \<in> used_bits i. \<sigma> y = \<tau> y) \<longrightarrow>
        x \<in> bits (definitelyWritten ru) \<or> x \<in> bits (maybeWritten ru) \<and> \<sigma> x = \<tau> x \<longrightarrow> exec i \<sigma> x = exec i \<tau> x))"

definition agree :: "reg_bit set \<Rightarrow> 'v regfile \<Rightarrow> 'v regfile \<Rightarrow> bool" where
  "agree R \<sigma> \<tau> \<longleftrightarrow> (\<forall>x \<in> R. \<sigma> x = \<tau> x)"

definition usage_all_wf :: "x86_instr \<Rightarrow> bool" where
  "usage_all_wf i \<longleftrightarrow> usage_wf i \<and> rs_wf (maybeWritten (getRegisterUsage i))"

definition in_slice :: "bool list \<Rightarrow> x86_instr list \<Rightarrow> x86_instr list" where
  "in_slice fl is = map snd (filter fst (zip fl is))"

lemma wf_ignore: "rs_wf regsThatIgnoreWrites"
  by (intro rs_wfI) (simp_all add: regsThatIgnoreWrites_def rs_raw_def)

lemma bits_ignore: "x \<in> bits regsThatIgnoreWrites \<longleftrightarrow> x = MiscBit 29"
proof -
  have e: "(0x20000000 :: u32) = push_bit 29 1" by simp
  have "bit (0x20000000 :: u32) n \<longleftrightarrow> n = 29" for n
    unfolding e bit_push_bit_iff by (auto simp: bit_1_iff possible_bit_def)
  then show ?thesis
    unfolding bits_iff regsThatIgnoreWrites_def rs_raw_def by (cases x) (auto simp: bit_clear_padding)
qed

lemma bits_ops:
  "bits (rs_or s t) = bits s \<union> bits t" "bits (rs_and s t) = bits s \<inter> bits t"
  "rs_wf s \<Longrightarrow> rs_wf t \<Longrightarrow> bits (rs_minus s t) = bits s - bits t"
  by (auto simp: bits_iff mem_laws rs_minus_iff)

lemma bits_nonempty: "x \<in> bits s \<Longrightarrow> \<not> rs_isempty s"
  by (auto simp: rs_isempty_mem bits_iff)

lemma slice_insn_wf: "usage_all_wf i \<Longrightarrow> rs_wf R \<Longrightarrow> rs_wf (snd (slice_insn i R))"
  by (auto simp: slice_insn_def usage_all_wf_def usage_wf_def Let_def wf_laws)

lemma slice_insn_sound:
  assumes u: "usage_all_wf i" and R: "rs_wf R" and e: "respects_usage exec i"
    and ag: "agree (bits (snd (slice_insn i R))) \<sigma> \<tau>"
  shows "agree (bits R) (exec i \<sigma>) (if fst (slice_insn i R) then exec i \<tau> else \<tau>)"
proof -
  define ru where "ru = getRegisterUsage i"
  define D where "D = bits (definitelyWritten ru)"
  define M where "M = bits (maybeWritten ru)"
  define R' where "R' = snd (slice_insn i R)"
  have wf: "rs_wf (definitelyUsedBeforeWritten ru)" "rs_wf (maybeUsedBeforeWritten ru)" "rs_wf (definitelyWritten ru)"
    "rs_wf (maybeWritten ru)" using u by (simp_all add: usage_all_wf_def usage_wf_def ru_def Let_def)
  have keep: "x \<in> bits R'" if "x \<in> bits R" "x \<notin> D" for x
    using that wf R by (auto simp: R'_def slice_insn_def ru_def [symmetric] D_def Let_def bits_ops wf_laws wf_ignore)
  have used: "used_bits i \<subseteq> bits R'" if "fst (slice_insn i R)"
    using that wf R
    by (auto simp: R'_def slice_insn_def used_bits_def ru_def [symmetric] Let_def bits_ops wf_laws wf_ignore bits_ignore)
  have out: "fst (slice_insn i R)" if "x \<in> bits R" "x \<in> D \<union> M" for x
    using that bits_nonempty [of x "rs_and (definitelyWritten ru) R"] bits_nonempty [of x "rs_and (maybeWritten ru) R"]
    by (auto simp: slice_insn_def ru_def [symmetric] D_def M_def Let_def bits_ops)
  have same: "exec i \<sigma> x = \<sigma> x" if "x \<notin> D \<union> M" for \<sigma> x
    using e that by (auto simp: respects_usage_def ru_def D_def M_def Let_def)
  have dep: "exec i \<sigma> x = exec i \<tau> x" if "agree (used_bits i) \<sigma> \<tau>" "x \<in> D \<or> x \<in> M \<and> \<sigma> x = \<tau> x" for x
    using e that unfolding respects_usage_def agree_def ru_def D_def M_def Let_def by blast
  show ?thesis
    unfolding agree_def
  proof
    fix x assume x: "x \<in> bits R"
    have eq: "x \<notin> D \<Longrightarrow> \<sigma> x = \<tau> x" using ag keep [OF x] by (simp add: agree_def R'_def)
    show "exec i \<sigma> x = (if fst (slice_insn i R) then exec i \<tau> else \<tau>) x"
    proof (cases "x \<in> D \<union> M")
      case True
      then have "agree (used_bits i) \<sigma> \<tau>" using used [OF out [OF x True]] ag by (auto simp: agree_def R'_def)
      then show ?thesis using dep [of x] True eq out [OF x True] by auto
    next
      case False
      then show ?thesis using same [OF False] eq by simp
    qed
  qed
qed

lemma in_slice_snoc:
  "length fl = length is \<Longrightarrow> in_slice (fl @ [b]) (is @ [i]) = in_slice fl is @ (if b then [i] else [])"
  by (simp add: in_slice_def)

lemma get1InsnByNdx_eq:
  assumes "l < length (the_insns (theCode ch))"
  shows "get1InsnByNdx ch l = Some (the_insns (theCode ch) ! l)"
proof -
  have "the_insns (theCode ch) \<noteq> []" using assms by auto
  then show ?thesis using assms by (simp add: get1InsnByNdx_def get_by_ndx_def)
qed

declare slice_loop.simps [simp del]

lemma slice_loop_step:
  assumes "\<not> rs_isempty R" and "l < length (the_insns (theCode ch))"
  defines "p \<equiv> slice_insn (the_insns (theCode ch) ! l) R"
  shows "slice_loop ch l R fl =
    (case l of 0 \<Rightarrow> Some (if fst p then fl[l := True] else fl, snd p)
     | Suc m \<Rightarrow> slice_loop ch m (snd p) (if fst p then fl[l := True] else fl))"
  using assms(1) get1InsnByNdx_eq [OF assms(2)] unfolding p_def
  by (simp add: slice_loop.simps [of ch l] split_beta Let_def)

text \<open>One more instruction at the end: the slice of the first ones for the registers it needs suffices.\<close>

lemma slice_extend:
  assumes u: "usage_all_wf (is ! l)" and e: "respects_usage exec (is ! l)" and R: "rs_wf R"
    and len: "l < length is" "l < length fl" and flag: "fl ! l = fst (slice_insn (is ! l) R)"
    and ag: "agree (bits (snd (slice_insn (is ! l) R))) (fold exec (take l is) \<sigma>) (fold exec (in_slice (take l fl) (take l is)) \<tau>)"
  shows "agree (bits R) (fold exec (take (Suc l) is) \<sigma>) (fold exec (in_slice (take (Suc l) fl) (take (Suc l) is)) \<tau>)"
proof -
  have "in_slice (take (Suc l) fl) (take (Suc l) is) = in_slice (take l fl) (take l is) @ (if fl ! l then [is ! l] else [])"
    unfolding take_Suc_conv_app_nth [OF len(1)] take_Suc_conv_app_nth [OF len(2)] using len by (intro in_slice_snoc) simp
  then show ?thesis
    using slice_insn_sound [OF u R e ag] by (simp add: take_Suc_conv_app_nth [OF len(1)] flag split: if_splits)
qed

definition slice_ok ::
  "(x86_instr \<Rightarrow> 'v regfile \<Rightarrow> 'v regfile) \<Rightarrow> x86_instr list \<Rightarrow> x86_reg_set \<Rightarrow> bool list \<Rightarrow> x86_reg_set \<Rightarrow> bool" where
  "slice_ok exec is R fl R' \<longleftrightarrow>
     (\<forall>\<sigma> \<tau>. agree (bits R') \<sigma> \<tau> \<longrightarrow> agree (bits R) (fold exec is \<sigma>) (fold exec (in_slice fl is) \<tau>))"

lemma slice_ok_empty: "rs_isempty R \<Longrightarrow> slice_ok exec is R fl R'"
  by (auto simp: slice_ok_def agree_def rs_isempty_mem bits_iff)

lemma slice_loop_sound:
  assumes u: "list_all usage_all_wf (the_insns (theCode ch))"
    and e: "list_all (respects_usage exec) (the_insns (theCode ch))"
  defines "is \<equiv> the_insns (theCode ch)"
  shows "l < length is \<Longrightarrow> l < length fl \<Longrightarrow> rs_wf R \<Longrightarrow> \<forall>j \<le> l. \<not> fl ! j \<Longrightarrow>
    \<exists>fl' R'. slice_loop ch l R fl = Some (fl', R') \<and> length fl' = length fl \<and>
      (\<forall>j > l. fl' ! j = fl ! j) \<and> slice_ok exec (take (Suc l) is) R (take (Suc l) fl') R'"
proof (induction l arbitrary: fl R)
  case (0 fl R)
  let ?p = "slice_insn (is ! 0) R" and ?fl = "if fst (slice_insn (is ! 0) R) then fl[0 := True] else fl"
  have i: "usage_all_wf (is ! 0)" "respects_usage exec (is ! 0)" using u e 0(1) by (simp_all add: list_all_length is_def)
  show ?case
  proof (cases "rs_isempty R")
    case False
    have "slice_ok exec (take (Suc 0) is) R (take (Suc 0) ?fl) (snd ?p)"
      unfolding slice_ok_def
      by (intro allI impI slice_extend [OF i 0(3,1)]) (use 0 in \<open>simp_all add: in_slice_def\<close>)
    then show ?thesis using slice_loop_step [OF False, of 0 ch fl] 0(1,2) by (auto simp: is_def [symmetric])
  qed (simp add: slice_loop.simps slice_ok_empty)
next
  case (Suc l fl R)
  let ?i = "is ! Suc l" and ?p = "slice_insn (is ! Suc l) R"
  let ?fl = "if fst ?p then fl[Suc l := True] else fl"
  have i: "usage_all_wf ?i" "respects_usage exec ?i" using u e Suc.prems(1) by (simp_all add: list_all_length is_def)
  show ?case
  proof (cases "rs_isempty R")
    case False
    have "\<forall>j \<le> l. \<not> ?fl ! j" "l < length ?fl" "l < length is" using Suc.prems(1,2,4) by simp_all
    with Suc.IH [of ?fl "snd ?p"] slice_insn_wf [OF i(1) Suc.prems(3)] obtain fl' R' where
      s: "slice_loop ch l (snd ?p) ?fl = Some (fl', R')" "length fl' = length ?fl" "\<forall>j > l. fl' ! j = ?fl ! j"
        "slice_ok exec (take (Suc l) is) (snd ?p) (take (Suc l) fl') R'"
      by blast
    have flag: "fl' ! Suc l = fst ?p" using s(3) Suc.prems(2,4) by simp
    have "slice_ok exec (take (Suc (Suc l)) is) R (take (Suc (Suc l)) fl') R'"
      unfolding slice_ok_def
      by (intro allI impI slice_extend [OF i Suc.prems(3,1) _ flag])
        (use s(2,4) Suc.prems(2) in \<open>auto simp: slice_ok_def\<close>)
    moreover have "slice_loop ch (Suc l) R fl = Some (fl', R')"
      using slice_loop_step [OF False, of "Suc l" ch fl] s(1) Suc.prems(1) by (simp add: is_def [symmetric])
    ultimately show ?thesis using s(2,3) by auto
  qed (simp add: slice_loop.simps slice_ok_empty)
qed

text \<open>The block's own registers do not matter: both routines index the instructions of the chunk.\<close>

lemma factor_in_eq:
  assumes b: "block_at cs k i n bb" and R: "rs_wf R"
  shows "\<exists>R1. factorInControlDependencyInRegsToSlice R (cs ! k) (bb_startAddr bb) (getEndAddrPlus1 bb) = Some R1 \<and>
    rs_wf R1 \<and> bits R \<subseteq> bits R1"
proof -
  have n: "0 < n" "n - 1 < length (the_insns (theCode (cs ! k)))" using b by (auto simp: block_at_def Let_def)
  obtain P where P: "rs_of_reg PC = Some P"
    by (simp add: rs_of_reg_def PC_def isNullReg_def nullreg_def isIntReg_def max_int_reg_def isFloatReg_def FP_def)
  then show ?thesis
    using block_at_chunk(7) [OF b] n get1InsnByNdx_eq [OF n(2)] R wf_or [OF R wf_of_reg [OF P]]
    by (auto simp: factorInControlDependencyInRegsToSlice_def rs_or_reg_def Let_def bits_ops)
qed

lemma backwardsSlice_eq:
  assumes b: "block_at cs k i n bb"
    and f: "(if inc then factorInControlDependencyInRegsToSlice R (cs ! k) (bb_startAddr bb) (getEndAddrPlus1 bb) else Some R) = Some R1"
  shows "backwardsSlice bb R inc cs 0 =
    (if rs_isempty R1 then Some (replicate n False, R1) else slice_loop (cs ! k) (n - 1) R1 (replicate n False))"
proof -
  have "0 < n" using b by (simp add: block_at_def Let_def)
  then show ?thesis
    using block_at_chunk(1,7) [OF b] f by (cases inc) (simp_all add: backwardsSlice_def)
qed

section \<open>Properties\<close>


definition demo_usage :: "x86_reg_set \<Rightarrow> x86_reg_set \<Rightarrow> x86_instr" where
  "demo_usage used written = (demo_insn 2)\<lparr>getRegisterUsage :=
     \<lparr>definitelyUsedBeforeWritten = used, maybeUsedBeforeWritten = rs_empty,
      definitelyWritten = written, maybeWritten = rs_empty\<rparr>\<rparr>"

definition demo_ax :: x86_reg_set where "demo_ax = rs_empty\<lparr>int_bits := closeMask 0x10000\<rparr>"
definition demo_bx :: x86_reg_set where "demo_bx = rs_empty\<lparr>int_bits := closeMask 0x80000\<rparr>"

text \<open>A chunk with two instructions, the second of which copies \<open>eBX\<close> to \<open>eAX\<close>.\<close>

definition demo_code :: fnCode where
  "demo_code = [\<lparr>startAddr = 100, theCode = insnVec_of_insns [demo_usage rs_empty rs_empty, demo_usage demo_bx demo_ax]\<rparr>]"

definition demo_block :: "kptr \<Rightarrow> 14 word \<Rightarrow> basicblock" where
  "demo_block a n = \<lparr>bb_startAddr = a, lastInsnAddr = a, numInsnBytesInBB = n, bb_s = edges_rep [xExitBBId], bb_p = edges_rep []\<rparr>"

definition demo_oracle :: call_oracle where
  "demo_oracle = \<lparr>getMergeOp = mergeopBitwiseOr, getOptimisticDataflowFn = stopAllRegs,
     getPessimisticDataflowFn = (\<lambda>_. startAllRegs), whenDestAddrIsKnown = (\<lambda>_. startAllRegs)\<rparr>"

lemma demo_sets_wf: "rs_wf demo_ax" "rs_wf demo_bx"
  by (auto intro!: wf_closeMask simp: demo_ax_def demo_bx_def rs_ok_bits rs_empty_def)

lemma demo_blocks: "block_at demo_code 0 0 2 (demo_block 100 4)" "block_at demo_code 0 1 1 (demo_block 102 2)"
  by (simp_all add: block_at_def demo_code_def demo_block_def fn_ok_def iv_ok_def insnVec_of_insns_def demo_usage_def
      demo_insn_def chunk_end_def numBytes_def)

lemma demo_usage_wf: "list_all usage_all_wf (the_insns (theCode (demo_code ! 0)))"
  by (simp add: demo_code_def insnVec_of_insns_def usage_all_wf_def usage_wf_def demo_usage_def demo_sets_wf)


text \<open>
  C12: The backward slice of a basic block that starts its chunk returns, with one flag per
  instruction, and is sound: on any machine that respects the instructions' register usage, executing
  only the flagged instructions gives the sliced registers the values the whole block gives them,
  provided the registers the slice asks for at the top of the block agree.
\<close>

theorem slice_keeps_values:
  assumes b: "block_at cs k 0 n bb" and R: "rs_wf R"
    and u: "list_all usage_all_wf (the_insns (theCode (cs ! k)))"
    and e: "list_all (respects_usage exec) (the_insns (theCode (cs ! k)))"
  shows "\<exists>fl R'. backwardsSlice bb R inc cs 0 = Some (fl, R') \<and> length fl = n \<and>
    slice_ok exec (take n (the_insns (theCode (cs ! k)))) R fl R'"
proof -
  let ?is = "the_insns (theCode (cs ! k))"
  have n: "n - 1 < length ?is" "Suc (n - 1) = n" using b by (auto simp: block_at_def Let_def)
  obtain R1 where R1: "(if inc then factorInControlDependencyInRegsToSlice R (cs ! k) (bb_startAddr bb) (getEndAddrPlus1 bb)
      else Some R) = Some R1" "rs_wf R1" "bits R \<subseteq> bits R1"
    using factor_in_eq [OF b R] R by (cases inc) auto
  have weaken: "slice_ok exec is R fl R'" if "slice_ok exec is R1 fl R'" for "is" fl R'
    using that R1(3) unfolding slice_ok_def agree_def by blast
  show ?thesis
  proof (cases "rs_isempty R1")
    case True
    then show ?thesis using backwardsSlice_eq [OF b R1(1)] weaken [OF slice_ok_empty [OF True]] by simp
  next
    case False
    obtain fl R' where "slice_loop (cs ! k) (n - 1) R1 (replicate n False) = Some (fl, R')" "length fl = n"
      "slice_ok exec (take n ?is) R1 (take n fl) R'"
      using slice_loop_sound [OF u e n(1), of "replicate n False" R1] R1(2) n(2) by force
    then show ?thesis using backwardsSlice_eq [OF b R1(1)] False weaken by auto
  qed
qed

definition demo_exec :: "x86_instr \<Rightarrow> nat regfile \<Rightarrow> nat regfile" where
  "demo_exec i \<sigma> = (\<lambda>x. if x \<in> bits (definitelyWritten (getRegisterUsage i))
     then (if IntBit 19 \<in> used_bits i then \<sigma> (IntBit 19) else 0) else \<sigma> x)"

theorem slice_keeps_values_witness:
  "\<exists>fl R'. backwardsSlice (demo_block 100 4) demo_ax False demo_code 0 = Some (fl, R') \<and> length fl = 2 \<and>
     slice_ok demo_exec (take 2 (the_insns (theCode (demo_code ! 0)))) demo_ax fl R'"
proof -
  have "respects_usage demo_exec i" for i by (auto simp: respects_usage_def demo_exec_def Let_def)
  then have "list_all (respects_usage demo_exec) is" for "is" by (induction "is") simp_all
  from slice_keeps_values [OF demo_blocks(1) demo_sets_wf(1) demo_usage_wf this] show ?thesis .
qed

text \<open>
  The slice of a basic block looks at the first instructions of the chunk, not at those of the
  block: when the former write no register, the slice is empty whatever the block does.
\<close>

theorem slice_of_wrong_instructions:
  assumes b: "block_at cs k i n bb"
    and quiet: "\<And>j. j < n \<Longrightarrow> rs_isempty (definitelyWritten (getRegisterUsage (the_insns (theCode (cs ! k)) ! j))) \<and>
      rs_isempty (maybeWritten (getRegisterUsage (the_insns (theCode (cs ! k)) ! j)))"
  shows "backwardsSlice bb R False cs 0 = Some (replicate n False, R)"
proof -
  let ?is = "the_insns (theCode (cs ! k))"
  have n: "0 < n" "n \<le> length ?is" using b by (simp_all add: block_at_def Let_def)
  have "rs_isempty (rs_and s R)" if "rs_isempty s" for s
    using that by (simp add: rs_isempty_mem xr.mem_inter)
  then have none: "slice_insn (?is ! j) R = (False, R)" if "j < n" for j
    using quiet [OF that] by (simp add: slice_insn_def Let_def)
  have "slice_loop (cs ! k) l R fl = Some (fl, R)" if "l < n" "\<not> rs_isempty R" for l fl
    using that(1)
  proof (induction l)
    case 0
    moreover have "0 < length ?is" using n by linarith
    ultimately show ?case using slice_loop_step [OF that(2), of 0 "cs ! k" fl] none [of 0] by simp
  next
    case (Suc l)
    moreover have "Suc l < length ?is" using Suc.prems n by linarith
    ultimately show ?case using slice_loop_step [OF that(2), of "Suc l" "cs ! k" fl] none [of "Suc l"] by simp
  qed
  then show ?thesis using backwardsSlice_eq [OF b, of False R R] n(1) by simp
qed

theorem slice_of_wrong_instructions_witness:
  "backwardsSlice (demo_block 102 2) demo_ax False demo_code 0 = Some ([False], demo_ax) \<and>
   definitelyWritten (getRegisterUsage (the_insns (theCode (demo_code ! 0)) ! 1)) = demo_ax"
proof -
  have "backwardsSlice (demo_block 102 2) demo_ax False demo_code 0 = Some (replicate 1 False, demo_ax)"
    by (rule slice_of_wrong_instructions [OF demo_blocks(2)])
      (simp_all add: demo_code_def insnVec_of_insns_def demo_usage_def rs_isempty_def rs_empty_def)
  then show ?thesis by (simp add: demo_code_def insnVec_of_insns_def demo_usage_def)
qed

end
