(* ===== verification/BlockTable.thy ===== *)
theory BlockTable
  imports BasicBlock
begin

text \<open>
  The basic blocks of a function (class \<open>function_t\<close>, \<open>kerninstd/function/src/funkshun.C\<close>, \<open>funkshun.h\<close> and
  \<open>x86_funkshun.C\<close>): the vector of blocks, the block ids in address order with a tail of ids not yet
  sorted, the binary searches by address, and the splitting of a block. An access outside of a vector
  is an abort, and the assertions under \<open>_DO_EVEN_EXPENSIVE_ASSERTS_\<close> are off, as in the build.
\<close>

section \<open>Functions\<close>

datatype regAnalysisFnDFSstates = unvisited | visitedButNotCompleted | completed

record function_t =
  entryAddr :: kptr
  origCode :: fnCode
  primary_name :: string
  alternate_names :: "string list"
  basic_blocks :: "basicblock list"
  sorted_blocks :: "u16 list"
  unsorted_blocks :: "u16 list"
  regAnalysisDFSstate :: regAnalysisFnDFSstates
  liveRegisters :: "dataflow_fn list"
  blocksHavingInterProcFallThru :: "u16 list"

definition fn_new :: "kptr \<Rightarrow> string \<Rightarrow> function_t" where
  "fn_new iEntryAddr fnName =
     \<lparr>entryAddr = iEntryAddr, origCode = [], primary_name = fnName, alternate_names = [], basic_blocks = [],
      sorted_blocks = [], unsorted_blocks = [], regAnalysisDFSstate = unvisited, liveRegisters = [],
      blocksHavingInterProcFallThru = []\<rparr>"

definition fn_new_names :: "kptr \<Rightarrow> string list \<Rightarrow> function_t option" where
  "fn_new_names iEntryAddr fnNames =
     (case fnNames of
        [] \<Rightarrow> None
      | name # names \<Rightarrow> Some ((fn_new iEntryAddr name)\<lparr>alternate_names := names\<rparr>))"

definition fnHasAlternateName :: "function_t \<Rightarrow> string \<Rightarrow> function_t" where
  "fnHasAlternateName fn alternate_name = fn\<lparr>alternate_names := alternate_names fn @ [alternate_name]\<rparr>"

definition fnHasSeveralAlternateNames :: "function_t \<Rightarrow> string list \<Rightarrow> function_t option" where
  "fnHasSeveralAlternateNames fn newlyAddedAltNames = do {
     assert (length newlyAddedAltNames > 0);
     Some (fn\<lparr>alternate_names := alternate_names fn @ newlyAddedAltNames\<rparr>)
   }"

definition getAliasName :: "function_t \<Rightarrow> nat \<Rightarrow> string option" where
  "getAliasName fn ndx = do {
     assert (ndx < length (alternate_names fn));
     Some (alternate_names fn ! ndx)
   }"

definition matchesName :: "function_t \<Rightarrow> string \<Rightarrow> bool" where
  "matchesName fn name = (primary_name fn = name \<or> list_ex (\<lambda>n. n = name) (alternate_names fn))"

text \<open>Elements of a vector, by a 16-bit index.\<close>

definition vget :: "'a list \<Rightarrow> u16 \<Rightarrow> 'a option" where
  "vget xs i = (if unat i < length xs then Some (xs ! unat i) else None)"

definition vset :: "'a list \<Rightarrow> u16 \<Rightarrow> 'a \<Rightarrow> 'a list option" where
  "vset xs i x = (if unat i < length xs then Some (xs[unat i := x]) else None)"

definition numBBs :: "function_t \<Rightarrow> nat" where "numBBs fn = length (basic_blocks fn)"

definition isUnparsed :: "function_t \<Rightarrow> bool" where "isUnparsed fn = (length (basic_blocks fn) = 0)"

definition isSorted :: "function_t \<Rightarrow> bool" where "isSorted fn = (length (unsorted_blocks fn) = 0)"

definition containsAddr :: "function_t \<Rightarrow> kptr \<Rightarrow> bool option" where
  "containsAddr fn addr = do { i \<leftarrow> findChunk (origCode fn) addr False; Some (i \<noteq> None) }"

definition isExitId :: "u16 \<Rightarrow> bool" where
  "isExitId i = (i = UnanalyzableBBId \<or> i = xExitBBId \<or> i = interProcBranchExitBBId)"

section \<open>Sorting the blocks\<close>

definition sizes_agree :: "function_t \<Rightarrow> bool" where
  "sizes_agree fn = (length (sorted_blocks fn) + length (unsorted_blocks fn) = length (basic_blocks fn))"

definition assertSorted :: "function_t \<Rightarrow> unit option" where
  "assertSorted fn = do {
     assert (length (unsorted_blocks fn) = 0);
     assert (length (sorted_blocks fn) = length (basic_blocks fn))
   }"

definition start_of :: "function_t \<Rightarrow> u16 \<Rightarrow> kptr" where
  "start_of fn i = bb_startAddr (basic_blocks fn ! unat i)"

text \<open>The binary search for the place of a new block.\<close>

partial_function (option) sort_1_loop :: "function_t \<Rightarrow> kptr \<Rightarrow> nat \<Rightarrow> nat \<Rightarrow> nat option" where
  "sort_1_loop fn new_addr left right =
     (if left = right then Some left
      else do {
        let mid = (left + right) div 2;
        assert (mid < length (sorted_blocks fn));
        bb \<leftarrow> vget (basic_blocks fn) (sorted_blocks fn ! mid);
        if new_addr < bb_startAddr bb then sort_1_loop fn new_addr left mid
        else if new_addr = bb_startAddr bb then None
        else do {
          assert (mid + 1 \<le> right);
          sort_1_loop fn new_addr (mid + 1) right
        }
      })"

definition sort_1 :: "function_t \<Rightarrow> function_t option" where
  "sort_1 fn = do {
     assert (length (unsorted_blocks fn) = 1);
     let new_bb_id = unsorted_blocks fn ! 0;
     new_bb \<leftarrow> vget (basic_blocks fn) new_bb_id;
     left \<leftarrow> sort_1_loop fn (bb_startAddr new_bb) 0 (length (sorted_blocks fn));
     (if left \<noteq> length (sorted_blocks fn) then do {
        bb \<leftarrow> vget (basic_blocks fn) (sorted_blocks fn ! left);
        assert (getEndAddr new_bb < bb_startAddr bb)
      }
      else do {
        assert (sorted_blocks fn \<noteq> []);
        bb \<leftarrow> vget (basic_blocks fn) (last (sorted_blocks fn));
        assert (bb_startAddr new_bb > getEndAddr bb)
      });
     let fn' = fn\<lparr>sorted_blocks := take left (sorted_blocks fn) @ [new_bb_id] @ drop left (sorted_blocks fn),
                  unsorted_blocks := []\<rparr>;
     assert (sizes_agree fn');
     Some fn'
   }"

text \<open>\<open>std::inplace_merge\<close> of two sorted ranges.\<close>

fun merge_by :: "('a \<Rightarrow> 'b :: linorder) \<Rightarrow> 'a list \<Rightarrow> 'a list \<Rightarrow> 'a list" where
  "merge_by f [] ys = ys"
| "merge_by f xs [] = xs"
| "merge_by f (x # xs) (y # ys) = (if f y < f x then y # merge_by f (x # xs) ys else x # merge_by f xs (y # ys))"

definition mergeSort :: "function_t \<Rightarrow> function_t option" where
  "mergeSort fn = do {
     assert (length (unsorted_blocks fn) > 0);
     assert (sizes_agree fn);
     if length (sorted_blocks fn) = 0 \<and> length (unsorted_blocks fn) = 1
     then Some (fn\<lparr>sorted_blocks := unsorted_blocks fn, unsorted_blocks := sorted_blocks fn\<rparr>)
     else if length (unsorted_blocks fn) = 1 then sort_1 fn
     else do {
       assert (list_all (\<lambda>i. unat i < length (basic_blocks fn)) (sorted_blocks fn @ unsorted_blocks fn));
       let unsorted = sort_key (start_of fn) (unsorted_blocks fn);
       if length (sorted_blocks fn) = 0 then Some (fn\<lparr>sorted_blocks := unsorted, unsorted_blocks := sorted_blocks fn\<rparr>)
       else do {
         let fn' = fn\<lparr>sorted_blocks := merge_by (start_of fn) (sorted_blocks fn) unsorted, unsorted_blocks := []\<rparr>;
         assertSorted fn';
         Some fn'
       }
     }
   }"

definition makeSorted :: "function_t \<Rightarrow> function_t option" where
  "makeSorted fn = do {
     assert (sizes_agree fn);
     fn' \<leftarrow> (if length (unsorted_blocks fn) > 0 then mergeSort fn else Some fn);
     assertSorted fn';
     Some fn'
   }"

definition makeSortedIf10 :: "function_t \<Rightarrow> function_t option" where
  "makeSortedIf10 fn = (if length (unsorted_blocks fn) > 10 then makeSorted fn else Some fn)"

section \<open>Searching\<close>

partial_function (option) binary_search_loop :: "function_t \<Rightarrow> kptr \<Rightarrow> nat \<Rightarrow> nat \<Rightarrow> u16 option" where
  "binary_search_loop fn addr left right = do {
     let ndx = (left + right) div 2;
     assert (ndx < length (sorted_blocks fn));
     let bb_id = sorted_blocks fn ! ndx;
     bb \<leftarrow> vget (basic_blocks fn) bb_id;
     if bb_startAddr bb \<le> addr \<and> addr \<le> getEndAddr bb then Some bb_id
     else if addr < bb_startAddr bb then
       (if ndx = 0 then Some (-1)
        else if left > ndx - 1 then Some (-1)
        else binary_search_loop fn addr left (ndx - 1))
     else do {
       assert (addr > getEndAddr bb);
       if ndx + 1 > right then Some (-1)
       else binary_search_loop fn addr (ndx + 1) right
     }
   }"

definition binary_search :: "function_t \<Rightarrow> kptr \<Rightarrow> u16 option" where
  "binary_search fn addr = do {
     assert (length (unsorted_blocks fn) = 0);
     if length (sorted_blocks fn) = 0 then Some (-1)
     else binary_search_loop fn addr 0 (length (sorted_blocks fn) - 1)
   }"

text \<open>The two sorted vectors are mutable, so a search returns the function with them.\<close>

definition searchForBB :: "function_t \<Rightarrow> kptr \<Rightarrow> (u16 \<times> function_t) option" where
  "searchForBB fn addr = do {
     fn' \<leftarrow> makeSorted fn;
     bb_id \<leftarrow> binary_search fn' addr;
     Some (bb_id, fn')
   }"

partial_function (option) first_greater_loop :: "function_t \<Rightarrow> kptr \<Rightarrow> nat \<Rightarrow> nat \<Rightarrow> u16 option" where
  "first_greater_loop fn addr left right = do {
     let mid = (left + right) div 2;
     assert (mid < length (sorted_blocks fn));
     bb \<leftarrow> vget (basic_blocks fn) (sorted_blocks fn ! mid);
     (left', right') \<leftarrow>
       (if bb_startAddr bb \<le> addr \<and> addr \<le> getEndAddr bb then Some (mid + 1, right)
        else if addr < bb_startAddr bb then Some (left, mid)
        else do { assert (addr > getEndAddr bb); Some (mid + 1, right) });
     if left' > right' then Some (-1)
     else if left' = right' then do {
       assert (left' < length (sorted_blocks fn));
       let bb_id = sorted_blocks fn ! left';
       bb' \<leftarrow> vget (basic_blocks fn) bb_id;
       Some (if bb_startAddr bb' > addr then bb_id else -1)
     }
     else first_greater_loop fn addr left' right'
   }"

definition searchForFirstBlockStartAddrGThan :: "function_t \<Rightarrow> kptr \<Rightarrow> (u16 \<times> function_t) option" where
  "searchForFirstBlockStartAddrGThan fn addr = do {
     assert (sizes_agree fn);
     fn' \<leftarrow> makeSorted fn;
     assertSorted fn';
     bb_id \<leftarrow> (if length (sorted_blocks fn') = 0 then Some (-1)
               else first_greater_loop fn' addr 0 (length (sorted_blocks fn') - 1));
     Some (bb_id, fn')
   }"

definition xgetEntryBB :: "function_t \<Rightarrow> (u16 \<times> function_t) option" where
  "xgetEntryBB fn = do {
     fn' \<leftarrow> makeSorted fn;
     i \<leftarrow> vget (sorted_blocks fn') 0;
     Some (i, fn')
   }"

section \<open>Changing the blocks\<close>

definition addBlock_new :: "function_t \<Rightarrow> basicblock \<Rightarrow> (u16 \<times> function_t) option" where
  "addBlock_new fn newbb = do {
     let newbb_id = of_nat (length (basic_blocks fn));
     let fn1 = fn\<lparr>basic_blocks := basic_blocks fn @ [newbb], unsorted_blocks := unsorted_blocks fn @ [newbb_id]\<rparr>;
     assert (sizes_agree fn1);
     fn2 \<leftarrow> makeSortedIf10 fn1;
     Some (newbb_id, fn2)
   }"

text \<open>An operation on the block with a given id.\<close>

definition update_block :: "function_t \<Rightarrow> u16 \<Rightarrow> (basicblock \<Rightarrow> basicblock option) \<Rightarrow> function_t option" where
  "update_block fn bb_id f = do {
     bb \<leftarrow> vget (basic_blocks fn) bb_id;
     bb' \<leftarrow> f bb;
     Some (fn\<lparr>basic_blocks := (basic_blocks fn)[unat bb_id := bb']\<rparr>)
   }"

definition addSuccessorToBlockByIdNoDup :: "function_t \<Rightarrow> u16 \<Rightarrow> u16 \<Rightarrow> function_t option" where
  "addSuccessorToBlockByIdNoDup fn bb_id successor_id = update_block fn bb_id (\<lambda>bb. addSuccessorNoDup bb successor_id)"

definition addSuccessorToBlockByIdUnlessDup :: "function_t \<Rightarrow> u16 \<Rightarrow> u16 \<Rightarrow> (bool \<times> function_t) option" where
  "addSuccessorToBlockByIdUnlessDup fn bb_id successor_id = do {
     bb \<leftarrow> vget (basic_blocks fn) bb_id;
     (added, bb') \<leftarrow> addSuccessorUnlessDup bb successor_id;
     Some (added, fn\<lparr>basic_blocks := (basic_blocks fn)[unat bb_id := bb']\<rparr>)
   }"

definition addPredecessorToBlockByIdUnlessDup :: "function_t \<Rightarrow> u16 \<Rightarrow> u16 \<Rightarrow> (bool \<times> function_t) option" where
  "addPredecessorToBlockByIdUnlessDup fn bb_id pred_id = do {
     bb \<leftarrow> vget (basic_blocks fn) bb_id;
     (added, bb') \<leftarrow> addPredecessorUnlessDup bb pred_id;
     Some (added, fn\<lparr>basic_blocks := (basic_blocks fn)[unat bb_id := bb']\<rparr>)
   }"

text \<open>
  An address without code makes \<open>get1OrigInsn\<close> throw, here \<^term>\<open>Inl\<close>. The raw word the assertion compares
  is 0 in every i386 instruction.
\<close>

definition bumpUpBlockSizeBy1Insn :: "function_t \<Rightarrow> u16 \<Rightarrow> x86_instr \<Rightarrow> (unit + function_t) option" where
  "bumpUpBlockSizeBy1Insn fn bb_id instr = do {
     bb \<leftarrow> vget (basic_blocks fn) bb_id;
     r \<leftarrow> fn_get1Insn (origCode fn) (bb_startAddr bb + ucast (numInsnBytesInBB bb));
     (case r of
        Inl _ \<Rightarrow> Some (Inl ())
      | Inr _ \<Rightarrow> do {
          fn' \<leftarrow> update_block fn bb_id (\<lambda>bb. Some (bumpUpNumInsnsBy1 bb (ucast (getNumBytes instr))));
          Some (Inr fn')
        })
   }"

text \<open>The old successors of a split block get its lower half as predecessor.\<close>

fun fix_preds :: "u16 \<Rightarrow> u16 \<Rightarrow> u16 list \<Rightarrow> function_t \<Rightarrow> function_t option" where
  "fix_preds bb_id new_bb_id [] fn = Some fn"
| "fix_preds bb_id new_bb_id (succ_bb_id # ids) fn =
     (if isExitId succ_bb_id then fix_preds bb_id new_bb_id ids fn
      else do {
        fn' \<leftarrow> update_block fn succ_bb_id (\<lambda>succ_bb. do {
          assert (hasAsAPredecessor succ_bb bb_id);
          replace1Predecessor succ_bb bb_id new_bb_id
        });
        fix_preds bb_id new_bb_id ids fn'
      })"

definition splitBasicBlock :: "function_t \<Rightarrow> u16 \<Rightarrow> kptr \<Rightarrow> (u16 \<times> function_t) option" where
  "splitBasicBlock fn bb_id splitAddr = do {
     parent \<leftarrow> vget (basic_blocks fn) bb_id;
     assert (splitAddr > bb_startAddr parent);
     assert (splitAddr \<le> getEndAddr parent);
     bb \<leftarrow> bb_split bb_id parent splitAddr;
     (new_bb_id, fn1) \<leftarrow> addBlock_new fn bb;
     let endAddr = splitAddr - 1;
     fn2 \<leftarrow> update_block fn1 bb_id (\<lambda>bb. do {
       bb' \<leftarrow> trimNumInsnBytesTo bb (ucast (endAddr - bb_startAddr bb + 1));
       addSuccessorNoDup (clearAllSuccessors bb') new_bb_id
     });
     bb' \<leftarrow> vget (basic_blocks fn2) bb_id;
     newbb \<leftarrow> vget (basic_blocks fn2) new_bb_id;
     assert (unat (numInsnBytesInBB bb') + unat (numInsnBytesInBB newbb) = unat (numInsnBytesInBB parent));
     fn3 \<leftarrow> fix_preds bb_id new_bb_id (bb_succs newbb) fn2;
     Some (new_bb_id, fn3)
   }"

definition ensureBlockStartInsnIsAlsoBlockOnlyInsn :: "function_t \<Rightarrow> kptr \<Rightarrow> x86_instr \<Rightarrow> function_t option" where
  "ensureBlockStartInsnIsAlsoBlockOnlyInsn fn addr i = do {
     (bb_id, fn1) \<leftarrow> searchForBB fn addr;
     assert (bb_id \<noteq> -1);
     bb \<leftarrow> vget (basic_blocks fn1) bb_id;
     assert (bb_startAddr bb = addr);
     assert (ucast (numInsnBytesInBB bb) \<ge> getNumBytes i);
     if ucast (numInsnBytesInBB bb) > getNumBytes i
     then do { (_, fn2) \<leftarrow> splitBasicBlock fn1 bb_id (addr + getNumBytes i); Some fn2 }
     else Some fn1
   }"

definition ensure_start_of_bb :: "function_t \<Rightarrow> kptr \<Rightarrow> function_t option" where
  "ensure_start_of_bb fn destAddr = do {
     (bb_id, fn1) \<leftarrow> searchForBB fn destAddr;
     if bb_id = -1 then Some fn1
     else do {
       bb \<leftarrow> vget (basic_blocks fn1) bb_id;
       if bb_startAddr bb = destAddr then Some fn1
       else do { (_, fn2) \<leftarrow> splitBasicBlock fn1 bb_id destAddr; Some fn2 }
     }
   }"

definition fry :: "function_t \<Rightarrow> function_t" where
  "fry fn = fn\<lparr>basic_blocks := [], sorted_blocks := [], unsorted_blocks := [], liveRegisters := []\<rparr>"

text \<open>The edges of a jump table that turned out to be shorter.\<close>

fun add_all_succs :: "basicblock \<Rightarrow> u16 list \<Rightarrow> basicblock option" where
  "add_all_succs bb [] = Some bb"
| "add_all_succs bb (i # ids) = do { bb' \<leftarrow> addSuccessorNoDup bb i; add_all_succs bb' ids }"

fun erase_preds :: "u16 \<Rightarrow> u16 list \<Rightarrow> function_t \<Rightarrow> function_t option" where
  "erase_preds bb_id [] fn = Some fn"
| "erase_preds bb_id (succ_bb_id # ids) fn = do {
     bb \<leftarrow> vget (basic_blocks fn) bb_id;
     assert (\<not> hasAsASuccessor bb succ_bb_id);
     fn' \<leftarrow> update_block fn succ_bb_id (\<lambda>succbb. erase1Predecessor succbb bb_id);
     erase_preds bb_id ids fn'
   }"

definition has_pred :: "function_t \<Rightarrow> u16 \<Rightarrow> u16 \<Rightarrow> bool" where
  "has_pred fn bb_id i = (case vget (basic_blocks fn) i of None \<Rightarrow> False | Some bb \<Rightarrow> hasAsAPredecessor bb bb_id)"

definition recreateJumpTableEdgesForFewerEntries :: "function_t \<Rightarrow> u16 \<Rightarrow> u16 list \<Rightarrow> function_t option" where
  "recreateJumpTableEdgesForFewerEntries fn bb_id inewSuccessors = do {
     let newSuccessors = remdups_adj (sort inewSuccessors);
     bb \<leftarrow> vget (basic_blocks fn) bb_id;
     assert (list_all (\<lambda>i. hasAsASuccessor bb i \<and> has_pred fn bb_id i) newSuccessors);
     let successorsToRemove = filter (\<lambda>i. i \<notin> set newSuccessors) (bb_succs bb);
     fn1 \<leftarrow> update_block fn bb_id (\<lambda>bb. add_all_succs (clearAllSuccessors bb) newSuccessors);
     fn2 \<leftarrow> erase_preds bb_id successorsToRemove fn1;
     bb' \<leftarrow> vget (basic_blocks fn2) bb_id;
     assert (list_all (has_pred fn2 bb_id) (bb_succs bb'));
     Some fn2
   }"

section \<open>Queries\<close>

definition totalNumBytes_fromBlocks :: "function_t \<Rightarrow> u32" where
  "totalNumBytes_fromBlocks fn = sum_list (map (\<lambda>bb. ucast (numInsnBytesInBB bb)) (basic_blocks fn))"

definition getAllBasicBlockStartAddressesSorted :: "function_t \<Rightarrow> kptr list option" where
  "getAllBasicBlockStartAddressesSorted fn = do {
     assert (length (sorted_blocks fn) = length (basic_blocks fn) \<and> length (unsorted_blocks fn) = 0);
     result \<leftarrow> those (map (\<lambda>bb_id. map_option bb_startAddr (vget (basic_blocks fn) bb_id)) (sorted_blocks fn));
     assert (length result = numBBs fn);
     Some result
   }"

definition getAllBasicBlockIdsSortedByAddress :: "function_t \<Rightarrow> u16 list option" where
  "getAllBasicBlockIdsSortedByAddress fn = do {
     assert (length (sorted_blocks fn) = length (basic_blocks fn) \<and> length (unsorted_blocks fn) = 0);
     assert (length (sorted_blocks fn) = numBBs fn);
     Some (sorted_blocks fn)
   }"

definition markBlockAsHavingInterProcFallThru :: "function_t \<Rightarrow> u16 \<Rightarrow> function_t option" where
  "markBlockAsHavingInterProcFallThru fn bbid = do {
     bb \<leftarrow> vget (basic_blocks fn) bbid;
     assert (hasAsASuccessor bb xExitBBId);
     assert (bbid \<notin> set (blocksHavingInterProcFallThru fn));
     Some (fn\<lparr>blocksHavingInterProcFallThru := blocksHavingInterProcFallThru fn @ [bbid]\<rparr>)
   }"

definition getBBInterProcFallThruAddrIfAny :: "function_t \<Rightarrow> u16 \<Rightarrow> kptr option" where
  "getBBInterProcFallThruAddrIfAny fn bbid =
     (if bbid \<notin> set (blocksHavingInterProcFallThru fn) then Some (-1)
      else do {
        bb \<leftarrow> vget (basic_blocks fn) bbid;
        let result = getEndAddrPlus1 bb;
        inside \<leftarrow> containsAddr fn result;
        assert (\<not> inside);
        Some result
      })"

text \<open>An address without code makes \<open>get1OrigInsn\<close> throw, which nothing here catches.\<close>

definition getBBInterProcBranchDestAddrIfAny :: "function_t \<Rightarrow> u16 \<Rightarrow> kptr option" where
  "getBBInterProcBranchDestAddrIfAny fn bbid = do {
     bb \<leftarrow> vget (basic_blocks fn) bbid;
     lastInsn \<leftarrow> insn_at (origCode fn) (lastInsnAddr bb);
     (case isBranchToFixedAddress lastInsn (lastInsnAddr bb) of
        None \<Rightarrow> Some (-1)
      | Some dest \<Rightarrow> do {
          inside \<leftarrow> containsAddr fn dest;
          assert (\<not> inside);
          Some dest
        })
   }"

definition getCurrEntryPoints :: "function_t \<Rightarrow> kptr list option" where
  "getCurrEntryPoints fn = do {
     (bb_id, fn') \<leftarrow> xgetEntryBB fn;
     bb \<leftarrow> vget (basic_blocks fn') bb_id;
     assert (bb_startAddr bb = entryAddr fn');
     Some [bb_startAddr bb]
   }"

text \<open>The assertion on the destination of a branch tests address 1, or 0 for a branch to 0, as parenthesised.\<close>

fun exit_points_of :: "function_t \<Rightarrow> basicblock \<Rightarrow> u16 list \<Rightarrow> kptr list option" where
  "exit_points_of fn bb [] = Some []"
| "exit_points_of fn bb (succ_bb_id # ids) = do {
     here \<leftarrow>
       (if succ_bb_id = interProcBranchExitBBId then do {
          lastInsn \<leftarrow> insn_at (origCode fn) (lastInsnAddr bb);
          (case isBranchToFixedAddress lastInsn (lastInsnAddr bb) of
             None \<Rightarrow> Some []
           | Some dest \<Rightarrow> do {
               inside \<leftarrow> containsAddr fn (if dest \<noteq> 0 then 1 else 0);
               assert (\<not> inside);
               Some [lastInsnAddr bb]
             })
        }
        else if succ_bb_id = xExitBBId then Some [lastInsnAddr bb]
        else Some []);
     rest \<leftarrow> exit_points_of fn bb ids;
     Some (here @ rest)
   }"

fun getCurrExitPoints_loop :: "function_t \<Rightarrow> basicblock list \<Rightarrow> kptr list option" where
  "getCurrExitPoints_loop fn [] = Some []"
| "getCurrExitPoints_loop fn (bb # bbs) = do {
     assert (bb_succs bb \<noteq> []);
     here \<leftarrow> exit_points_of fn bb (bb_succs bb);
     rest \<leftarrow> getCurrExitPoints_loop fn bbs;
     Some (here @ rest)
   }"

definition getCurrExitPoints :: "function_t \<Rightarrow> kptr list option" where
  "getCurrExitPoints fn = getCurrExitPoints_loop fn (basic_blocks fn)"

section \<open>Tables\<close>

text \<open>Blocks that do not wrap around and do not overlap, as numbers.\<close>

abbreviation bb_start :: "basicblock \<Rightarrow> nat" where "bb_start bb \<equiv> unat (bb_startAddr bb)"
abbreviation bb_size :: "basicblock \<Rightarrow> nat" where "bb_size bb \<equiv> unat (numInsnBytesInBB bb)"

definition bb_fits :: "basicblock \<Rightarrow> bool" where
  "bb_fits bb \<longleftrightarrow> 0 < bb_start bb \<and> bb_start bb + bb_size bb < 2 ^ 32"

definition before :: "basicblock \<Rightarrow> basicblock \<Rightarrow> bool" where
  "before a b \<longleftrightarrow> bb_start a < bb_start b \<and> bb_start a + bb_size a \<le> bb_start b"

definition blocks_apart :: "basicblock list \<Rightarrow> bool" where
  "blocks_apart bbs \<longleftrightarrow> list_all bb_fits bbs \<and> sorted_wrt (\<lambda>a b. before a b \<or> before b a) bbs"

definition table_ok :: "function_t \<Rightarrow> bool" where
  "table_ok fn \<longleftrightarrow> numBBs fn \<le> 65531 \<and> blocks_apart (basic_blocks fn) \<and>
     distinct (sorted_blocks fn @ unsorted_blocks fn) \<and>
     unat ` set (sorted_blocks fn @ unsorted_blocks fn) = {..<numBBs fn} \<and>
     sorted_wrt (\<lambda>i j. start_of fn i < start_of fn j) (sorted_blocks fn)"

definition address_order :: "function_t \<Rightarrow> u16 list" where
  "address_order fn = sort_key (start_of fn) (map of_nat [0..<numBBs fn])"

definition sorted_fn :: "function_t \<Rightarrow> function_t" where
  "sorted_fn fn = fn\<lparr>sorted_blocks := address_order fn, unsorted_blocks := []\<rparr>"

lemma unat16: "n < 65536 \<Longrightarrow> unat (of_nat n :: u16) = n"
  by (simp add: unat_of_nat)

lemma of_nat16_eq: "a < 65536 \<Longrightarrow> b < 65536 \<Longrightarrow> (of_nat a :: u16) = of_nat b \<longleftrightarrow> a = b"
  by (metis unat16)

lemma size14 [simp]: "unat (ucast (numInsnBytesInBB bb) :: u32) = bb_size bb"
  using unat_14 [of "numInsnBytesInBB bb"] by (simp add: unsigned_ucast_eq take_bit_nat_eq_self)

lemma end_addr:
  assumes "bb_fits bb"
  shows "unat (getEndAddrPlus1 bb) = bb_start bb + bb_size bb"
    and "addr \<le> getEndAddr bb \<longleftrightarrow> unat addr < bb_start bb + bb_size bb"
    and "getEndAddr bb < addr \<longleftrightarrow> bb_start bb + bb_size bb \<le> unat addr"
proof -
  show 1: "unat (getEndAddrPlus1 bb) = bb_start bb + bb_size bb"
    using assms by (simp add: getEndAddrPlus1_def bb_fits_def unat_word_ariths)
  have "getEndAddrPlus1 bb \<noteq> 0" using assms 1 by (auto simp: bb_fits_def)
  then have 2: "unat (getEndAddr bb) = bb_start bb + bb_size bb - 1"
    using unat_minus_one [of "getEndAddrPlus1 bb"] 1 by (simp add: getEndAddr_def getEndAddrPlus1_def)
  show "addr \<le> getEndAddr bb \<longleftrightarrow> unat addr < bb_start bb + bb_size bb"
    "getEndAddr bb < addr \<longleftrightarrow> bb_start bb + bb_size bb \<le> unat addr"
    using assms 2 by (auto simp: word_le_nat_alt word_less_nat_alt bb_fits_def)
qed

lemma strict_order_unique:
  fixes f :: "'a \<Rightarrow> 'b :: linorder"
  assumes "sorted_wrt (\<lambda>x y. f x < f y) xs" and "sorted_wrt (\<lambda>x y. f x < f y) ys" and "set xs = set ys"
  shows "xs = ys"
proof -
  have s: "sorted_wrt (<) (map f xs)" "sorted_wrt (<) (map f ys)" using assms(1,2) by (simp_all add: sorted_wrt_map)
  have "map f xs = map f ys" by (rule strict_sorted_equal [OF s(2,1)]) (simp add: assms(3))
  moreover have "inj_on f (set xs \<union> set ys)"
    using s(1) assms(3) by (simp add: strict_sorted_iff distinct_map)
  ultimately show ?thesis by (rule map_inj_on)
qed

lemma table_okD:
  assumes "table_ok fn"
  shows "numBBs fn \<le> 65531" and "i \<in> set (sorted_blocks fn @ unsorted_blocks fn) \<Longrightarrow> unat i < length (basic_blocks fn)"
    and "b < numBBs fn \<Longrightarrow> of_nat b \<in> set (sorted_blocks fn @ unsorted_blocks fn)"
    and "sizes_agree fn"
    and "distinct (sorted_blocks fn @ unsorted_blocks fn)"
    and "sorted_wrt (\<lambda>i j. start_of fn i < start_of fn j) (sorted_blocks fn)"
    and "b < numBBs fn \<Longrightarrow> bb_fits (basic_blocks fn ! b)"
    and "a < numBBs fn \<Longrightarrow> b < numBBs fn \<Longrightarrow> a \<noteq> b \<Longrightarrow>
      before (basic_blocks fn ! a) (basic_blocks fn ! b) \<or> before (basic_blocks fn ! b) (basic_blocks fn ! a)"
proof -
  let ?ids = "sorted_blocks fn @ unsorted_blocks fn"
  note t = assms [unfolded table_ok_def]
  show "numBBs fn \<le> 65531" "distinct ?ids" "sorted_wrt (\<lambda>i j. start_of fn i < start_of fn j) (sorted_blocks fn)"
    using t by simp_all
  show "i \<in> set ?ids \<Longrightarrow> unat i < length (basic_blocks fn)" using t unfolding numBBs_def by blast
  show "of_nat b \<in> set ?ids" if "b < numBBs fn"
  proof -
    have "b \<in> unat ` set ?ids" using that t by blast
    then obtain i where "i \<in> set ?ids" "b = unat i" by blast
    then show ?thesis by simp
  qed
  have "length ?ids = card (unat ` set ?ids)"
    using t by (metis card_image distinct_card inj_on_def word_unat_eq_iff)
  then show "sizes_agree fn" using t by (simp add: sizes_agree_def numBBs_def)
  show "b < numBBs fn \<Longrightarrow> bb_fits (basic_blocks fn ! b)"
    "a < numBBs fn \<Longrightarrow> b < numBBs fn \<Longrightarrow> a \<noteq> b \<Longrightarrow>
      before (basic_blocks fn ! a) (basic_blocks fn ! b) \<or> before (basic_blocks fn ! b) (basic_blocks fn ! a)"
    using t by (auto simp: blocks_apart_def list_all_length numBBs_def sorted_wrt_iff_nth_less elim: linorder_neqE_nat)
qed

lemma start_of_neq:
  assumes t: "table_ok fn" and i: "unat i < numBBs fn" "unat j < numBBs fn" "i \<noteq> j"
  shows "start_of fn i \<noteq> start_of fn j"
  using table_okD(8) [OF t i(1,2)] i(3) by (auto simp: start_of_def before_def word_unat_eq_iff)

lemma address_order:
  assumes t: "table_ok fn"
  shows "sorted_wrt (\<lambda>i j. start_of fn i < start_of fn j) (address_order fn)"
    and "set (address_order fn) = set (sorted_blocks fn @ unsorted_blocks fn)" and "length (address_order fn) = numBBs fn"
    and "distinct (address_order fn)"
proof -
  let ?ids = "map of_nat [0..<numBBs fn] :: u16 list"
  have n: "numBBs fn \<le> 65531" by (rule table_okD(1) [OF t])
  have ids: "unat i < numBBs fn" if "i \<in> set ?ids" for i using that n by (auto simp: unat16)
  have "inj_on (start_of fn) (set ?ids)"
    by (rule inj_onI) (use start_of_neq [OF t] ids in blast)
  moreover have d: "distinct ?ids" using n by (auto simp: distinct_map inj_on_def of_nat16_eq)
  ultimately have "distinct (map (start_of fn) (address_order fn))" by (simp add: address_order_def distinct_map)
  moreover have "sorted (map (start_of fn) (address_order fn))" by (simp add: address_order_def)
  ultimately have "sorted_wrt (<) (map (start_of fn) (address_order fn))" by (simp add: strict_sorted_iff)
  then show "sorted_wrt (\<lambda>i j. start_of fn i < start_of fn j) (address_order fn)" by (simp add: sorted_wrt_map)
  show "length (address_order fn) = numBBs fn" "distinct (address_order fn)" using d by (simp_all add: address_order_def)
  show "set (address_order fn) = set (sorted_blocks fn @ unsorted_blocks fn)"
  proof
    show "set (address_order fn) \<subseteq> set (sorted_blocks fn @ unsorted_blocks fn)"
      using table_okD(3) [OF t] by (auto simp: address_order_def simp del: set_append)
    show "set (sorted_blocks fn @ unsorted_blocks fn) \<subseteq> set (address_order fn)"
    proof
      fix i assume "i \<in> set (sorted_blocks fn @ unsorted_blocks fn)"
      from table_okD(2) [OF t this] show "i \<in> set (address_order fn)"
        by (auto simp: address_order_def numBBs_def image_iff intro!: bexI [of _ "unat i"])
    qed
  qed
qed

lemma sorted_fn_ok: "table_ok fn \<Longrightarrow> table_ok (sorted_fn fn)"
proof -
  assume t: "table_ok fn"
  have "start_of (sorted_fn fn) = start_of fn" by (rule ext) (simp add: sorted_fn_def start_of_def)
  then show ?thesis
    using address_order(1,2,4) [OF t] t by (simp add: table_ok_def sorted_fn_def numBBs_def)
qed

lemma sorted_unique:
  assumes "table_ok fn" and "sorted_wrt (\<lambda>i j. start_of fn i < start_of fn j) ss"
    and "set ss = set (sorted_blocks fn @ unsorted_blocks fn)"
  shows "ss = address_order fn"
  using strict_order_unique [OF assms(2) address_order(1) [OF assms(1)]] address_order(2) [OF assms(1)] assms(3) by simp

section \<open>Sorting\<close>

lemma sort_1_loop_spec:
  assumes ids: "\<And>k. k < length (sorted_blocks fn) \<Longrightarrow> unat (sorted_blocks fn ! k) < length (basic_blocks fn)"
    and s: "sorted_wrt (\<lambda>i j. start_of fn i < start_of fn j) (sorted_blocks fn)"
    and new: "\<And>k. k < length (sorted_blocks fn) \<Longrightarrow> start_of fn (sorted_blocks fn ! k) \<noteq> a"
  shows "left \<le> right \<Longrightarrow> right \<le> length (sorted_blocks fn) \<Longrightarrow>
    (\<forall>k < left. start_of fn (sorted_blocks fn ! k) < a) \<Longrightarrow>
    (\<forall>k. right \<le> k \<longrightarrow> k < length (sorted_blocks fn) \<longrightarrow> a < start_of fn (sorted_blocks fn ! k)) \<Longrightarrow>
    \<exists>p \<le> length (sorted_blocks fn). sort_1_loop fn a left right = Some p \<and>
      (\<forall>k < p. start_of fn (sorted_blocks fn ! k) < a) \<and>
      (\<forall>k. p \<le> k \<longrightarrow> k < length (sorted_blocks fn) \<longrightarrow> a < start_of fn (sorted_blocks fn ! k))"
proof (induction "right - left" arbitrary: left right rule: less_induct)
  case less
  show ?case
  proof (cases "left = right")
    case True
    then show ?thesis using less.prems by (subst sort_1_loop.simps) auto
  next
    case False
    let ?m = "(left + right) div 2"
    have m: "left \<le> ?m" "?m < right" "?m < length (sorted_blocks fn)" using less.prems False by auto
    have get: "vget (basic_blocks fn) (sorted_blocks fn ! ?m) = Some (basic_blocks fn ! unat (sorted_blocks fn ! ?m))"
      using ids [OF m(3)] by (simp add: vget_def)
    have d: "?m - left < right - left" "right - (?m + 1) < right - left" using m(1,2) by linarith+
    have m': "?m + 1 \<le> right" using m(2) by linarith
    let ?b = "start_of fn (sorted_blocks fn ! ?m)"
    have below: "start_of fn (sorted_blocks fn ! k) \<le> ?b" if "k \<le> ?m" for k
      using sorted_wrt_nth_less [OF s, of k ?m] that m(3) by (cases "k = ?m") auto
    have above: "?b \<le> start_of fn (sorted_blocks fn ! k)" if "?m \<le> k" "k < length (sorted_blocks fn)" for k
      using sorted_wrt_nth_less [OF s, of ?m k] that by (cases "k = ?m") auto
    show ?thesis
    proof (cases "a < ?b")
      case True
      have "\<forall>k. ?m \<le> k \<longrightarrow> k < length (sorted_blocks fn) \<longrightarrow> a < start_of fn (sorted_blocks fn ! k)"
        using above True by (meson less_le_trans)
      from less.hyps [OF d(1) m(1) less_imp_le [OF m(3)] less.prems(3) this] obtain p where
        "p \<le> length (sorted_blocks fn)" "sort_1_loop fn a left ?m = Some p" "\<forall>k < p. start_of fn (sorted_blocks fn ! k) < a"
        "\<forall>k. p \<le> k \<longrightarrow> k < length (sorted_blocks fn) \<longrightarrow> a < start_of fn (sorted_blocks fn ! k)" by blast
      then show ?thesis using False True m get by (subst sort_1_loop.simps) (auto simp: start_of_def Let_def)
    next
      case ge: False
      then have gt: "?b < a" using new [OF m(3)] by simp
      then have "\<forall>k < ?m + 1. start_of fn (sorted_blocks fn ! k) < a"
        using le_less_trans [OF below gt] by (simp add: less_Suc_eq_le)
      from less.hyps [OF d(2) m' less.prems(2) this less.prems(4)] obtain p where
        "p \<le> length (sorted_blocks fn)" "sort_1_loop fn a (?m + 1) right = Some p" "\<forall>k < p. start_of fn (sorted_blocks fn ! k) < a"
        "\<forall>k. p \<le> k \<longrightarrow> k < length (sorted_blocks fn) \<longrightarrow> a < start_of fn (sorted_blocks fn ! k)" by blast
      then show ?thesis using False ge gt m get by (subst sort_1_loop.simps) (auto simp: start_of_def Let_def)
    qed
  qed
qed

lemma insert_sorted:
  assumes "sorted_wrt R xs" and "p \<le> length xs" and "\<And>k. k < p \<Longrightarrow> R (xs ! k) x"
    and "\<And>k. p \<le> k \<Longrightarrow> k < length xs \<Longrightarrow> R x (xs ! k)"
  shows "sorted_wrt R (take p xs @ [x] @ drop p xs)"
proof -
  have "sorted_wrt R (take p xs @ drop p xs)" using assms(1) by simp
  then have "sorted_wrt R (take p xs)" "sorted_wrt R (drop p xs)" "\<forall>y \<in> set (take p xs). \<forall>z \<in> set (drop p xs). R y z"
    unfolding sorted_wrt_append by auto
  moreover have "\<forall>y \<in> set (take p xs). R y x" using assms(2,3) by (auto simp: in_set_conv_nth)
  moreover have "\<forall>z \<in> set (drop p xs). R x z" using assms(2,4) by (auto simp: in_set_conv_nth)
  ultimately show ?thesis by (auto simp: sorted_wrt_append)
qed

lemma start_of_sorted_blocks [simp]:
  "start_of (fn\<lparr>sorted_blocks := ss\<rparr>) = start_of fn" "start_of (fn\<lparr>unsorted_blocks := us\<rparr>) = start_of fn"
  by (rule ext, simp add: start_of_def)+

lemma sort_1_eq:
  assumes t: "table_ok fn" and u: "unsorted_blocks fn = [i]" and ne: "sorted_blocks fn \<noteq> []"
  shows "sort_1 fn = Some (sorted_fn fn)"
proof -
  let ?ss = "sorted_blocks fn" and ?a = "start_of fn i"
  have i: "unat i < length (basic_blocks fn)" using table_okD(2) [OF t, of i] u by simp
  have ids: "unat (?ss ! k) < length (basic_blocks fn)" if "k < length ?ss" for k
    using table_okD(2) [OF t, of "?ss ! k"] that by simp
  have neq: "?ss ! k \<noteq> i" if "k < length ?ss" for k using table_okD(5) [OF t] u that nth_mem [OF that] by auto
  have new: "start_of fn (?ss ! k) \<noteq> ?a" if "k < length ?ss" for k
    using start_of_neq [OF t, of "?ss ! k" i] ids [OF that] i neq [OF that] by (simp add: numBBs_def)
  obtain p where p: "p \<le> length ?ss" "sort_1_loop fn ?a 0 (length ?ss) = Some p"
    "\<forall>k < p. start_of fn (?ss ! k) < ?a" "\<forall>k. p \<le> k \<longrightarrow> k < length ?ss \<longrightarrow> ?a < start_of fn (?ss ! k)"
    using sort_1_loop_spec [OF ids table_okD(6) [OF t] new, of 0 "length ?ss"] by auto
  have sep: "before (basic_blocks fn ! unat j) (basic_blocks fn ! unat k)"
    if "start_of fn j < start_of fn k" "unat j < length (basic_blocks fn)" "unat k < length (basic_blocks fn)" for j k
    using table_okD(8) [OF t, of "unat j" "unat k"] that
    by (cases "unat j = unat k") (auto simp: numBBs_def start_of_def before_def word_less_nat_alt)
  have fits: "bb_fits (basic_blocks fn ! unat j)" if "unat j < length (basic_blocks fn)" for j
    using table_okD(7) [OF t, of "unat j"] that by (simp add: numBBs_def)
  have le: "getEndAddr (basic_blocks fn ! unat j) < start_of fn k"
    if "start_of fn j < start_of fn k" "unat j < length (basic_blocks fn)" "unat k < length (basic_blocks fn)" for j k
    using sep [OF that] end_addr(3) [OF fits [OF that(2)]] by (simp add: before_def start_of_def)
  have check: "getEndAddr (basic_blocks fn ! unat i) < start_of fn (?ss ! p)" if "p < length ?ss"
    using le [of i "?ss ! p"] p(4) that i ids by simp
  have check': "getEndAddr (basic_blocks fn ! unat (last ?ss)) < ?a" if "p = length ?ss"
  proof -
    have "length ?ss - 1 < length ?ss" using ne by simp
    then show ?thesis
      using le [of "last ?ss" i] p(3) that i ids [of "length ?ss - 1"] ne by (simp add: last_conv_nth)
  qed
  let ?new = "take p ?ss @ [i] @ drop p ?ss"
  have sorted: "sorted_wrt (\<lambda>i j. start_of fn i < start_of fn j) ?new"
    by (rule insert_sorted [OF table_okD(6) [OF t] p(1)]) (use p in auto)
  have "set ?new = set ?ss \<union> {i}" using set_append [of "take p ?ss" "drop p ?ss"] by auto
  then have new: "?new = address_order fn" by (intro sorted_unique [OF t sorted]) (simp add: u)
  have agree: "sizes_agree (fn\<lparr>sorted_blocks := ?new, unsorted_blocks := []\<rparr>)"
    using table_okD(4) [OF t] u p(1) by (simp add: sizes_agree_def)
  have last_id: "unat (last ?ss) < length (basic_blocks fn)" using ids [of "length ?ss - 1"] ne by (simp add: last_conv_nth)
  have "sort_1 fn = Some (fn\<lparr>sorted_blocks := ?new, unsorted_blocks := []\<rparr>)"
  proof (cases "p = length ?ss")
    case True
    then show ?thesis
      using u i p(2) check' last_id ne agree unfolding sort_1_def by (simp add: vget_def start_of_def)
  next
    case False
    then show ?thesis
      using u i p(1,2) check ids [of p] agree unfolding sort_1_def by (simp add: vget_def start_of_def)
  qed
  then show ?thesis by (simp only: new sorted_fn_def)
qed

lemma set_merge_by [simp]: "set (merge_by f xs ys) = set xs \<union> set ys"
  by (induction f xs ys rule: merge_by.induct) auto

lemma length_merge_by [simp]: "length (merge_by f xs ys) = length xs + length ys"
  by (induction f xs ys rule: merge_by.induct) auto

lemma merge_by_sorted:
  "sorted_wrt (\<lambda>x y. f x < f y) xs \<Longrightarrow> sorted_wrt (\<lambda>x y. f x < f y) ys \<Longrightarrow> f ` set xs \<inter> f ` set ys = {} \<Longrightarrow>
     sorted_wrt (\<lambda>x y. f x < f y) (merge_by f xs ys)"
proof (induction f xs ys rule: merge_by.induct)
  case (3 f x xs y ys)
  have ne: "f x \<noteq> f y" using 3(5) by auto
  show ?case
  proof (cases "f y < f x")
    case True
    then show ?thesis using 3 by (auto dest: less_trans)
  next
    case False
    then have "f x < f y" using ne by simp
    then show ?thesis using 3 False by (auto dest: less_trans)
  qed
qed auto

lemma sort_key_strict:
  fixes f :: "'a \<Rightarrow> 'b :: linorder"
  assumes "distinct xs" and "inj_on f (set xs)"
  shows "sorted_wrt (\<lambda>x y. f x < f y) (sort_key f xs)"
proof -
  have "distinct (map f (sort_key f xs))" using assms by (simp add: distinct_map)
  then have "sorted_wrt (<) (map f (sort_key f xs))" by (simp add: strict_sorted_iff)
  then show ?thesis by (simp add: sorted_wrt_map)
qed

lemma mergeSort_eq:
  assumes t: "table_ok fn" and ne: "unsorted_blocks fn \<noteq> []"
  shows "mergeSort fn = Some (sorted_fn fn)"
proof -
  let ?ss = "sorted_blocks fn" and ?us = "unsorted_blocks fn"
  note agree = table_okD(4) [OF t] and d = table_okD(5) [OF t]
  have lt: "unat i < numBBs fn" if "i \<in> set (?ss @ ?us)" for i using table_okD(2) [OF t that] by (simp add: numBBs_def)
  have inj: "inj_on (start_of fn) (set (?ss @ ?us))" by (rule inj_onI) (use start_of_neq [OF t] lt in blast)
  have us: "sorted_wrt (\<lambda>i j. start_of fn i < start_of fn j) (sort_key (start_of fn) ?us)"
    by (rule sort_key_strict) (use d inj in \<open>auto intro: inj_on_subset\<close>)
  show ?thesis
  proof (cases "length ?us = 1")
    case True
    then obtain i where i: "?us = [i]" by (cases ?us) auto
    show ?thesis
    proof (cases "?ss = []")
      case True
      then have "address_order fn = [i]" by (intro sorted_unique [OF t, symmetric]) (simp_all add: i)
      then show ?thesis using True i agree by (simp add: mergeSort_def sorted_fn_def)
    next
      case False
      then show ?thesis using sort_1_eq [OF t i False] i agree by (simp add: mergeSort_def)
    qed
  next
    case False
    have all: "list_all (\<lambda>i. unat i < length (basic_blocks fn)) (?ss @ ?us)"
      using table_okD(2) [OF t] by (simp add: list_all_iff)
    show ?thesis
    proof (cases "?ss = []")
      case True
      then have "sort_key (start_of fn) ?us = address_order fn" by (intro sorted_unique [OF t us]) simp
      then show ?thesis using True False ne agree all by (simp add: mergeSort_def sorted_fn_def)
    next
      case ss: False
      have "start_of fn ` set ?ss \<inter> start_of fn ` set ?us = {}"
        using inj d by (auto simp: inj_on_def)
      then have "sorted_wrt (\<lambda>i j. start_of fn i < start_of fn j) (merge_by (start_of fn) ?ss (sort_key (start_of fn) ?us))"
        by (intro merge_by_sorted [OF table_okD(6) [OF t] us]) simp
      then have m: "merge_by (start_of fn) ?ss (sort_key (start_of fn) ?us) = address_order fn"
        by (intro sorted_unique [OF t]) simp_all
      have "length (address_order fn) = length (basic_blocks fn)" using address_order(3) [OF t] by (simp add: numBBs_def)
      moreover have "length ?ss + length ?us = length (basic_blocks fn)" using agree by (simp add: sizes_agree_def)
      ultimately show ?thesis
        using ss False ne agree all unfolding mergeSort_def m by (simp add: sorted_fn_def assertSorted_def m)
    qed
  qed
qed

lemma makeSorted_eq:
  assumes t: "table_ok fn"
  shows "makeSorted fn = Some (sorted_fn fn)"
proof -
  have s: "assertSorted (sorted_fn fn) = Some ()"
    using address_order(3) [OF t] by (simp add: assertSorted_def sorted_fn_def numBBs_def)
  show ?thesis
  proof (cases "unsorted_blocks fn = []")
    case True
    then have "sorted_blocks fn = address_order fn" by (intro sorted_unique [OF t table_okD(6) [OF t]]) simp
    then have "sorted_fn fn = fn" using True by (simp add: sorted_fn_def)
    then show ?thesis using True table_okD(4) [OF t] s by (simp add: makeSorted_def)
  next
    case False
    then show ?thesis using mergeSort_eq [OF t False] table_okD(4) [OF t] s by (simp add: makeSorted_def)
  qed
qed

section \<open>Searches\<close>

definition bb_at :: "basicblock \<Rightarrow> kptr \<Rightarrow> bool" where
  "bb_at bb addr \<longleftrightarrow> bb_start bb \<le> unat addr \<and> unat addr < bb_start bb + bb_size bb"

text \<open>What a search for the block at an address, and for the next block, should return.\<close>

definition found_at :: "function_t \<Rightarrow> kptr \<Rightarrow> u16 \<Rightarrow> bool" where
  "found_at fn addr r \<longleftrightarrow>
     (if \<exists>b < numBBs fn. bb_at (basic_blocks fn ! b) addr
      then unat r < numBBs fn \<and> bb_at (basic_blocks fn ! unat r) addr else r = -1)"

definition found_next :: "function_t \<Rightarrow> kptr \<Rightarrow> u16 \<Rightarrow> bool" where
  "found_next fn addr r \<longleftrightarrow>
     (if \<exists>b < numBBs fn. unat addr < bb_start (basic_blocks fn ! b)
      then unat r < numBBs fn \<and> unat addr < bb_start (basic_blocks fn ! unat r) \<and>
        (\<forall>b < numBBs fn. unat addr < bb_start (basic_blocks fn ! b) \<longrightarrow>
           bb_start (basic_blocks fn ! unat r) \<le> bb_start (basic_blocks fn ! b))
      else r = -1)"

text \<open>A table whose ids are all sorted, seen through the index in address order.\<close>

abbreviation nth_block :: "function_t \<Rightarrow> nat \<Rightarrow> basicblock" where
  "nth_block fn k \<equiv> basic_blocks fn ! unat (sorted_blocks fn ! k)"

lemma sorted_table:
  assumes t: "table_ok fn" and u: "unsorted_blocks fn = []"
  shows "length (sorted_blocks fn) = numBBs fn"
    and "k < numBBs fn \<Longrightarrow> vget (basic_blocks fn) (sorted_blocks fn ! k) = Some (nth_block fn k)"
    and "k < numBBs fn \<Longrightarrow> unat (sorted_blocks fn ! k) < numBBs fn" and "k < numBBs fn \<Longrightarrow> bb_fits (nth_block fn k)"
    and "j < k \<Longrightarrow> k < numBBs fn \<Longrightarrow> before (nth_block fn j) (nth_block fn k)"
    and "b < numBBs fn \<Longrightarrow> \<exists>k < numBBs fn. basic_blocks fn ! b = nth_block fn k \<and> unat (sorted_blocks fn ! k) = b"
proof -
  show len: "length (sorted_blocks fn) = numBBs fn" using table_okD(4) [OF t] u by (simp add: sizes_agree_def numBBs_def)
  show ids: "unat (sorted_blocks fn ! k) < numBBs fn" if "k < numBBs fn" for k
    using table_okD(2) [OF t, of "sorted_blocks fn ! k"] that len by (simp add: numBBs_def)
  then show "k < numBBs fn \<Longrightarrow> vget (basic_blocks fn) (sorted_blocks fn ! k) = Some (nth_block fn k)"
    by (simp add: vget_def numBBs_def)
  show "k < numBBs fn \<Longrightarrow> bb_fits (nth_block fn k)" using ids table_okD(7) [OF t] by blast
  show "before (nth_block fn j) (nth_block fn k)" if "j < k" "k < numBBs fn"
  proof -
    have "start_of fn (sorted_blocks fn ! j) < start_of fn (sorted_blocks fn ! k)"
      using sorted_wrt_nth_less [OF table_okD(6) [OF t]] that len by simp
    then have "bb_start (nth_block fn j) < bb_start (nth_block fn k)" by (simp add: start_of_def word_less_nat_alt)
    moreover from this have "unat (sorted_blocks fn ! j) \<noteq> unat (sorted_blocks fn ! k)" by (metis less_irrefl)
    ultimately show ?thesis
      using table_okD(8) [OF t ids ids, of j k] that by (auto simp: before_def)
  qed
  show "\<exists>k < numBBs fn. basic_blocks fn ! b = nth_block fn k \<and> unat (sorted_blocks fn ! k) = b" if "b < numBBs fn"
  proof -
    have "of_nat b \<in> set (sorted_blocks fn)" using table_okD(3) [OF t that] u by simp
    then obtain k where "k < length (sorted_blocks fn)" "sorted_blocks fn ! k = of_nat b" by (auto simp: in_set_conv_nth)
    moreover have "unat (of_nat b :: u16) = b" using that table_okD(1) [OF t] by (intro unat16) simp
    ultimately show ?thesis using len by (metis)
  qed
qed

lemma found_at_index:
  assumes t: "table_ok fn" "unsorted_blocks fn = []"
  shows "k < numBBs fn \<Longrightarrow> bb_at (nth_block fn k) addr \<Longrightarrow> found_at fn addr (sorted_blocks fn ! k)"
    and "(\<And>k. k < numBBs fn \<Longrightarrow> \<not> bb_at (nth_block fn k) addr) \<Longrightarrow> found_at fn addr (-1)"
proof -
  show "k < numBBs fn \<Longrightarrow> bb_at (nth_block fn k) addr \<Longrightarrow> found_at fn addr (sorted_blocks fn ! k)"
    using sorted_table(3) [OF t] by (auto simp: found_at_def)
  assume none: "\<And>k. k < numBBs fn \<Longrightarrow> \<not> bb_at (nth_block fn k) addr"
  have "\<not> bb_at (basic_blocks fn ! b) addr" if "b < numBBs fn" for b
    using sorted_table(6) [OF t that] none by auto
  then show "found_at fn addr (-1)" by (auto simp: found_at_def)
qed

lemma binary_search_loop_spec:
  assumes t: "table_ok fn" "unsorted_blocks fn = []"
  shows "left \<le> right \<Longrightarrow> right < numBBs fn \<Longrightarrow> (\<forall>k < numBBs fn. bb_at (nth_block fn k) addr \<longrightarrow> left \<le> k \<and> k \<le> right) \<Longrightarrow>
    \<exists>r. binary_search_loop fn addr left right = Some r \<and> found_at fn addr r"
proof (induction "right - left" arbitrary: left right rule: less_induct)
  case less
  let ?m = "(left + right) div 2"
  have m: "left \<le> ?m" "?m \<le> right" "?m < numBBs fn" using less.prems by auto
  note tab = sorted_table [OF t]
  have get: "vget (basic_blocks fn) (sorted_blocks fn ! ?m) = Some (nth_block fn ?m)" by (rule tab(2) [OF m(3)])
  note e = end_addr [OF tab(4) [OF m(3)]]
  have none: "found_at fn addr (-1)" if "\<And>k. k < numBBs fn \<Longrightarrow> \<not> (left \<le> k \<and> k \<le> right \<and> bb_at (nth_block fn k) addr)"
    using found_at_index(2) [OF t] that less.prems(3) by blast
  have low: "\<not> bb_at (nth_block fn k) addr" if "unat addr < bb_start (nth_block fn ?m)" "?m \<le> k" "k < numBBs fn" for k
    using tab(5) [of ?m k] that by (cases "k = ?m") (auto simp: bb_at_def before_def)
  have high: "\<not> bb_at (nth_block fn k) addr" if "bb_start (nth_block fn ?m) + bb_size (nth_block fn ?m) \<le> unat addr" "k \<le> ?m" for k
    using tab(5) [of k ?m] that m(3) by (cases "k = ?m") (auto simp: bb_at_def before_def)
  show ?case
  proof (cases "bb_at (nth_block fn ?m) addr")
    case True
    then have "binary_search_loop fn addr left right = Some (sorted_blocks fn ! ?m)"
      using m(3) tab(1) get e by (subst binary_search_loop.simps) (simp add: bb_at_def word_le_nat_alt Let_def)
    then show ?thesis using found_at_index(1) [OF t m(3) True] by simp
  next
    case out: False
    show ?thesis
    proof (cases "unat addr < bb_start (nth_block fn ?m)")
      case True
      have step: "binary_search_loop fn addr left right =
          (if ?m = 0 then Some (-1) else if left > ?m - 1 then Some (-1) else binary_search_loop fn addr left (?m - 1))"
        using m(3) tab(1) get True
        by (subst binary_search_loop.simps) (simp add: word_le_nat_alt word_less_nat_alt Let_def not_le [symmetric])
      show ?thesis
      proof (cases "?m = 0 \<or> left > ?m - 1")
        case stop: True
        then have "found_at fn addr (-1)" using low [OF True] m(1) by (intro none) (metis Suc_pred' le_neq_implies_less less_Suc_eq_le not_le neq0_conv le_0_eq)
        then show ?thesis using step stop by auto
      next
        case go: False
        have "\<forall>k < numBBs fn. bb_at (nth_block fn k) addr \<longrightarrow> left \<le> k \<and> k \<le> ?m - 1"
          using low [OF True] less.prems(3) by (metis go Suc_pred' less_Suc_eq_le not_le neq0_conv)
        then have "\<exists>r. binary_search_loop fn addr left (?m - 1) = Some r \<and> found_at fn addr r"
          using less.hyps [of "?m - 1" left] go m by auto
        then show ?thesis using step go by simp
      qed
    next
      case False
      then have ge: "bb_start (nth_block fn ?m) + bb_size (nth_block fn ?m) \<le> unat addr" using out by (simp add: bb_at_def)
      have step: "binary_search_loop fn addr left right =
          (if ?m + 1 > right then Some (-1) else binary_search_loop fn addr (?m + 1) right)"
        using m(3) tab(1) get e False ge
        by (subst binary_search_loop.simps) (simp add: word_le_nat_alt word_less_nat_alt Let_def)
      show ?thesis
      proof (cases "?m + 1 > right")
        case stop: True
        then have "found_at fn addr (-1)" using high [OF ge] m(2) by (intro none) auto
        then show ?thesis using step stop by auto
      next
        case go: False
        have "\<forall>k < numBBs fn. bb_at (nth_block fn k) addr \<longrightarrow> ?m + 1 \<le> k \<and> k \<le> right"
          using high [OF ge] less.prems(3) by (metis Suc_eq_plus1 not_less_eq_eq)
        then have "\<exists>r. binary_search_loop fn addr (?m + 1) right = Some r \<and> found_at fn addr r"
          using less.hyps [of right "?m + 1"] go m less.prems(2) by auto
        then show ?thesis using step go by simp
      qed
    qed
  qed
qed

lemma sorted_fn_simps [simp]:
  "unsorted_blocks (sorted_fn fn) = []" "basic_blocks (sorted_fn fn) = basic_blocks fn" "numBBs (sorted_fn fn) = numBBs fn"
  "found_at (sorted_fn fn) = found_at fn" "found_next (sorted_fn fn) = found_next fn"
  by (auto simp: sorted_fn_def numBBs_def found_at_def found_next_def fun_eq_iff)

lemma searchForBB_spec:
  assumes t: "table_ok fn"
  shows "\<exists>r. searchForBB fn addr = Some (r, sorted_fn fn) \<and> found_at fn addr r"
proof (cases "numBBs fn = 0")
  case True
  then have "binary_search (sorted_fn fn) addr = Some (-1)"
    using address_order(3) [OF t] by (simp add: binary_search_def sorted_fn_def)
  then show ?thesis using True makeSorted_eq [OF t] by (simp add: searchForBB_def found_at_def)
next
  case False
  note s = sorted_fn_ok [OF t]
  have "length (sorted_blocks (sorted_fn fn)) = numBBs fn" using sorted_table(1) [OF s] by simp
  moreover have "\<exists>r. binary_search_loop (sorted_fn fn) addr 0 (numBBs fn - 1) = Some r \<and> found_at fn addr r"
    using binary_search_loop_spec [OF s, of 0 "numBBs fn - 1" addr] False by (simp add: Suc_le_eq less_Suc_eq_le [symmetric])
  ultimately show ?thesis
    using makeSorted_eq [OF t] False by (auto simp: searchForBB_def binary_search_def)
qed

lemma first_greater_loop_spec:
  assumes t: "table_ok fn" "unsorted_blocks fn = []"
  shows "left \<le> right \<Longrightarrow> right < numBBs fn \<Longrightarrow>
    (\<forall>k < left. bb_start (nth_block fn k) \<le> unat addr) \<Longrightarrow>
    (\<forall>k < numBBs fn. right < k \<longrightarrow> unat addr < bb_start (nth_block fn right)) \<Longrightarrow>
    \<exists>r. first_greater_loop fn addr left right = Some r \<and> found_next fn addr r"
proof (induction "right - left" arbitrary: left right rule: less_induct)
  case less
  let ?m = "(left + right) div 2" and ?n = "numBBs fn"
  have m: "left \<le> ?m" "?m \<le> right" "?m < ?n" using less.prems by auto
  note tab = sorted_table [OF t]
  have get: "vget (basic_blocks fn) (sorted_blocks fn ! ?m) = Some (nth_block fn ?m)" by (rule tab(2) [OF m(3)])
  note e = end_addr [OF tab(4) [OF m(3)]]
  have mono: "bb_start (nth_block fn j) \<le> bb_start (nth_block fn k)" if "j \<le> k" "k < ?n" for j k
    using tab(5) [of j k] that by (cases "j = k") (auto simp: before_def)
  have none: "found_next fn addr (-1)" if "\<forall>k < ?n. bb_start (nth_block fn k) \<le> unat addr"
  proof -
    have "\<not> unat addr < bb_start (basic_blocks fn ! b)" if "b < ?n" for b
      using tab(6) [OF that] \<open>\<forall>k < ?n. bb_start (nth_block fn k) \<le> unat addr\<close> by auto
    then show ?thesis by (auto simp: found_next_def)
  qed
  have hit: "found_next fn addr (sorted_blocks fn ! l)"
    if "l < ?n" "unat addr < bb_start (nth_block fn l)" "\<forall>k < l. bb_start (nth_block fn k) \<le> unat addr" for l
  proof -
    have "bb_start (nth_block fn l) \<le> bb_start (basic_blocks fn ! b)" if b: "b < ?n" "unat addr < bb_start (basic_blocks fn ! b)" for b
    proof -
      obtain k where k: "k < ?n" "basic_blocks fn ! b = nth_block fn k" using tab(6) [OF b(1)] by blast
      then have "l \<le> k" using \<open>\<forall>k < l. _\<close> b(2) by (metis not_le)
      then show ?thesis using mono [of l k] k by simp
    qed
    then show ?thesis using that(1,2) tab(3) by (auto simp: found_next_def)
  qed
  have last_check: "\<exists>x. (do { bb' \<leftarrow> vget (basic_blocks fn) (sorted_blocks fn ! l);
      Some (if addr < bb_startAddr bb' then sorted_blocks fn ! l else -1) }) = Some x \<and> found_next fn addr x"
    if "l < ?n" "\<forall>k < l. bb_start (nth_block fn k) \<le> unat addr" "l < ?n - 1 \<longrightarrow> unat addr < bb_start (nth_block fn l)" for l
  proof (cases "unat addr < bb_start (nth_block fn l)")
    case True
    then show ?thesis using hit [OF that(1) True that(2)] tab(2) [OF that(1)] by (simp add: word_less_nat_alt)
  next
    case False
    then have "\<forall>k < ?n. bb_start (nth_block fn k) \<le> unat addr"
      using that mono [of _ l] by (metis (no_types, lifting) Suc_pred' le_neq_implies_less less_Suc_eq_le not_le less_nat_zero_code neq0_conv)
    then show ?thesis using none False tab(2) [OF that(1)] by (simp add: word_less_nat_alt)
  qed
  show ?case
  proof (cases "unat addr < bb_start (nth_block fn ?m)")
    case True
    have step: "first_greater_loop fn addr left right =
        (if left = ?m then do { bb' \<leftarrow> vget (basic_blocks fn) (sorted_blocks fn ! left);
           Some (if addr < bb_startAddr bb' then sorted_blocks fn ! left else -1) }
         else first_greater_loop fn addr left ?m)"
      using m tab(1) get True
      by (subst first_greater_loop.simps) (auto simp: word_le_nat_alt word_less_nat_alt Let_def not_le [symmetric])
    show ?thesis
    proof (cases "left = ?m")
      case at: True
      have "unat addr < bb_start (nth_block fn left)" using True at by simp
      then show ?thesis using last_check [of left] step at less.prems m by auto
    next
      case go: False
      then have d: "?m - left < right - left" using m by linarith
      have "\<exists>x. first_greater_loop fn addr left ?m = Some x \<and> found_next fn addr x"
        by (rule less.hyps [OF d m(1,3) less.prems(3)]) (use True in simp)
      then show ?thesis using step go by simp
    qed
  next
    case False
    then have le: "\<forall>k < ?m + 1. bb_start (nth_block fn k) \<le> unat addr"
      using le_trans [OF mono [OF _ m(3)], of _ "unat addr"] by (simp add: less_Suc_eq_le)
    have step: "first_greater_loop fn addr left right =
        (if ?m + 1 > right then Some (-1)
         else if ?m + 1 = right then do { bb' \<leftarrow> vget (basic_blocks fn) (sorted_blocks fn ! right);
           Some (if addr < bb_startAddr bb' then sorted_blocks fn ! right else -1) }
         else first_greater_loop fn addr (?m + 1) right)"
      using m tab(1) get e False less.prems(2)
      by (subst first_greater_loop.simps) (auto simp: word_le_nat_alt word_less_nat_alt Let_def)
    consider "?m = right" | "?m + 1 = right" | "?m + 1 < right" using m(2) by linarith
    then show ?thesis
    proof cases
      case 1
      then have "\<forall>k < ?n. bb_start (nth_block fn k) \<le> unat addr" using le less.prems(4) False by (metis Suc_eq_plus1 less_Suc_eq not_less_eq)
      then show ?thesis using step 1 none by simp
    next
      case 2
      have "right < ?n - 1 \<longrightarrow> unat addr < bb_start (nth_block fn right)"
        using spec [OF less.prems(4), of "?n - 1"] less.prems(2) by auto
      then show ?thesis using last_check [of right] step 2 le less.prems(2) by simp
    next
      case 3
      then have d: "right - (?m + 1) < right - left" using m by linarith
      have "\<exists>x. first_greater_loop fn addr (?m + 1) right = Some x \<and> found_next fn addr x"
        by (rule less.hyps [OF d less_imp_le [OF 3] less.prems(2) le less.prems(4)])
      then show ?thesis using step 3 by simp
    qed
  qed
qed

lemma searchForFirstBlockStartAddrGThan_spec:
  assumes t: "table_ok fn"
  shows "\<exists>r. searchForFirstBlockStartAddrGThan fn addr = Some (r, sorted_fn fn) \<and> found_next fn addr r"
proof -
  note s = sorted_fn_ok [OF t]
  have len: "length (sorted_blocks (sorted_fn fn)) = numBBs fn" using sorted_table(1) [OF s] by simp
  then have a: "assertSorted (sorted_fn fn) = Some ()" by (simp add: assertSorted_def numBBs_def)
  show ?thesis
  proof (cases "numBBs fn = 0")
    case True
    then show ?thesis
      using makeSorted_eq [OF t] table_okD(4) [OF t] a len by (simp add: searchForFirstBlockStartAddrGThan_def found_next_def)
  next
    case False
    have "\<exists>r. first_greater_loop (sorted_fn fn) addr 0 (numBBs fn - 1) = Some r \<and> found_next (sorted_fn fn) addr r"
      by (rule first_greater_loop_spec [OF s]) (use False in auto)
    then show ?thesis
      using makeSorted_eq [OF t] table_okD(4) [OF t] a len False by (auto simp: searchForFirstBlockStartAddrGThan_def)
  qed
qed

section \<open>Properties\<close>

text \<open>
  C7: On a table of blocks that do not overlap, with any mixture of sorted and unsorted ids, sorting
  gives the ids in address order, and the two binary searches return: one the block that contains an
  address when there is one, the other the first block that starts above an address, and each -1
  when there is none. No assertion fails and the blocks themselves stay as they are.
\<close>

theorem block_searches_correct:
  assumes t: "table_ok fn"
  shows "makeSorted fn = Some (sorted_fn fn) \<and>
    sorted_wrt (\<lambda>i j. start_of fn i < start_of fn j) (address_order fn) \<and>
    (\<exists>r. searchForBB fn addr = Some (r, sorted_fn fn) \<and> found_at fn addr r) \<and>
    (\<exists>r. searchForFirstBlockStartAddrGThan fn addr = Some (r, sorted_fn fn) \<and> found_next fn addr r)"
  using makeSorted_eq [OF t] address_order(1) [OF t] searchForBB_spec [OF t] searchForFirstBlockStartAddrGThan_spec [OF t]
  by blast

definition demo_table :: function_t where
  "demo_table = (fn_new 100 ''demo'')\<lparr>
     basic_blocks := [bb_from_parts 100 100 2, bb_from_parts 110 110 4, bb_from_parts 102 102 3],
     sorted_blocks := [0, 1], unsorted_blocks := [2]\<rparr>"

lemma demo_table_ok: "table_ok demo_table"
proof -
  have "blocks_apart (basic_blocks demo_table)"
    by (simp add: blocks_apart_def demo_table_def bb_fits_def before_def bb_from_parts_def)
  then show ?thesis
    by (auto simp: table_ok_def numBBs_def demo_table_def start_of_def bb_from_parts_def lessThan_Suc numeral_3_eq_3)
qed

theorem block_searches_correct_witness:
  "\<exists>r. searchForBB demo_table 103 = Some (r, sorted_fn demo_table) \<and> found_at demo_table 103 r"
  using block_searches_correct [OF demo_table_ok] by blast

end
