(* ===== verification/BlockGraph.thy ===== *)
theory BlockGraph
  imports BlockTable
begin

text \<open>
  The control flow graph that the blocks of a function form, and what the operations that change it
  (\<open>kerninstd/function/src/funkshun.C\<close>) keep of it: adding a block, adding an edge at both of its ends, and
  splitting a block in two.
\<close>

section \<open>Graphs\<close>

definition succ_blocks :: "function_t \<Rightarrow> nat \<Rightarrow> nat set" where
  "succ_blocks fn b = unat ` {s \<in> set (bb_succs (basic_blocks fn ! b)). \<not> isExitId s}"

inductive reach :: "function_t \<Rightarrow> nat \<Rightarrow> nat \<Rightarrow> bool" for fn where
  reach_refl: "reach fn a a"
| reach_step: "b \<in> succ_blocks fn a \<Longrightarrow> reach fn b c \<Longrightarrow> reach fn a c"

lemma reach_trans: "reach fn a b \<Longrightarrow> reach fn b c \<Longrightarrow> reach fn a c"
  by (induction rule: reach.induct) (auto intro: reach.intros)

lemma reach_closed: "reach fn a b \<Longrightarrow> a \<in> V \<Longrightarrow> (\<And>x. x \<in> V \<Longrightarrow> succ_blocks fn x \<subseteq> V) \<Longrightarrow> b \<in> V"
  by (induction rule: reach.induct) auto

text \<open>Successors are blocks or exits, and a successor knows its predecessor.\<close>

definition edges_match :: "basicblock list \<Rightarrow> bool" where
  "edges_match bbs \<longleftrightarrow> (\<forall>b < length bbs. bb_ok (bbs ! b) \<and> distinct (bb_succs (bbs ! b)) \<and> distinct (bb_preds (bbs ! b)) \<and>
     (\<forall>s \<in> set (bb_succs (bbs ! b)). isExitId s \<or> unat s < length bbs \<and> of_nat b \<in> set (bb_preds (bbs ! unat s))) \<and>
     (\<forall>p \<in> set (bb_preds (bbs ! b)). unat p < length bbs))"

lemma edges_matchD:
  assumes "edges_match bbs" and "b < length bbs"
  shows "bb_ok (bbs ! b)" "edges_ok (bb_s (bbs ! b))" "edges_ok (bb_p (bbs ! b))"
    "distinct (bb_succs (bbs ! b))" "distinct (bb_preds (bbs ! b))"
    "s \<in> set (bb_succs (bbs ! b)) \<Longrightarrow> \<not> isExitId s \<Longrightarrow> unat s < length bbs"
    "s \<in> set (bb_succs (bbs ! b)) \<Longrightarrow> \<not> isExitId s \<Longrightarrow> of_nat b \<in> set (bb_preds (bbs ! unat s))"
    "p \<in> set (bb_preds (bbs ! b)) \<Longrightarrow> unat p < length bbs"
  using assms by (auto simp: edges_match_def bb_ok_def)

lemma block_id_not_exit:
  assumes "b < 65531"
  shows "\<not> isExitId (of_nat b)" and "(of_nat b :: u16) \<noteq> -1"
proof -
  have u: "unat (of_nat b :: u16) = b" using assms by (intro unat16) simp
  have e: "unat (-1 :: u16) = 65535" "unat (-3 :: u16) = 65533" "unat (-4 :: u16) = 65532" "unat (-5 :: u16) = 65531"
    by (simp_all add: unsigned_minus_1_eq_mask mask_eq_exp_minus_1)
  show "\<not> isExitId (of_nat b)" "(of_nat b :: u16) \<noteq> -1"
    using u e assms by (auto simp: isExitId_def UnanalyzableBBId_def xExitBBId_def interProcBranchExitBBId_def)
qed

section \<open>Splitting a block\<close>

text \<open>The blocks \<open>ids\<close> get \<open>new\<close> for their predecessor \<open>old\<close>.\<close>

definition retarget :: "u16 \<Rightarrow> u16 \<Rightarrow> u16 list \<Rightarrow> basicblock list \<Rightarrow> nat \<Rightarrow> basicblock" where
  "retarget old new ids bbs c =
     (if of_nat c \<in> set ids then (bbs ! c)\<lparr>bb_p := edges_rep (map (subst_id old new) (bb_preds (bbs ! c)))\<rparr> else bbs ! c)"

lemma fix_preds_spec:
  assumes new: "new \<noteq> -1" and n: "length (basic_blocks fn) < 65536"
  shows "distinct ids \<Longrightarrow>
    (\<forall>i \<in> set ids. isExitId i \<or> unat i < length (basic_blocks fn) \<and> edges_ok (bb_p (basic_blocks fn ! unat i)) \<and>
       distinct (bb_preds (basic_blocks fn ! unat i)) \<and> old \<in> set (bb_preds (basic_blocks fn ! unat i)) \<and>
       new \<notin> set (bb_preds (basic_blocks fn ! unat i))) \<Longrightarrow>
    (\<forall>c < length (basic_blocks fn). \<not> isExitId (of_nat c)) \<Longrightarrow>
    \<exists>bbs. fix_preds old new ids fn = Some (fn\<lparr>basic_blocks := bbs\<rparr>) \<and> length bbs = length (basic_blocks fn) \<and>
      (\<forall>c < length bbs. bbs ! c = retarget old new ids (basic_blocks fn) c)"
  using n
proof (induction ids arbitrary: fn)
  case Nil
  show ?case by (rule exI [of _ "basic_blocks fn"]) (simp add: retarget_def)
next
  case (Cons i ids)
  let ?bbs = "basic_blocks fn"
  show ?case
  proof (cases "isExitId i")
    case True
    have "retarget old new (i # ids) ?bbs c = retarget old new ids ?bbs c" if "c < length ?bbs" for c
      using Cons.prems(3) that True by (auto simp: retarget_def)
    then show ?thesis using Cons.IH [of fn] Cons.prems True by auto
  next
    case False
    let ?bb = "(?bbs ! unat i)\<lparr>bb_p := edges_rep (map (subst_id old new) (bb_preds (?bbs ! unat i)))\<rparr>"
    have i: "unat i < length ?bbs" "edges_ok (bb_p (?bbs ! unat i))" "distinct (bb_preds (?bbs ! unat i))"
      "old \<in> set (bb_preds (?bbs ! unat i))" "new \<notin> set (bb_preds (?bbs ! unat i))"
      using Cons.prems(2) False by auto
    let ?fn = "fn\<lparr>basic_blocks := ?bbs[unat i := ?bb]\<rparr>"
    have up: "update_block fn i (\<lambda>succ_bb. do { assert (hasAsAPredecessor succ_bb old); replace1Predecessor succ_bb old new }) = Some ?fn"
      using i replace1Predecessor_eq [OF i(2-5) new]
      by (simp add: update_block_def vget_def hasAsAPredecessor_def list_ex_iff)
    have other: "?bbs[unat i := ?bb] ! unat j = ?bbs ! unat j" if "j \<in> set ids" for j
      using Cons.prems(1) that by (auto simp: word_unat_eq_iff [symmetric] intro!: nth_list_update_neq)
    obtain bbs where bbs: "fix_preds old new ids ?fn = Some (?fn\<lparr>basic_blocks := bbs\<rparr>)" "length bbs = length ?bbs"
      "\<forall>c < length bbs. bbs ! c = retarget old new ids (?bbs[unat i := ?bb]) c"
      using Cons.IH [of ?fn] Cons.prems other by auto
    have "bbs ! c = retarget old new (i # ids) ?bbs c" if c: "c < length bbs" for c
    proof (cases "of_nat c = i")
      case True
      then have u: "unat i = c" using c bbs(2) Cons.prems(4) unat16 [of c] by auto
      then have "of_nat c \<notin> set ids" using Cons.prems(1) True by auto
      then show ?thesis using bbs(3) c True u i(1) by (simp add: retarget_def)
    next
      case ne: False
      then have "unat i \<noteq> c" by auto
      then show ?thesis using bbs(3) c ne by (simp add: retarget_def)
    qed
    then show ?thesis using False up bbs(1,2) by auto
  qed
qed

text \<open>How the blocks \<open>bbs'\<close> come from \<open>bbs\<close> when block \<open>b\<close> is split at an address.\<close>

definition split_of :: "basicblock list \<Rightarrow> nat \<Rightarrow> kptr \<Rightarrow> basicblock list \<Rightarrow> bool" where
  "split_of bbs b addr bbs' \<longleftrightarrow> (let n = length bbs; P = bbs ! b in
     length bbs' = Suc n \<and>
     (\<forall>c < n. bb_startAddr (bbs' ! c) = bb_startAddr (bbs ! c) \<and>
        bb_size (bbs' ! c) = (if c = b then unat addr - bb_start P else bb_size (bbs ! c)) \<and>
        bb_succs (bbs' ! c) = (if c = b then [of_nat n] else bb_succs (bbs ! c)) \<and>
        bb_preds (bbs' ! c) = (if of_nat c \<in> set (bb_succs P) then map (subst_id (of_nat b) (of_nat n)) (bb_preds (bbs ! c))
                              else bb_preds (bbs ! c))) \<and>
     bb_startAddr (bbs' ! n) = addr \<and> bb_size (bbs' ! n) = bb_start P + bb_size P - unat addr \<and>
     bb_succs (bbs' ! n) = bb_succs P \<and> bb_preds (bbs' ! n) = [of_nat b] \<and> (\<forall>c < Suc n. bb_ok (bbs' ! c)))"

lemma split_sizes:
  assumes fits: "bb_fits P" and a: "bb_startAddr P < a" "a \<le> getEndAddr P"
  shows "unat (ucast (getEndAddr P - a + 1) :: 14 word) = bb_start P + bb_size P - unat a"
    and "unat (ucast (a - 1 - bb_startAddr P + 1) :: u16) = unat a - bb_start P"
    and "unat (ucast (ucast (a - 1 - bb_startAddr P + 1) :: u16) :: 14 word) = unat a - bb_start P"
    and "unat a - bb_start P < bb_size P"
proof -
  note e = end_addr [OF fits]
  have lt: "bb_start P < unat a" "unat a < bb_start P + bb_size P" using a e(2) by (simp_all add: word_less_nat_alt)
  have s14: "bb_size P < 16384" using unsigned_less [of "numInsnBytesInBB P", where 'a = nat] by simp
  have e14: "getEndAddr P - a + 1 = getEndAddrPlus1 P - a" by (simp add: getEndAddr_def getEndAddrPlus1_def)
  have "unat (getEndAddrPlus1 P - a) = bb_start P + bb_size P - unat a"
    using lt e(1) by (simp add: unat_sub_if')
  then show "unat (ucast (getEndAddr P - a + 1) :: 14 word) = bb_start P + bb_size P - unat a"
    unfolding e14 using lt s14 by (simp add: unsigned_ucast_eq take_bit_nat_eq_self)
  have u: "unat (a - bb_startAddr P) = unat a - bb_start P" using lt by (simp add: unat_sub_if')
  show u16: "unat (ucast (a - 1 - bb_startAddr P + 1) :: u16) = unat a - bb_start P"
    using lt s14 u by (simp add: unsigned_ucast_eq take_bit_nat_eq_self)
  have "unat (ucast w :: 14 word) = unat w" if "unat w < 16384" for w :: u16
    using that by (simp add: unsigned_ucast_eq take_bit_nat_eq_self)
  then show "unat (ucast (ucast (a - 1 - bb_startAddr P + 1) :: u16) :: 14 word) = unat a - bb_start P"
    using lt s14 u16 by simp
  show "unat a - bb_start P < bb_size P" using lt by simp
qed

lemma splitBasicBlock_blocks:
  assumes em: "edges_match (basic_blocks fn)" and n: "numBBs fn < 65531" and b: "b < numBBs fn"
    and few: "length (unsorted_blocks fn) < 10" and agree: "sizes_agree fn"
    and fits: "bb_fits (basic_blocks fn ! b)"
    and a: "bb_startAddr (basic_blocks fn ! b) < addr" "addr \<le> getEndAddr (basic_blocks fn ! b)"
  shows "\<exists>bbs. splitBasicBlock fn (of_nat b) addr =
      Some (of_nat (numBBs fn), fn\<lparr>basic_blocks := bbs, unsorted_blocks := unsorted_blocks fn @ [of_nat (numBBs fn)]\<rparr>) \<and>
    split_of (basic_blocks fn) b addr bbs"
proof -
  let ?bbs = "basic_blocks fn" and ?n = "numBBs fn" and ?P = "basic_blocks fn ! b"
  let ?N = "\<lparr>bb_startAddr = addr, lastInsnAddr = lastInsnAddr ?P, numInsnBytesInBB = ucast (getEndAddr ?P - addr + 1),
    bb_s = bb_s ?P, bb_p = edges_rep [of_nat b]\<rparr>"
  let ?U = "?P\<lparr>numInsnBytesInBB := ucast (ucast (addr - 1 - bb_startAddr ?P + 1) :: u16), bb_s := edges_rep [of_nat ?n]\<rparr>"
  have len: "length ?bbs = ?n" by (simp add: numBBs_def)
  have u: "unat (of_nat b :: u16) = b" "unat (of_nat ?n :: u16) = ?n" using n b by (simp_all add: unat16)
  note ids = block_id_not_exit [of b] block_id_not_exit [of ?n]
  have b': "(of_nat b :: u16) \<noteq> -1" "(of_nat ?n :: u16) \<noteq> -1" using ids n b by simp_all
  note P = edges_matchD [OF em, of b, unfolded len, OF b]
  note sz = split_sizes [OF fits a]
  have new: "bb_split (of_nat b) ?P addr = Some ?N" by (rule bb_split_eq [OF P(2) b'(1) a])
  let ?fn1 = "fn\<lparr>basic_blocks := ?bbs @ [?N], unsorted_blocks := unsorted_blocks fn @ [of_nat ?n]\<rparr>"
  have add: "addBlock_new fn ?N = Some (of_nat ?n, ?fn1)"
    using agree few by (simp add: addBlock_new_def sizes_agree_def makeSortedIf10_def numBBs_def Let_def)
  let ?fn2 = "?fn1\<lparr>basic_blocks := (?bbs @ [?N])[b := ?U]\<rparr>"
  have cl: "edges_ok (bb_s (clearAllSuccessors bb))" "bb_succs (clearAllSuccessors bb) = []" for bb
    by (simp_all add: clearAllSuccessors_def edges_ok_def bb_succs_def)
  have trim: "trimNumInsnBytesTo ?P (ucast (addr - 1 - bb_startAddr ?P + 1)) =
      Some (?P\<lparr>numInsnBytesInBB := ucast (ucast (addr - 1 - bb_startAddr ?P + 1) :: u16)\<rparr>)"
  proof -
    have "unat (ucast (numInsnBytesInBB ?P) :: u16) = bb_size ?P"
      using unsigned_less [of "numInsnBytesInBB ?P", where 'a = nat] by (simp add: unsigned_ucast_eq take_bit_nat_eq_self)
    then show ?thesis using sz(2,4) by (simp add: trimNumInsnBytesTo_def word_less_nat_alt)
  qed
  have up: "update_block ?fn1 (of_nat b) (\<lambda>bb. do {
       bb' \<leftarrow> trimNumInsnBytesTo bb (ucast (addr - 1 - bb_startAddr bb + 1));
       addSuccessorNoDup (clearAllSuccessors bb') (of_nat ?n) }) = Some ?fn2"
    using trim addSuccessorNoDup_eq [OF cl(1) b'(2)] u b len cl(2)
    by (simp add: update_block_def vget_def nth_append succ_refused_def clearAllSuccessors_def)
  have sum: "bb_size ?U + bb_size ?N = bb_size ?P" using sz a(1) by (simp add: word_less_nat_alt)
  have get: "vget (basic_blocks ?fn2) (of_nat b) = Some ?U" "vget (basic_blocks ?fn2) (of_nat ?n) = Some ?N"
    using u b len by (simp_all add: vget_def nth_append)
  have "bb_succs ?N = bb_succs ?P" by (simp add: bb_succs_def)
  have pre: "\<forall>i \<in> set (bb_succs ?N). isExitId i \<or> unat i < length (basic_blocks ?fn2) \<and>
      edges_ok (bb_p (basic_blocks ?fn2 ! unat i)) \<and> distinct (bb_preds (basic_blocks ?fn2 ! unat i)) \<and>
      of_nat b \<in> set (bb_preds (basic_blocks ?fn2 ! unat i)) \<and> of_nat ?n \<notin> set (bb_preds (basic_blocks ?fn2 ! unat i))"
  proof
    fix i assume i: "i \<in> set (bb_succs ?N)"
    show "isExitId i \<or> unat i < length (basic_blocks ?fn2) \<and>
      edges_ok (bb_p (basic_blocks ?fn2 ! unat i)) \<and> distinct (bb_preds (basic_blocks ?fn2 ! unat i)) \<and>
      of_nat b \<in> set (bb_preds (basic_blocks ?fn2 ! unat i)) \<and> of_nat ?n \<notin> set (bb_preds (basic_blocks ?fn2 ! unat i))"
    proof (cases "isExitId i")
      case False
      have iP: "i \<in> set (bb_succs ?P)" using i by (simp add: bb_succs_def)
      have lt: "unat i < ?n" using P(6) [OF iP False] by simp
      note I = edges_matchD [OF em, of "unat i", unfolded len, OF lt]
      have same: "bb_p (basic_blocks ?fn2 ! unat i) = bb_p (?bbs ! unat i)"
        using lt b len by (cases "unat i = b") (simp_all add: nth_append)
      have "of_nat ?n \<notin> set (bb_preds (?bbs ! unat i))" using I(8) [of "of_nat ?n"] u(2) by auto
      then show ?thesis
        using P(7) [OF iP False] I(3,5) lt len same by (simp add: bb_preds_def)
    qed simp
  qed
  have exits: "\<forall>c < length (basic_blocks ?fn2). \<not> isExitId (of_nat c)"
    using block_id_not_exit(1) n len by auto
  obtain bbs where bbs: "fix_preds (of_nat b) (of_nat ?n) (bb_succs ?N) ?fn2 = Some (?fn2\<lparr>basic_blocks := bbs\<rparr>)"
    "length bbs = Suc ?n" "\<forall>c < length bbs. bbs ! c = retarget (of_nat b) (of_nat ?n) (bb_succs ?N) (basic_blocks ?fn2) c"
    using fix_preds_spec [OF b'(2), of ?fn2 "bb_succs ?N" "of_nat b"] pre exits P(4) n len by (auto simp: bb_succs_def)
  have run: "splitBasicBlock fn (of_nat b) addr = Some (of_nat ?n, ?fn2\<lparr>basic_blocks := bbs\<rparr>)"
    using a new add up get sum bbs(1) u b len by (simp add: splitBasicBlock_def vget_def)
  have out: "of_nat ?n \<notin> set (bb_succs ?P)" using P(6) [of "of_nat ?n"] u(2) ids(3) n by auto
  have N: "bbs ! ?n = ?N"
  proof -
    have "basic_blocks ?fn2 ! ?n = ?N" using b len by (simp add: nth_append)
    moreover have "bb_succs ?N = bb_succs ?P" by (simp add: bb_succs_def)
    ultimately show ?thesis using spec [OF bbs(3), of ?n] bbs(2) out unfolding retarget_def by simp
  qed
  have old: "bbs ! c = (if of_nat c \<in> set (bb_succs ?P)
      then (if c = b then ?U else ?bbs ! c)\<lparr>bb_p := edges_rep (map (subst_id (of_nat b) (of_nat ?n)) (bb_preds (?bbs ! c)))\<rparr>
      else if c = b then ?U else ?bbs ! c)" if "c < ?n" for c
  proof -
    have "basic_blocks ?fn2 ! c = (if c = b then ?U else ?bbs ! c)" using that len b by (simp add: nth_append nth_list_update)
    moreover have "bb_preds ?U = bb_preds ?P" "bb_succs ?N = bb_succs ?P" by (simp_all add: bb_preds_def bb_succs_def)
    ultimately show ?thesis using spec [OF bbs(3), of c] bbs(2) that unfolding retarget_def by (cases "c = b") simp_all
  qed
  have ends: "-1 \<notin> set (map (subst_id (of_nat b) (of_nat ?n)) (bb_preds bb))" for bb
    using no_end_bb(2) [of bb] b'(2) by (auto simp: subst_id_def)
  have ok: "bb_ok (?bbs ! c)" if "c < ?n" for c using edges_matchD(1) [OF em] that len by simp
  have "split_of ?bbs b addr bbs"
    unfolding split_of_def Let_def len
  proof (intro conjI allI impI)
    show "length bbs = Suc ?n" by (rule bbs(2))
    show "bb_startAddr (bbs ! ?n) = addr" "bb_size (bbs ! ?n) = bb_start ?P + bb_size ?P - unat addr"
      "bb_succs (bbs ! ?n) = bb_succs ?P" "bb_preds (bbs ! ?n) = [of_nat b]"
      unfolding N using sz(1) b'(1) by (simp_all add: bb_succs_def bb_preds_def)
    fix c
    show "bb_startAddr (bbs ! c) = bb_startAddr (?bbs ! c)" "bb_size (bbs ! c) = (if c = b then unat addr - bb_start ?P else bb_size (?bbs ! c))"
      "bb_succs (bbs ! c) = (if c = b then [of_nat ?n] else bb_succs (?bbs ! c))"
      "bb_preds (bbs ! c) = (if of_nat c \<in> set (bb_succs ?P) then map (subst_id (of_nat b) (of_nat ?n)) (bb_preds (?bbs ! c))
         else bb_preds (?bbs ! c))" if "c < ?n"
      unfolding old [OF that] using sz(3) b'(2) set_preds(1) [OF ends] by (auto simp: bb_succs_def bb_preds_def edge_list_rep [OF ends])
    show "bb_ok (bbs ! c)" if "c < Suc ?n"
    proof (cases "c = ?n")
      case True
      then show ?thesis using N P(2) b'(1) edges_ok_rep [of "[of_nat b]"] by (simp add: bb_ok_def)
    next
      case False
      then have "c < ?n" using that by simp
      then show ?thesis
        unfolding old [OF \<open>c < ?n\<close>] using ok [of c] edges_ok_rep [OF ends] b'(2) edges_ok_rep [of "[of_nat ?n]"] by (auto simp: bb_ok_def)
    qed
  qed
  then show ?thesis using run by (intro exI [of _ bbs]) simp
qed

lemma split_ofD:
  assumes "split_of bbs b addr bbs'"
  shows "length bbs' = Suc (length bbs)"
    and "c < length bbs \<Longrightarrow> bb_startAddr (bbs' ! c) = bb_startAddr (bbs ! c)"
    and "c < length bbs \<Longrightarrow> bb_size (bbs' ! c) = (if c = b then unat addr - bb_start (bbs ! b) else bb_size (bbs ! c))"
    and "c < length bbs \<Longrightarrow> bb_succs (bbs' ! c) = (if c = b then [of_nat (length bbs)] else bb_succs (bbs ! c))"
    and "c < length bbs \<Longrightarrow> bb_preds (bbs' ! c) =
      (if of_nat c \<in> set (bb_succs (bbs ! b)) then map (subst_id (of_nat b) (of_nat (length bbs))) (bb_preds (bbs ! c)) else bb_preds (bbs ! c))"
    and "bb_startAddr (bbs' ! length bbs) = addr"
    and "bb_size (bbs' ! length bbs) = bb_start (bbs ! b) + bb_size (bbs ! b) - unat addr"
    and "bb_succs (bbs' ! length bbs) = bb_succs (bbs ! b)" and "bb_preds (bbs' ! length bbs) = [of_nat b]"
    and "c \<le> length bbs \<Longrightarrow> bb_ok (bbs' ! c)"
  using assms by (simp_all add: split_of_def Let_def)

lemma split_edges_match:
  assumes em: "edges_match bbs" and sp: "split_of bbs b addr bbs'" and b: "b < length bbs" and n: "length bbs < 65531"
  shows "edges_match bbs'"
  unfolding edges_match_def
proof (intro allI impI)
  let ?n = "length bbs"
  note S = split_ofD [OF sp]
  have u: "unat (of_nat b :: u16) = b" "unat (of_nat ?n :: u16) = ?n" using n b by (simp_all add: unat16)
  have new: "of_nat ?n \<notin> set (bb_preds (bbs ! c))" if "c < ?n" for c
    using edges_matchD(8) [OF em that, of "of_nat ?n"] u(2) by auto
  have inj: "inj_on (subst_id (of_nat b) (of_nat ?n)) (set (bb_preds (bbs ! c)))" if "c < ?n" for c
    using new [OF that] by (auto simp: inj_on_def subst_id_def)
  fix c assume "c < length bbs'"
  then have c: "c \<le> ?n" using S(1) by simp
  have preds: "distinct (bb_preds (bbs' ! c)) \<and> (\<forall>p \<in> set (bb_preds (bbs' ! c)). unat p < length bbs')"
  proof (cases "c = ?n")
    case True
    then show ?thesis using S(1,9) u b by simp
  next
    case False
    then have "c < ?n" using c by simp
    then show ?thesis
      using S(5) [of c] edges_matchD(5,8) [OF em] inj S(1) u by (auto simp: distinct_map subst_id_def less_Suc_eq)
  qed
  have keep: "of_nat c' \<in> set (bb_preds (bbs' ! unat s))"
    if "c' < ?n" "c' \<noteq> b" "s \<in> set (bb_succs (bbs ! c'))" "\<not> isExitId s" for c' s
  proof -
    have s: "unat s < ?n" "of_nat c' \<in> set (bb_preds (bbs ! unat s))" using edges_matchD(6,7) [OF em that(1,3,4)] by auto
    have "(of_nat c' :: u16) \<noteq> of_nat b" using that(1,2) b n of_nat16_eq [of c' b] by simp
    then have "subst_id (of_nat b) (of_nat ?n) (of_nat c') = of_nat c'" by (simp add: subst_id_def)
    then show ?thesis using s S(5) [OF s(1)] by (metis (no_types, lifting) image_eqI set_map)
  qed
  have moved: "of_nat ?n \<in> set (bb_preds (bbs' ! unat s))" if "s \<in> set (bb_succs (bbs ! b))" "\<not> isExitId s" for s
  proof -
    have s: "unat s < ?n" "of_nat b \<in> set (bb_preds (bbs ! unat s))" using edges_matchD(6,7) [OF em b that] by auto
    have "subst_id (of_nat b) (of_nat ?n) (of_nat b) = of_nat ?n" by (simp add: subst_id_def)
    moreover have "of_nat (unat s) \<in> set (bb_succs (bbs ! b))" using that(1) by simp
    ultimately show ?thesis using s S(5) [OF s(1)] by (metis (no_types, lifting) image_eqI set_map)
  qed
  have succs: "distinct (bb_succs (bbs' ! c)) \<and> (\<forall>s \<in> set (bb_succs (bbs' ! c)). isExitId s \<or>
      unat s < length bbs' \<and> of_nat c \<in> set (bb_preds (bbs' ! unat s)))"
  proof -
    consider "c = ?n" | "c = b" | "c < ?n" "c \<noteq> b" using c b by linarith
    then show ?thesis
    proof cases
      case 1
      have "unat s < length bbs'" if "s \<in> set (bb_succs (bbs ! b))" "\<not> isExitId s" for s
        using edges_matchD(6) [OF em b that] S(1) by simp
      then show ?thesis using 1 S(8) moved edges_matchD(4) [OF em b] by auto
    next
      case 2
      then show ?thesis using S(1,9) S(4) [OF b] u by simp
    next
      case 3
      have "unat s < length bbs'" if "s \<in> set (bb_succs (bbs ! c))" "\<not> isExitId s" for s
        using edges_matchD(6) [OF em 3(1) that] S(1) by simp
      then show ?thesis using 3 S(4) [OF 3(1)] keep [OF 3] edges_matchD(4) [OF em 3(1)] by auto
    qed
  qed
  show "bb_ok (bbs' ! c) \<and> distinct (bb_succs (bbs' ! c)) \<and> distinct (bb_preds (bbs' ! c)) \<and>
      (\<forall>s \<in> set (bb_succs (bbs' ! c)). isExitId s \<or> unat s < length bbs' \<and> of_nat c \<in> set (bb_preds (bbs' ! unat s))) \<and>
      (\<forall>p \<in> set (bb_preds (bbs' ! c)). unat p < length bbs')"
    using preds succs S(10) [OF c] by blast
qed

lemma blocks_apartD:
  assumes "blocks_apart bbs"
  shows "a < length bbs \<Longrightarrow> bb_fits (bbs ! a)"
    and "a < length bbs \<Longrightarrow> b < length bbs \<Longrightarrow> a \<noteq> b \<Longrightarrow> before (bbs ! a) (bbs ! b) \<or> before (bbs ! b) (bbs ! a)"
  using assms by (auto simp: blocks_apart_def list_all_length sorted_wrt_iff_nth_less elim: linorder_neqE_nat)

lemma blocks_apartI:
  assumes "\<And>a. a < length bbs \<Longrightarrow> bb_fits (bbs ! a)"
    and "\<And>a b. a < length bbs \<Longrightarrow> b < length bbs \<Longrightarrow> a < b \<Longrightarrow> before (bbs ! a) (bbs ! b) \<or> before (bbs ! b) (bbs ! a)"
  shows "blocks_apart bbs"
  using assms by (auto simp: blocks_apart_def list_all_length sorted_wrt_iff_nth_less)

lemma split_apart:
  assumes ap: "blocks_apart bbs" and sp: "split_of bbs b addr bbs'" and b: "b < length bbs"
    and a: "bb_start (bbs ! b) < unat addr" "unat addr < bb_start (bbs ! b) + bb_size (bbs ! b)"
  shows "blocks_apart bbs'"
proof (rule blocks_apartI)
  let ?n = "length bbs"
  note S = split_ofD [OF sp]
  note fb = blocks_apartD(1) [OF ap b]
  show "bb_fits (bbs' ! c)" if "c < length bbs'" for c
  proof (cases "c = ?n")
    case True
    then show ?thesis using S(6,7) fb a by (simp add: bb_fits_def)
  next
    case False
    then have c: "c < ?n" using that S(1) by simp
    show ?thesis
      using blocks_apartD(1) [OF ap c] S(2,3) [OF c] fb a by (cases "c = b") (auto simp: bb_fits_def)
  qed
  show "before (bbs' ! c) (bbs' ! d) \<or> before (bbs' ! d) (bbs' ! c)" if "c < length bbs'" "d < length bbs'" "c < d" for c d
  proof (cases "d = ?n")
    case True
    have c: "c < ?n" using that True by simp
    show ?thesis
      using True S(2,3) [OF c] S(6,7) a blocks_apartD(2) [OF ap c b] by (cases "c = b") (auto simp: before_def)
  next
    case False
    have cd: "c < ?n" "d < ?n" using that False S(1) by simp_all
    show ?thesis
      using blocks_apartD(2) [OF ap cd] that(3) S(2,3) [OF cd(1)] S(2,3) [OF cd(2)] a by (auto simp: before_def split: if_splits)
  qed
qed

text \<open>A graph on a table of blocks.\<close>

definition cfg_ok :: "function_t \<Rightarrow> bool" where
  "cfg_ok fn \<longleftrightarrow> table_ok fn \<and> edges_match (basic_blocks fn)"

lemma cfg_okD:
  assumes "cfg_ok fn"
  shows "numBBs fn \<le> 65531"
    and "b < numBBs fn \<Longrightarrow> s \<in> set (bb_succs (basic_blocks fn ! b)) \<Longrightarrow> \<not> isExitId s \<Longrightarrow>
      unat s < numBBs fn \<and> of_nat b \<in> set (bb_preds (basic_blocks fn ! unat s))"
    and "b < numBBs fn \<Longrightarrow> p \<in> set (bb_preds (basic_blocks fn ! b)) \<Longrightarrow> unat p < numBBs fn"
  using assms by (auto simp: cfg_ok_def table_ok_def edges_match_def numBBs_def)

text \<open>Changing the blocks at the same addresses, with a new block at the end of the table.\<close>

lemma table_ok_append:
  assumes t: "table_ok fn" and n: "numBBs fn < 65531" and len: "length bbs = Suc (numBBs fn)" and ap: "blocks_apart bbs"
    and same: "\<And>c. c < numBBs fn \<Longrightarrow> bb_startAddr (bbs ! c) = bb_startAddr (basic_blocks fn ! c)"
  shows "table_ok (fn\<lparr>basic_blocks := bbs, unsorted_blocks := unsorted_blocks fn @ [of_nat (numBBs fn)]\<rparr>)"
proof -
  let ?fn = "fn\<lparr>basic_blocks := bbs, unsorted_blocks := unsorted_blocks fn @ [of_nat (numBBs fn)]\<rparr>"
  have u: "unat (of_nat (numBBs fn) :: u16) = numBBs fn" using n by (intro unat16) simp
  have "start_of ?fn i = start_of fn i" if "i \<in> set (sorted_blocks fn @ unsorted_blocks fn)" for i
    using table_okD(2) [OF t that] same by (simp add: start_of_def numBBs_def)
  then have "sorted_wrt (\<lambda>i j. start_of ?fn i < start_of ?fn j) (sorted_blocks fn)"
    using table_okD(6) [OF t] by (auto elim!: sorted_wrt_mono_rel [rotated])
  moreover have "of_nat (numBBs fn) \<notin> set (sorted_blocks fn @ unsorted_blocks fn)"
    using table_okD(2) [OF t, of "of_nat (numBBs fn)"] u by (auto simp: numBBs_def)
  moreover have "unat ` set (sorted_blocks ?fn @ unsorted_blocks ?fn) = {..<Suc (numBBs fn)}"
    using t u by (auto simp: table_ok_def lessThan_Suc)
  ultimately show ?thesis
    using t n len ap by (simp add: table_ok_def numBBs_def)
qed

lemma reach_map:
  assumes "reach fn a c" and "a < n" and "\<And>x y. x < n \<Longrightarrow> y \<in> succ_blocks fn x \<Longrightarrow> y < n \<and> reach fn' (f x) (f y)"
  shows "reach fn' (f a) (f c)"
  using assms(1,2) by (induction rule: reach.induct) (use assms(3) in \<open>blast intro: reach_refl reach_trans\<close>)+

lemma succ_blocksD:
  assumes "edges_match (basic_blocks fn)" and "b < numBBs fn" and "c \<in> succ_blocks fn b"
  shows "c < numBBs fn"
  using assms edges_matchD(6) by (fastforce simp: succ_blocks_def numBBs_def)

text \<open>The addresses in the blocks, and where control can go between the blocks of before the split.\<close>

definition covered :: "function_t \<Rightarrow> kptr set" where
  "covered fn = {a. \<exists>b < numBBs fn. bb_at (basic_blocks fn ! b) a}"

lemma split_cfg:
  assumes g: "cfg_ok fn" and n: "numBBs fn < 65531" and b: "b < numBBs fn" and u: "unsorted_blocks fn = []"
    and a: "bb_start (basic_blocks fn ! b) < unat addr" "bb_at (basic_blocks fn ! b) addr"
  obtains fn' where "splitBasicBlock fn (of_nat b) addr = Some (of_nat (numBBs fn), fn')" "cfg_ok fn'"
    "numBBs fn' = Suc (numBBs fn)" "origCode fn' = origCode fn" "unsorted_blocks fn' = [of_nat (numBBs fn)]"
    "split_of (basic_blocks fn) b addr (basic_blocks fn')" "covered fn' = covered fn"
    "fn' = fn\<lparr>basic_blocks := basic_blocks fn', unsorted_blocks := [of_nat (numBBs fn)]\<rparr>"
proof -
  have t: "table_ok fn" and em: "edges_match (basic_blocks fn)" using g by (auto simp: cfg_ok_def)
  note fits = table_okD(7) [OF t b]
  have a': "bb_startAddr (basic_blocks fn ! b) < addr" "addr \<le> getEndAddr (basic_blocks fn ! b)"
    using a end_addr(2) [OF fits] by (simp_all add: word_less_nat_alt bb_at_def)
  have aa: "unat addr < bb_start (basic_blocks fn ! b) + bb_size (basic_blocks fn ! b)" using a(2) by (simp add: bb_at_def)
  obtain bbs where bbs: "splitBasicBlock fn (of_nat b) addr =
      Some (of_nat (numBBs fn), fn\<lparr>basic_blocks := bbs, unsorted_blocks := unsorted_blocks fn @ [of_nat (numBBs fn)]\<rparr>)"
    and sp: "split_of (basic_blocks fn) b addr bbs"
    using splitBasicBlock_blocks [OF em n b _ table_okD(4) [OF t] fits a'] u by auto
  let ?fn = "fn\<lparr>basic_blocks := bbs, unsorted_blocks := unsorted_blocks fn @ [of_nat (numBBs fn)]\<rparr>"
  note S = split_ofD [OF sp, folded numBBs_def]
  have ap: "blocks_apart (basic_blocks fn)" using t by (simp add: table_ok_def)
  have b': "b < length (basic_blocks fn)" using b by (simp add: numBBs_def)
  have "table_ok ?fn" using S(1,2) by (intro table_ok_append [OF t n _ split_apart [OF ap sp b' a(1) aa]]) auto
  moreover have "edges_match bbs" using split_edges_match [OF em sp b'] n by (simp add: numBBs_def)
  ultimately have ok: "cfg_ok ?fn" by (simp add: cfg_ok_def)
  have n': "numBBs ?fn = Suc (numBBs fn)" using S(1) by (simp add: numBBs_def)
  have at_b: "bb_at (basic_blocks fn ! b) x \<longleftrightarrow> bb_at (bbs ! b) x \<or> bb_at (bbs ! numBBs fn) x" for x
    using S(2,3) [OF b] S(6,7) a(1) aa by (auto simp: bb_at_def)
  have at_c: "bb_at (bbs ! c) x \<longleftrightarrow> bb_at (basic_blocks fn ! c) x" if "c < numBBs fn" "c \<noteq> b" for c x
    using S(2,3) [OF that(1)] that(2) by (simp add: bb_at_def)
  have "covered ?fn = covered fn"
  proof (intro set_eqI iffI)
    fix x assume "x \<in> covered ?fn"
    then obtain c where c: "c \<le> numBBs fn" "bb_at (bbs ! c) x" using n' by (auto simp: covered_def less_Suc_eq_le)
    show "x \<in> covered fn"
      using c at_b [of x] at_c [of c x] b by (cases "c = numBBs fn \<or> c = b") (auto simp: covered_def)
  next
    fix x assume "x \<in> covered fn"
    then obtain c where c: "c < numBBs fn" "bb_at (basic_blocks fn ! c) x" by (auto simp: covered_def)
    show "x \<in> covered ?fn"
    proof (cases "c = b")
      case True
      then show ?thesis using c at_b [of x] n' by (auto simp: covered_def less_Suc_eq)
    next
      case False
      then show ?thesis using c at_c [of c x] n' by (auto simp: covered_def less_Suc_eq)
    qed
  qed
  then show thesis using that [of ?fn] bbs sp ok n' u by simp
qed

lemma split_reach:
  assumes em: "edges_match (basic_blocks fn)" and sp: "split_of (basic_blocks fn) b addr (basic_blocks fn')"
    and n: "numBBs fn < 65531" and b: "b < numBBs fn"
  shows "reach fn' b (numBBs fn)"
    and "a < numBBs fn \<Longrightarrow> reach fn a c \<Longrightarrow> reach fn' a c"
    and "a < numBBs fn \<Longrightarrow> c < numBBs fn \<Longrightarrow> reach fn' a c \<Longrightarrow> reach fn a c"
proof -
  let ?n = "numBBs fn"
  note S = split_ofD [OF sp, folded numBBs_def]
  have new: "\<not> isExitId (of_nat ?n)" "unat (of_nat ?n :: u16) = ?n" using block_id_not_exit(1) [OF n] n by (simp_all add: unat16)
  have E: "succ_blocks fn' b = {?n}" "succ_blocks fn' ?n = succ_blocks fn b"
    "\<And>c. c < ?n \<Longrightarrow> c \<noteq> b \<Longrightarrow> succ_blocks fn' c = succ_blocks fn c"
    using S(4) S(4) [OF b] S(8) new by (auto simp: succ_blocks_def)
  show bn: "reach fn' b ?n" using E(1) by (auto intro: reach.intros)
  have edge: "reach fn' x y" if "x < ?n" "y \<in> succ_blocks fn x" for x y
  proof (cases "x = b")
    case True
    then have "reach fn' ?n y" using that(2) E(2) by (auto intro: reach.intros)
    then show ?thesis using reach_trans [OF bn] True by simp
  next
    case False
    then show ?thesis using that E(3) by (auto intro: reach.intros)
  qed
  show "reach fn' a c" if "a < ?n" "reach fn a c"
    using reach_map [OF that(2,1), of fn' "\<lambda>x. x"] edge succ_blocksD [OF em] by blast
  let ?f = "\<lambda>x. if x = ?n then b else x"
  have "y < Suc ?n \<and> reach fn (?f x) (?f y)" if x: "x < Suc ?n" and y: "y \<in> succ_blocks fn' x" for x y
  proof -
    consider "x = ?n" | "x = b" "x \<noteq> ?n" | "x < ?n" "x \<noteq> b" using x by linarith
    then show ?thesis
    proof cases
      case 1
      then have y2: "y \<in> succ_blocks fn b" "y < ?n" using y E(2) succ_blocksD [OF em b] by auto
      then show ?thesis using 1 by (auto intro: reach.intros)
    next
      case 2
      then show ?thesis using y E(1) b by (auto intro: reach.intros)
    next
      case 3
      then have y2: "y \<in> succ_blocks fn x" "y < ?n" using y E(3) succ_blocksD [OF em 3(1)] by auto
      then show ?thesis using 3 by (auto intro: reach.intros)
    qed
  qed
  from reach_map [OF _ _ this] have "reach fn (?f a) (?f c)" if "a < Suc ?n" "reach fn' a c"
    using that by blast
  then show "reach fn a c" if "a < ?n" "c < ?n" "reach fn' a c" using that by fastforce
qed

lemma cfg_ok_sorted: "cfg_ok fn \<Longrightarrow> cfg_ok (sorted_fn fn)"
  by (simp add: cfg_ok_def sorted_fn_ok)

lemma reach_same_blocks: "basic_blocks fn' = basic_blocks fn \<Longrightarrow> reach fn' = reach fn"
proof -
  have "reach fn' a c" if "reach fn a c" "succ_blocks fn' = succ_blocks fn" for fn fn' a c
    using that by (induction rule: reach.induct) (auto intro: reach.intros)
  moreover have "basic_blocks fn' = basic_blocks fn \<Longrightarrow> succ_blocks fn' = succ_blocks fn"
    by (rule ext) (simp add: succ_blocks_def)
  ultimately show "basic_blocks fn' = basic_blocks fn \<Longrightarrow> reach fn' = reach fn" by (intro ext iffI) auto
qed

lemma reach_sorted_fn [simp]: "reach (sorted_fn fn) = reach fn"
  by (rule reach_same_blocks) simp

lemma covered_sorted_fn [simp]: "covered (sorted_fn fn) = covered fn"
  by (simp add: covered_def)

lemma found_at_id:
  assumes "found_at fn addr r" and "numBBs fn \<le> 65531"
  shows "r = -1 \<longleftrightarrow> addr \<notin> covered fn"
    and "r \<noteq> -1 \<Longrightarrow> unat r < numBBs fn" and "r \<noteq> -1 \<Longrightarrow> bb_at (basic_blocks fn ! unat r) addr"
proof -
  have "unat (-1 :: u16) = 65535" by (simp add: unsigned_minus_1_eq_mask mask_eq_exp_minus_1)
  then show "r = -1 \<longleftrightarrow> addr \<notin> covered fn" using assms by (auto simp: found_at_def covered_def split: if_splits)
  show "r \<noteq> -1 \<Longrightarrow> unat r < numBBs fn" "r \<noteq> -1 \<Longrightarrow> bb_at (basic_blocks fn ! unat r) addr"
    using assms by (auto simp: found_at_def split: if_splits)
qed

section \<open>Properties\<close>

text \<open>
  C6: On a control flow graph whose edges are known at both ends and whose blocks do not overlap,
  making an address the start of a block never fails. When some block contains the address, a
  block starts there afterwards. The result is again such a graph, the blocks cover the same addresses,
  and control can go from one of the old blocks to another exactly when it could before.
\<close>

theorem ensure_start_of_bb_correct:
  assumes g: "cfg_ok fn" and n: "numBBs fn < 65531"
  shows "\<exists>fn'. ensure_start_of_bb fn addr = Some fn' \<and> cfg_ok fn' \<and> covered fn' = covered fn \<and>
    (addr \<in> covered fn \<longrightarrow> (\<exists>b < numBBs fn'. bb_startAddr (basic_blocks fn' ! b) = addr)) \<and>
    (\<forall>a < numBBs fn. \<forall>c < numBBs fn. reach fn' a c \<longleftrightarrow> reach fn a c)"
proof -
  have t: "table_ok fn" using g by (simp add: cfg_ok_def)
  obtain r where r: "searchForBB fn addr = Some (r, sorted_fn fn)" "found_at fn addr r"
    using searchForBB_spec [OF t] by blast
  note F = found_at_id [OF r(2) table_okD(1) [OF t]]
  note gs = cfg_ok_sorted [OF g]
  show ?thesis
  proof (cases "r = -1")
    case True
    then show ?thesis using r F(1) gs by (intro exI [of _ "sorted_fn fn"]) (simp add: ensure_start_of_bb_def)
  next
    case in_block: False
    have get: "vget (basic_blocks fn) r = Some (basic_blocks fn ! unat r)" using F(2) in_block by (simp add: vget_def numBBs_def)
    show ?thesis
    proof (cases "bb_startAddr (basic_blocks fn ! unat r) = addr")
      case True
      then show ?thesis
        using r(1) in_block get gs F(2) by (intro exI [of _ "sorted_fn fn"]) (auto simp: ensure_start_of_bb_def)
    next
      case False
      then have lt: "bb_start (basic_blocks fn ! unat r) < unat addr"
        using F(3) in_block by (simp add: bb_at_def word_unat_eq_iff)
      obtain fn' where fn': "splitBasicBlock (sorted_fn fn) r addr = Some (of_nat (numBBs fn), fn')" "cfg_ok fn'"
        "numBBs fn' = Suc (numBBs fn)" "split_of (basic_blocks fn) (unat r) addr (basic_blocks fn')" "covered fn' = covered fn"
        using split_cfg [OF gs, of "unat r" addr] n F(2,3) in_block lt by auto
      have "bb_startAddr (basic_blocks fn' ! numBBs fn) = addr" using split_ofD(6) [OF fn'(4)] by (simp add: numBBs_def)
      moreover have "\<forall>a < numBBs fn. \<forall>c < numBBs fn. reach fn' a c \<longleftrightarrow> reach fn a c"
        using split_reach(2,3) [OF _ fn'(4) n F(2)] g in_block by (auto simp: cfg_ok_def)
      ultimately show ?thesis using r(1) in_block get False fn' by (auto simp: ensure_start_of_bb_def)
    qed
  qed
qed

text \<open>The graph of a loop: block 0 goes to block 1, which goes back or leaves the function.\<close>

definition loop_blocks :: "basicblock \<Rightarrow> basicblock \<Rightarrow> basicblock list" where
  "loop_blocks A B = [A\<lparr>bb_s := edges_rep [1], bb_p := edges_rep [1]\<rparr>, B\<lparr>bb_s := edges_rep [0, xExitBBId], bb_p := edges_rep [0]\<rparr>]"

lemma loop_graph_ok:
  assumes bbs: "basic_blocks fn = loop_blocks A B" and fits: "bb_fits A" "bb_fits B" and sep: "before A B"
    and ids: "sorted_blocks fn @ unsorted_blocks fn = [0, 1]"
  shows "cfg_ok fn"
proof -
  have apart: "blocks_apart (basic_blocks fn)"
    using fits sep unfolding bbs by (simp add: blocks_apart_def loop_blocks_def bb_fits_def before_def)
  have "sorted_wrt (\<lambda>i j. start_of fn i < start_of fn j) (sorted_blocks fn @ unsorted_blocks fn)"
    unfolding ids using sep by (simp add: start_of_def bbs loop_blocks_def before_def word_less_nat_alt)
  then have "sorted_wrt (\<lambda>i j. start_of fn i < start_of fn j) (sorted_blocks fn)" unfolding sorted_wrt_append by blast
  then have "table_ok fn"
    using apart unfolding table_ok_def ids by (auto simp: numBBs_def bbs loop_blocks_def lessThan_Suc numeral_2_eq_2)
  moreover have "edges_match (loop_blocks A B)"
    unfolding edges_match_def
  proof (intro allI impI)
    fix b assume "b < length (loop_blocks A B)"
    then consider "b = 0" | "b = 1" by (auto simp: loop_blocks_def less_Suc_eq)
    then show "bb_ok (loop_blocks A B ! b) \<and> distinct (bb_succs (loop_blocks A B ! b)) \<and> distinct (bb_preds (loop_blocks A B ! b)) \<and>
      (\<forall>s \<in> set (bb_succs (loop_blocks A B ! b)). isExitId s \<or> unat s < length (loop_blocks A B) \<and>
         of_nat b \<in> set (bb_preds (loop_blocks A B ! unat s))) \<and>
      (\<forall>p \<in> set (bb_preds (loop_blocks A B ! b)). unat p < length (loop_blocks A B))"
      by cases (simp_all add: loop_blocks_def bb_ok_def edges_ok_def bb_succs_def bb_preds_def
        isExitId_def xExitBBId_def UnanalyzableBBId_def interProcBranchExitBBId_def)
  qed
  ultimately show ?thesis by (simp add: cfg_ok_def bbs)
qed

definition demo_graph :: function_t where
  "demo_graph = (fn_new 100 ''demo'')\<lparr>
     basic_blocks := loop_blocks (bb_from_parts 100 102 4) (bb_from_parts 104 104 2), unsorted_blocks := [0, 1]\<rparr>"

lemma demo_graph_ok: "cfg_ok demo_graph"
  by (rule loop_graph_ok [of _ "bb_from_parts 100 102 4" "bb_from_parts 104 104 2"])
    (simp_all add: demo_graph_def fn_new_def bb_fits_def before_def bb_from_parts_def)

theorem ensure_start_of_bb_correct_witness:
  "\<exists>fn'. ensure_start_of_bb demo_graph 102 = Some fn' \<and> cfg_ok fn' \<and> (\<exists>b < numBBs fn'. bb_startAddr (basic_blocks fn' ! b) = 102)"
proof -
  have "0 < numBBs demo_graph" "bb_at (basic_blocks demo_graph ! 0) 102"
    by (simp_all add: numBBs_def demo_graph_def loop_blocks_def bb_at_def bb_from_parts_def)
  then have "102 \<in> covered demo_graph" unfolding covered_def by blast
  moreover have "numBBs demo_graph < 65531" by (simp add: numBBs_def demo_graph_def loop_blocks_def)
  ultimately show ?thesis using ensure_start_of_bb_correct [OF demo_graph_ok, of 102] by blast
qed

end
