(* ===== verification/BlockOrder.thy ===== *)
theory BlockOrder
  imports LiveRegs BlockGraph
begin

text \<open>
  The control flow graph of a function and its depth-first traversal
  (\<open>kerninstd/function/src/funkshun.C\<close>, \<open>performDFS\<close>), which numbers the basic blocks in preorder and in
  postorder. Block ids and numbers are 16-bit words, with -1 for \<open>no number yet\<close>; an access outside of a
  vector is an abort. The addresses of exit edges come from the function's code.
\<close>

section \<open>Depth-first traversal\<close>

text \<open>A running number with the vectors that map numbers to blocks and back.\<close>

record numbering =
  currOrderNum :: u16
  orderNum2BlockId :: "u16 list"
  blockId2OrderNum :: "u16 list"

definition numbering_new :: "nat \<Rightarrow> numbering" where
  "numbering_new n = \<lparr>currOrderNum = 0, orderNum2BlockId = replicate n (-1), blockId2OrderNum = replicate n (-1)\<rparr>"

definition number_block :: "u16 \<Rightarrow> numbering \<Rightarrow> numbering option" where
  "number_block bb_id m = do {
     a \<leftarrow> vget (orderNum2BlockId m) (currOrderNum m);
     assert (a = -1);
     ids \<leftarrow> vset (orderNum2BlockId m) (currOrderNum m) bb_id;
     b \<leftarrow> vget (blockId2OrderNum m) bb_id;
     assert (b = -1);
     nums \<leftarrow> vset (blockId2OrderNum m) bb_id (currOrderNum m);
     Some \<lparr>currOrderNum = currOrderNum m + 1, orderNum2BlockId = ids, blockId2OrderNum = nums\<rparr>
   }"

record dfs =
  preOrder :: numbering
  postOrder :: numbering

text \<open>The consistency check of the graph that precedes the visit of a block's successors.\<close>

definition check_succs :: "function_t \<Rightarrow> u16 \<Rightarrow> basicblock \<Rightarrow> unit option" where
  "check_succs fn bb_id bb =
     assert (list_all (\<lambda>s. isExitId s \<or>
       (case vget (basic_blocks fn) s of None \<Rightarrow> False | Some sb \<Rightarrow> hasAsAPredecessor sb bb_id)) (bb_succs bb))"

definition dfs_enter :: "function_t \<Rightarrow> u16 \<Rightarrow> dfs \<Rightarrow> (u16 list \<times> dfs) option" where
  "dfs_enter fn bb_id d = do {
     pre \<leftarrow> number_block bb_id (preOrder d);
     bb \<leftarrow> vget (basic_blocks fn) bb_id;
     check_succs fn bb_id bb;
     Some (bb_succs bb, d\<lparr>preOrder := pre\<rparr>)
   }"

definition dfs_leave :: "u16 \<Rightarrow> dfs \<Rightarrow> dfs option" where
  "dfs_leave bb_id d = do { post \<leftarrow> number_block bb_id (postOrder d); Some (d\<lparr>postOrder := post\<rparr>) }"

text \<open>The loop over the successors of a block, with the recursive visit of an unvisited one in place.\<close>

partial_function (option) dfs_succs :: "function_t \<Rightarrow> u16 list \<Rightarrow> dfs \<Rightarrow> dfs option" where
  "dfs_succs fn ids d =
     (case ids of
        [] \<Rightarrow> Some d
      | succ_id # rest \<Rightarrow>
          if isExitId succ_id then dfs_succs fn rest d
          else do {
            num \<leftarrow> vget (blockId2OrderNum (preOrder d)) succ_id;
            d' \<leftarrow> (if num = -1 then do {
                     (succs, d1) \<leftarrow> dfs_enter fn succ_id d;
                     d2 \<leftarrow> dfs_succs fn succs d1;
                     dfs_leave succ_id d2
                   }
                   else Some d);
            dfs_succs fn rest d'
          })"

definition dfs_visit :: "function_t \<Rightarrow> u16 \<Rightarrow> dfs \<Rightarrow> dfs option" where
  "dfs_visit fn bb_id d = do {
     (succs, d1) \<leftarrow> dfs_enter fn bb_id d;
     d2 \<leftarrow> dfs_succs fn succs d1;
     dfs_leave bb_id d2
   }"

text \<open>Finding the entry block may sort the blocks of the function, which is returned with the numbers.\<close>

definition performDFS :: "function_t \<Rightarrow> (dfs \<times> function_t) option" where
  "performDFS fn =
     (let d = \<lparr>preOrder = numbering_new (numBBs fn), postOrder = numbering_new (numBBs fn)\<rparr> in
      if numBBs fn > 0 then do {
        (entry_bb_id, fn') \<leftarrow> xgetEntryBB fn;
        d' \<leftarrow> dfs_visit fn' entry_bb_id d;
        Some (d', fn')
      }
      else Some (d, fn))"

section \<open>Numberings\<close>

text \<open>The vectors hold the numbering of the blocks \<open>xs\<close>, in this order.\<close>

definition numbered :: "nat \<Rightarrow> nat list \<Rightarrow> numbering \<Rightarrow> bool" where
  "numbered n xs m \<longleftrightarrow> distinct xs \<and> set xs \<subseteq> {..<n} \<and> currOrderNum m = of_nat (length xs) \<and>
     length (orderNum2BlockId m) = n \<and> length (blockId2OrderNum m) = n \<and>
     (\<forall>k < n. orderNum2BlockId m ! k = (if k < length xs then of_nat (xs ! k) else -1)) \<and>
     (\<forall>k < length xs. blockId2OrderNum m ! (xs ! k) = of_nat k) \<and>
     (\<forall>b < n. b \<notin> set xs \<longrightarrow> blockId2OrderNum m ! b = -1)"

lemma of_nat16_neq: "n < 65535 \<Longrightarrow> (of_nat n :: u16) \<noteq> -1"
proof
  assume n: "n < 65535" and "(of_nat n :: u16) = -1"
  then have "unat (of_nat n :: u16) = unat (-1 :: u16)" by simp
  then show False using n by (simp add: unat16 unsigned_minus_1_eq_mask mask_eq_exp_minus_1)
qed

lemma numbered_new: "numbered n [] (numbering_new n)"
  by (simp add: numbered_def numbering_new_def)

lemma numbered_length: "numbered n xs m \<Longrightarrow> length xs \<le> n"
  by (metis card_lessThan card_mono distinct_card finite_lessThan numbered_def)

lemma numbered_less: "numbered n xs m \<Longrightarrow> b < n \<Longrightarrow> b \<notin> set xs \<Longrightarrow> length xs < n"
  using psubset_card_mono [of "{..<n}" "set xs"] by (auto simp: numbered_def distinct_card)

lemma numbered_visited:
  assumes "numbered n xs m" and "n \<le> 65531" and "unat b < n"
  shows "\<exists>num. vget (blockId2OrderNum m) b = Some num \<and> (num = -1 \<longleftrightarrow> unat b \<notin> set xs)"
proof -
  have "blockId2OrderNum m ! unat b \<noteq> -1" if b: "unat b \<in> set xs"
  proof -
    obtain k where k: "k < length xs" "xs ! k = unat b" using b by (auto simp: in_set_conv_nth)
    then have "blockId2OrderNum m ! unat b = of_nat k" using assms(1) by (auto simp: numbered_def)
    then show ?thesis using of_nat16_neq [of k] k(1) numbered_length [OF assms(1)] assms(2) by simp
  qed
  then show ?thesis using assms by (auto simp: numbered_def vget_def)
qed

lemma number_block_spec:
  assumes m: "numbered n xs m" and n: "n \<le> 65531" and b: "unat b < n" "unat b \<notin> set xs"
  shows "\<exists>m'. number_block b m = Some m' \<and> numbered n (xs @ [unat b]) m'"
proof -
  let ?l = "length xs"
  note l = numbered_less [OF m b]
  have u: "unat (currOrderNum m) = ?l" using m l n by (simp add: numbered_def unat16)
  let ?m = "\<lparr>currOrderNum = currOrderNum m + 1, orderNum2BlockId = (orderNum2BlockId m)[?l := b],
    blockId2OrderNum = (blockId2OrderNum m)[unat b := currOrderNum m]\<rparr>"
  have "number_block b m = Some ?m"
    using m l b u by (simp add: number_block_def vget_def vset_def numbered_def)
  moreover have "numbered n (xs @ [unat b]) ?m"
    using m l b by (auto simp: numbered_def nth_append nth_list_update less_Suc_eq in_set_conv_nth)
  ultimately show ?thesis by blast
qed

section \<open>The traversal\<close>

lemma dfs_enter_spec:
  assumes g: "cfg_ok fn" and pre: "numbered (numBBs fn) vs (preOrder d)" and b: "unat b < numBBs fn" "unat b \<notin> set vs"
  shows "\<exists>d'. dfs_enter fn b d = Some (bb_succs (basic_blocks fn ! unat b), d') \<and>
    numbered (numBBs fn) (vs @ [unat b]) (preOrder d') \<and> postOrder d' = postOrder d"
proof -
  obtain m where m: "number_block b (preOrder d) = Some m" "numbered (numBBs fn) (vs @ [unat b]) m"
    using number_block_spec [OF pre cfg_okD(1) [OF g] b] by blast
  have "check_succs fn b (basic_blocks fn ! unat b) = Some ()"
    using cfg_okD(2) [OF g b(1)]
    by (auto simp: check_succs_def list_all_iff vget_def hasAsAPredecessor_def list_ex_iff numBBs_def assert_def)
  then show ?thesis using m b by (simp add: dfs_enter_def vget_def numBBs_def)
qed

lemma dfs_leave_spec:
  assumes "numbered n cs (postOrder d)" and "n \<le> 65531" and "unat b < n" "unat b \<notin> set cs"
  shows "\<exists>d'. dfs_leave b d = Some d' \<and> preOrder d' = preOrder d \<and> numbered n (cs @ [unat b]) (postOrder d')"
  using number_block_spec [OF assms] by (auto simp: dfs_leave_def)

text \<open>
  What a stretch of the traversal does: from the visited blocks \<open>vs\<close> and the completed ones \<open>cs\<close> it adds
  \<open>ws\<close> and \<open>ds\<close>, the blocks that can be reached from \<open>S\<close>.
\<close>

definition dfs_post :: "function_t \<Rightarrow> nat set \<Rightarrow> nat list \<Rightarrow> nat list \<Rightarrow> nat list \<Rightarrow> nat list \<Rightarrow> dfs \<Rightarrow> bool" where
  "dfs_post fn S vs cs ws ds d \<longleftrightarrow>
     numbered (numBBs fn) (vs @ ws) (preOrder d) \<and> numbered (numBBs fn) (cs @ ds) (postOrder d) \<and>
     set ds = set ws \<and> S \<subseteq> set vs \<union> set ws \<and> (\<forall>w \<in> set ws. succ_blocks fn w \<subseteq> set vs \<union> set ws) \<and>
     (\<forall>w \<in> set ws. \<exists>s \<in> S. reach fn s w)"

lemma dfs_post_visit:
  assumes g: "cfg_ok fn" and b: "unat b < numBBs fn" "unat b \<notin> set vs" and cv: "set cs \<subseteq> set vs"
    and post: "dfs_post fn (succ_blocks fn (unat b)) (vs @ [unat b]) cs ws ds d"
  shows "\<exists>d'. dfs_leave b d = Some d' \<and> dfs_post fn {unat b} vs cs (unat b # ws) (ds @ [unat b]) d'"
proof -
  have dw: "set ds = set ws" "distinct (vs @ unat b # ws)" using post by (auto simp: dfs_post_def numbered_def)
  then have "unat b \<notin> set (cs @ ds)" using b(2) cv by auto
  then obtain d' where d': "dfs_leave b d = Some d'" "preOrder d' = preOrder d" "numbered (numBBs fn) ((cs @ ds) @ [unat b]) (postOrder d')"
    using dfs_leave_spec [of "numBBs fn" "cs @ ds" d b] post cfg_okD(1) [OF g] b(1) by (auto simp: dfs_post_def)
  have "\<forall>w \<in> set (unat b # ws). reach fn (unat b) w"
    using post by (auto simp: dfs_post_def intro: reach.intros)
  then show ?thesis using d' post by (auto simp: dfs_post_def)
qed

lemma dfs_post_seq:
  assumes "dfs_post fn S vs cs ws ds d" and "dfs_post fn T (vs @ ws) (cs @ ds) ws' ds' d'"
  shows "dfs_post fn (S \<union> T) vs cs (ws @ ws') (ds @ ds') d'"
  using assms unfolding dfs_post_def by (auto simp: Un_assoc)

definition block_ids :: "u16 list \<Rightarrow> nat set" where
  "block_ids ids = unat ` {s \<in> set ids. \<not> isExitId s}"

lemma block_ids_simps [simp]:
  "block_ids [] = {}" "block_ids (s # ids) = (if isExitId s then block_ids ids else insert (unat s) (block_ids ids))"
  by (auto simp: block_ids_def)

lemma dfs_succs_spec:
  assumes g: "cfg_ok fn"
  shows "numBBs fn - length vs \<le> k \<Longrightarrow> numbered (numBBs fn) vs (preOrder d) \<Longrightarrow> numbered (numBBs fn) cs (postOrder d) \<Longrightarrow>
    set cs \<subseteq> set vs \<Longrightarrow> block_ids ids \<subseteq> {..<numBBs fn} \<Longrightarrow>
    \<exists>d' ws ds. dfs_succs fn ids d = Some d' \<and> dfs_post fn (block_ids ids) vs cs ws ds d'"
proof (induction k arbitrary: vs cs d ids)
  case (0 vs cs d ids)
  then have full: "b \<in> set vs" if "b < numBBs fn" for b using numbered_less [OF 0(2) that] by fastforce
  have "dfs_succs fn ids d = Some d" using 0(5)
  proof (induction ids)
    case (Cons s ids)
    show ?case
    proof (cases "isExitId s")
      case False
      then obtain num where "vget (blockId2OrderNum (preOrder d)) s = Some num" "num \<noteq> -1"
        using numbered_visited [OF 0(2) cfg_okD(1) [OF g], of s] full Cons.prems by auto
      then show ?thesis using Cons False by (simp add: dfs_succs.simps [of fn "s # ids"])
    qed (use Cons in \<open>simp add: dfs_succs.simps [of fn "s # ids"]\<close>)
  qed (simp add: dfs_succs.simps)
  moreover have "dfs_post fn (block_ids ids) vs cs [] [] d" using 0(2,3,5) full by (auto simp: dfs_post_def)
  ultimately show ?case by blast
next
  case (Suc k vs cs d ids)
  show ?case using Suc.prems
  proof (induction ids arbitrary: vs cs d)
    case Nil
    then have "dfs_post fn {} vs cs [] [] d" by (simp add: dfs_post_def)
    moreover have "dfs_succs fn [] d = Some d" by (simp add: dfs_succs.simps)
    ultimately show ?case using block_ids_simps(1) by metis
  next
    case (Cons s ids)
    show ?case
    proof (cases "isExitId s")
      case True
      then show ?thesis using Cons by (simp add: dfs_succs.simps [of fn "s # ids"])
    next
      case False
      note s = Cons.prems
      have b: "unat s < numBBs fn" and rest: "block_ids ids \<subseteq> {..<numBBs fn}" using s(5) False by auto
      obtain num where num: "vget (blockId2OrderNum (preOrder d)) s = Some num" "num = -1 \<longleftrightarrow> unat s \<notin> set vs"
        using numbered_visited [OF s(2) cfg_okD(1) [OF g] b] by blast
      have "\<exists>d1 ws ds. (if num = -1 then do { (succs, d1) \<leftarrow> dfs_enter fn s d; d2 \<leftarrow> dfs_succs fn succs d1; dfs_leave s d2 }
          else Some d) = Some d1 \<and> dfs_post fn {unat s} vs cs ws ds d1"
      proof (cases "unat s \<in> set vs")
        case True
        then have "dfs_post fn {unat s} vs cs [] [] d" using s(2,3) by (simp add: dfs_post_def)
        then show ?thesis using num(2) True by auto
      next
        case new: False
        obtain d1 where d1: "dfs_enter fn s d = Some (bb_succs (basic_blocks fn ! unat s), d1)"
          "numbered (numBBs fn) (vs @ [unat s]) (preOrder d1)" "postOrder d1 = postOrder d"
          using dfs_enter_spec [OF g s(2) b new] by blast
        have ids: "block_ids (bb_succs (basic_blocks fn ! unat s)) = succ_blocks fn (unat s)"
          by (simp add: block_ids_def succ_blocks_def)
        then have "block_ids (bb_succs (basic_blocks fn ! unat s)) \<subseteq> {..<numBBs fn}"
          using cfg_okD(2) [OF g b] by (auto simp: succ_blocks_def)
        moreover have "numBBs fn - length (vs @ [unat s]) \<le> k" using s(1) numbered_less [OF s(2) b new] by simp
        moreover have "set cs \<subseteq> set (vs @ [unat s])" "numbered (numBBs fn) cs (postOrder d1)" using s(3,4) d1(3) by auto
        ultimately obtain d2 ws ds where d2: "dfs_succs fn (bb_succs (basic_blocks fn ! unat s)) d1 = Some d2"
          "dfs_post fn (succ_blocks fn (unat s)) (vs @ [unat s]) cs ws ds d2"
          using Suc.IH [of "vs @ [unat s]" d1 cs "bb_succs (basic_blocks fn ! unat s)"] d1(2) unfolding ids by blast
        obtain d3 where "dfs_leave s d2 = Some d3" "dfs_post fn {unat s} vs cs (unat s # ws) (ds @ [unat s]) d3"
          using dfs_post_visit [OF g b new s(4) d2(2)] by blast
        then show ?thesis using num(2) new d1(1) d2(1) by auto
      qed
      then obtain d1 ws ds where d1: "(if num = -1 then do { (succs, d1) \<leftarrow> dfs_enter fn s d; d2 \<leftarrow> dfs_succs fn succs d1; dfs_leave s d2 }
          else Some d) = Some d1" "dfs_post fn {unat s} vs cs ws ds d1" by blast
      have "numBBs fn - length (vs @ ws) \<le> Suc k" "set (cs @ ds) \<subseteq> set (vs @ ws)"
        "numbered (numBBs fn) (vs @ ws) (preOrder d1)" "numbered (numBBs fn) (cs @ ds) (postOrder d1)"
        using s(1,4) d1(2) by (auto simp: dfs_post_def)
      from Cons.IH [OF this(1,3,4,2) rest] obtain d2 ws' ds' where d2: "dfs_succs fn ids d1 = Some d2"
        "dfs_post fn (block_ids ids) (vs @ ws) (cs @ ds) ws' ds' d2" by blast
      have "dfs_succs fn (s # ids) d = Some d2"
        using False num(1) d1(1) d2(1) by (simp add: dfs_succs.simps [of fn "s # ids"])
      then show ?thesis using dfs_post_seq [OF d1(2) d2(2)] False unfolding block_ids_simps by (simp only: if_False Un_insert_left Un_empty_left) blast
    qed
  qed
qed

lemma dfs_visit_spec:
  assumes g: "cfg_ok fn" and e: "unat e < numBBs fn"
    and d: "numbered (numBBs fn) [] (preOrder d)" "numbered (numBBs fn) [] (postOrder d)"
  shows "\<exists>d' ws ds. dfs_visit fn e d = Some d' \<and> dfs_post fn {unat e} [] [] ws ds d'"
proof -
  obtain d1 where d1: "dfs_enter fn e d = Some (bb_succs (basic_blocks fn ! unat e), d1)"
    "numbered (numBBs fn) [unat e] (preOrder d1)" "postOrder d1 = postOrder d"
    using dfs_enter_spec [OF g d(1) e] by auto
  have ids: "block_ids (bb_succs (basic_blocks fn ! unat e)) = succ_blocks fn (unat e)"
    by (simp add: block_ids_def succ_blocks_def)
  then have "block_ids (bb_succs (basic_blocks fn ! unat e)) \<subseteq> {..<numBBs fn}"
    using cfg_okD(2) [OF g e] by (auto simp: succ_blocks_def)
  then obtain d2 ws ds where d2: "dfs_succs fn (bb_succs (basic_blocks fn ! unat e)) d1 = Some d2"
    "dfs_post fn (succ_blocks fn (unat e)) ([] @ [unat e]) [] ws ds d2"
    using dfs_succs_spec [OF g le_refl, of "[unat e]" d1 "[]" "bb_succs (basic_blocks fn ! unat e)"] d1(2,3) d(2)
    unfolding ids by auto
  then show ?thesis using dfs_post_visit [OF g e _ _ d2(2)] d1(1) by (auto simp: dfs_visit_def)
qed

lemma xgetEntryBB_spec:
  assumes g: "cfg_ok fn" and ne: "0 < numBBs fn"
  shows "xgetEntryBB fn = Some (hd (address_order fn), sorted_fn fn)" and "unat (hd (address_order fn)) < numBBs fn"
proof -
  have t: "table_ok fn" using g by (simp add: cfg_ok_def)
  have ne': "address_order fn \<noteq> []" using address_order(3) [OF t] ne by auto
  then show "xgetEntryBB fn = Some (hd (address_order fn), sorted_fn fn)"
    using makeSorted_eq [OF t] by (simp add: xgetEntryBB_def vget_def sorted_fn_def hd_conv_nth)
  show "unat (hd (address_order fn)) < numBBs fn"
    using hd_in_set [OF ne'] unfolding address_order(2) [OF t] by (simp only: numBBs_def table_okD(2) [OF t])
qed

lemma performDFS_spec:
  assumes g: "cfg_ok fn" and ne: "0 < numBBs fn"
  shows "\<exists>d ws ds. performDFS fn = Some (d, sorted_fn fn) \<and> numbered (numBBs fn) ws (preOrder d) \<and>
    numbered (numBBs fn) ds (postOrder d) \<and> set ws = {b. reach fn (unat (hd (address_order fn))) b} \<and> set ds = set ws"
proof -
  let ?e = "hd (address_order fn)"
  note e = xgetEntryBB_spec [OF g ne]
  have e': "unat ?e < numBBs (sorted_fn fn)" using e(2) by simp
  obtain d ws ds where d: "dfs_visit (sorted_fn fn) ?e \<lparr>preOrder = numbering_new (numBBs fn), postOrder = numbering_new (numBBs fn)\<rparr> = Some d"
    "dfs_post (sorted_fn fn) {unat ?e} [] [] ws ds d"
    using dfs_visit_spec [OF cfg_ok_sorted [OF g] e', of "\<lparr>preOrder = numbering_new (numBBs fn), postOrder = numbering_new (numBBs fn)\<rparr>"]
    by (auto simp: numbered_new)
  have "b \<in> set ws" if "reach (sorted_fn fn) (unat ?e) b" for b
    by (rule reach_closed [OF that]) (use d(2) in \<open>auto simp: dfs_post_def\<close>)
  then have "set ws = {b. reach fn (unat ?e) b}" using d(2) by (auto simp: dfs_post_def)
  then show ?thesis using d ne e(1) by (auto simp: performDFS_def dfs_post_def)
qed

section \<open>Properties\<close>

text \<open>
  C10: On a well-formed graph the depth-first traversal ends without a failed assertion, and numbers
  exactly the blocks that can be reached from the entry block, each once: the preorder and the
  postorder vectors are inverse to the maps from blocks to numbers.
\<close>

theorem dfs_numbers_reachable_blocks:
  assumes g: "cfg_ok fn" and ne: "0 < numBBs fn"
  shows "\<exists>d ws ds. performDFS fn = Some (d, sorted_fn fn) \<and> numbered (numBBs fn) ws (preOrder d) \<and>
    numbered (numBBs fn) ds (postOrder d) \<and> set ws = {b. reach fn (unat (hd (address_order fn))) b} \<and> set ds = set ws"
  by (rule performDFS_spec [OF assms])

definition demo_fn :: function_t where
  "demo_fn = (fn_new 100 ''demo'')\<lparr>origCode := demo_code,
     basic_blocks := loop_blocks (demo_block 100 2) (demo_block 102 2), sorted_blocks := [0, 1]\<rparr>"

lemma demo_loop_ok: "cfg_ok demo_fn"
  by (rule loop_graph_ok [of _ "demo_block 100 2" "demo_block 102 2"])
    (simp_all add: demo_fn_def fn_new_def bb_fits_def before_def demo_block_def)

theorem dfs_numbers_reachable_blocks_witness:
  "\<exists>d ws ds. performDFS demo_fn = Some (d, sorted_fn demo_fn) \<and> numbered 2 ws (preOrder d) \<and> numbered 2 ds (postOrder d) \<and>
     set ws = {b. reach demo_fn 0 b} \<and> set ds = set ws"
proof -
  have "numBBs demo_fn = 2" "unat (hd (address_order demo_fn)) = 0"
    by (simp_all add: demo_fn_def numBBs_def address_order_def start_of_def upt_rec loop_blocks_def demo_block_def)
  then show ?thesis using dfs_numbers_reachable_blocks [OF demo_loop_ok] by simp
qed

end
