(* ===== verification/RegAnalysis.thy ===== *)
theory RegAnalysis
  imports BlockOrder
begin

text \<open>
  Live register analysis of a function (\<open>kerninstd/interProcRegAnalysis/src/interProcRegAnalysis.h\<close>): a
  worklist over the postorder numbers of the blocks, the worklist being the class \<open>readySet\<close>. The
  values at exit edges, and the merge over the successors of a block, are those of
  \<open>kerninstd/function/src/funkshun.h\<close>. Whether the user asked to bypass the function is an argument.
\<close>

section \<open>Ready sets\<close>

record readySet =
  theset :: "bool list"
  numCurrInSet :: u32

definition readySet_new :: "nat \<Rightarrow> bool \<Rightarrow> readySet" where
  "readySet_new setsize iValues =
     \<lparr>theset = replicate setsize iValues, numCurrInSet = (if \<not> iValues then 0 else of_nat setsize)\<rparr>"

definition ready_contains :: "readySet \<Rightarrow> u16 \<Rightarrow> bool option" where
  "ready_contains s ndx = vget (theset s) ndx"

definition ready_add :: "readySet \<Rightarrow> u16 \<Rightarrow> readySet option" where
  "ready_add s ndx = do {
     b \<leftarrow> vget (theset s) ndx;
     if \<not> b then do { t \<leftarrow> vset (theset s) ndx True; Some \<lparr>theset = t, numCurrInSet = numCurrInSet s + 1\<rparr> }
     else Some s
   }"

definition ready_remove :: "readySet \<Rightarrow> u16 \<Rightarrow> readySet option" where
  "ready_remove s ndx = do {
     b \<leftarrow> vget (theset s) ndx;
     if b then do { t \<leftarrow> vset (theset s) ndx False; Some \<lparr>theset = t, numCurrInSet = numCurrInSet s - 1\<rparr> }
     else Some s
   }"

definition get_and_remove_any :: "readySet \<Rightarrow> (nat \<times> readySet) option" where
  "get_and_remove_any s =
     (case find_ndx (\<lambda>b. b) (theset s) of
        None \<Rightarrow> None
      | Some ndx \<Rightarrow> Some (ndx, \<lparr>theset = (theset s)[ndx := False], numCurrInSet = numCurrInSet s - 1\<rparr>))"

definition ready_empty :: "readySet \<Rightarrow> bool" where "ready_empty s = (numCurrInSet s = 0)"

definition ready_verify :: "readySet \<Rightarrow> bool" where
  "ready_verify s = (of_nat (length (filter (\<lambda>b. b) (theset s))) = numCurrInSet s)"

section \<open>Values on edges\<close>

definition getLiveRegFnForAnExitEdge :: "function_t \<Rightarrow> u16 \<Rightarrow> u16 \<Rightarrow> call_oracle \<Rightarrow> dataflow_fn option" where
  "getLiveRegFnForAnExitEdge fn bb_id succ_bb_id theOracle = do {
     assert (bb_id \<noteq> xExitBBId \<and> bb_id \<noteq> interProcBranchExitBBId);
     if succ_bb_id = xExitBBId then do {
       fallThruAddrIfAny \<leftarrow> getBBInterProcFallThruAddrIfAny fn bb_id;
       Some (if fallThruAddrIfAny \<noteq> -1 then whenDestAddrIsKnown theOracle fallThruAddrIfAny
             else getIdentityDataflowFn theOracle)
     }
     else if succ_bb_id = interProcBranchExitBBId then do {
       branchDestAddr \<leftarrow> getBBInterProcBranchDestAddrIfAny fn bb_id;
       assert (branchDestAddr \<noteq> -1);
       inside \<leftarrow> containsAddr fn branchDestAddr;
       assert (\<not> inside);
       Some (whenDestAddrIsKnown theOracle branchDestAddr)
     }
     else None
   }"

definition calc1EdgeResult :: "function_t \<Rightarrow> u16 \<Rightarrow> u16 \<Rightarrow> call_oracle \<Rightarrow> bool \<Rightarrow> dataflow_fn option" where
  "calc1EdgeResult fn bb_id succ_bb_id c optimisticIfUndefined =
     (if succ_bb_id = xExitBBId \<or> succ_bb_id = interProcBranchExitBBId
      then getLiveRegFnForAnExitEdge fn bb_id succ_bb_id c
      else if succ_bb_id = UnanalyzableBBId then Some (getPessimisticDataflowFn c 0)
      else do {
        top \<leftarrow> vget (liveRegisters fn) succ_bb_id;
        if \<not> Dummy top then Some top
        else if optimisticIfUndefined then Some (getOptimisticDataflowFn c)
        else None
      })"

fun merge_loop :: "function_t \<Rightarrow> u16 \<Rightarrow> call_oracle \<Rightarrow> bool \<Rightarrow> u16 list \<Rightarrow> dataflow_fn \<Rightarrow> dataflow_fn option" where
  "merge_loop fn bb_id c opt [] result = Some result"
| "merge_loop fn bb_id c opt (succ_bb_id # ids) result = do {
     e \<leftarrow> calc1EdgeResult fn bb_id succ_bb_id c opt;
     merge_loop fn bb_id c opt ids (df_mergeWith result e (getMergeOp c))
   }"

definition mergeSuccessors :: "function_t \<Rightarrow> u16 \<Rightarrow> call_oracle \<Rightarrow> bool \<Rightarrow> dataflow_fn option" where
  "mergeSuccessors fn bb_id c optimisticIfUndefined = do {
     assert (bb_id \<noteq> xExitBBId \<and> bb_id \<noteq> interProcBranchExitBBId);
     bb \<leftarrow> vget (basic_blocks fn) bb_id;
     (case bb_succs bb of
        [] \<Rightarrow> None
      | succ_bb_id # ids \<Rightarrow> do {
          e \<leftarrow> calc1EdgeResult fn bb_id succ_bb_id c optimisticIfUndefined;
          merge_loop fn bb_id c optimisticIfUndefined ids e
        })
   }"

section \<open>The analysis\<close>

definition setAllBBsToConservative :: "function_t \<Rightarrow> call_oracle \<Rightarrow> function_t option" where
  "setAllBBsToConservative fn c = do {
     assert (numBBs fn \<le> length (liveRegisters fn));
     Some (fn\<lparr>liveRegisters := replicate (numBBs fn) (getPessimisticDataflowFn c (entryAddr fn)) @
                               drop (numBBs fn) (liveRegisters fn)\<rparr>)
   }"

definition setRegAnalysisDFSstateToVisitedButNotCompleted :: "function_t \<Rightarrow> function_t option" where
  "setRegAnalysisDFSstateToVisitedButNotCompleted fn = do {
     assert (regAnalysisDFSstate fn = unvisited);
     Some (fn\<lparr>regAnalysisDFSstate := visitedButNotCompleted\<rparr>)
   }"

definition setRegAnalysisDFSstateToCompleted :: "function_t \<Rightarrow> function_t option" where
  "setRegAnalysisDFSstateToCompleted fn = do {
     assert (regAnalysisDFSstate fn = visitedButNotCompleted);
     Some (fn\<lparr>regAnalysisDFSstate := completed\<rparr>)
   }"

definition giveUpOnRegisterAnalysis1Fn :: "function_t \<Rightarrow> call_oracle \<Rightarrow> function_t option" where
  "giveUpOnRegisterAnalysis1Fn fn c = setAllBBsToConservative fn c"

definition isRidiculous :: "dataflow_fn \<Rightarrow> bool" where
  "isRidiculous dfFn = (100 \<le> getNumPreSaveFramesManufactured dfFn \<or> 100 \<le> getNumLevels dfFn \<or>
                        100 \<le> getNumSavedWindows dfFn)"

definition prepareLiveRegisters :: "function_t \<Rightarrow> dataflow_fn \<Rightarrow> function_t option" where
  "prepareLiveRegisters fn optimistic_dataflowfn = do {
     assert (length (liveRegisters fn) = 0);
     Some (fn\<lparr>liveRegisters := replicate (numBBs fn) optimistic_dataflowfn\<rparr>)
   }"

text \<open>The search for the next ready block, which starts over at the end.\<close>

partial_function (option) ready_search :: "nat \<Rightarrow> readySet \<Rightarrow> u16 \<Rightarrow> u16 option" where
  "ready_search numbbs s readySetIndex = do {
     b \<leftarrow> ready_contains s readySetIndex;
     if b then Some readySetIndex
     else ready_search numbbs s (if unat readySetIndex = numbbs - 1 then 0 else readySetIndex + 1)
   }"

text \<open>
  The merge over the successors, with the block's own function composed in; \<^term>\<open>Some None\<close> when the
  analysis gives up because the numbers of frames disagree.
\<close>

fun succ_loop :: "function_t \<Rightarrow> call_oracle \<Rightarrow> dataflow_fn \<Rightarrow> u16 \<Rightarrow> u16 list \<Rightarrow> bool \<Rightarrow> dataflow_fn \<Rightarrow>
  dataflow_fn option option" where
  "succ_loop fn c inIsolation bb_id [] firstSucc NU = Some (Some NU)"
| "succ_loop fn c inIsolation bb_id (succ_id # ids) firstSucc NU = do {
     succfn \<leftarrow> calc1EdgeResult fn bb_id succ_id c True;
     let composition = df_compose_overwrite_param inIsolation succfn;
     if firstSucc then succ_loop fn c inIsolation bb_id ids False composition
     else do {
       let NU' = df_mergeWith NU composition (getMergeOp c);
       if getNumPreSaveFramesManufactured NU' \<noteq> getNumPreSaveFramesManufactured composition then Some None
       else succ_loop fn c inIsolation bb_id ids False NU'
     }
   }"

fun add_preds :: "numbering \<Rightarrow> u16 list \<Rightarrow> readySet \<Rightarrow> readySet option" where
  "add_preds post [] s = Some s"
| "add_preds post (pred_id # ids) s = do {
     num \<leftarrow> vget (blockId2OrderNum post) pred_id;
     s' \<leftarrow> ready_add s num;
     add_preds post ids s'
   }"

partial_function (option) analysis_loop ::
  "call_oracle \<Rightarrow> dataflow_fn list \<Rightarrow> numbering \<Rightarrow> function_t \<Rightarrow> readySet \<Rightarrow> u16 \<Rightarrow> function_t option" where
  "analysis_loop c isolation post fn s readySetIndex =
     (if ready_empty s then Some fn
      else do {
        ndx \<leftarrow> ready_search (numBBs fn) s readySetIndex;
        s1 \<leftarrow> ready_remove s ndx;
        bb_id \<leftarrow> vget (orderNum2BlockId post) ndx;
        bb \<leftarrow> vget (basic_blocks fn) bb_id;
        inIsolation \<leftarrow> vget isolation bb_id;
        r \<leftarrow> succ_loop fn c inIsolation bb_id (bb_succs bb) True (getOptimisticDataflowFn c);
        (case r of
           None \<Rightarrow> giveUpOnRegisterAnalysis1Fn fn c
         | Some NU \<Rightarrow> do {
             atTopOfBB \<leftarrow> vget (liveRegisters fn) bb_id;
             if \<not> df_eq atTopOfBB NU then
               (if isRidiculous NU then giveUpOnRegisterAnalysis1Fn fn c
                else do {
                  tops \<leftarrow> vset (liveRegisters fn) bb_id NU;
                  s2 \<leftarrow> add_preds post (bb_preds bb) s1;
                  analysis_loop c isolation post (fn\<lparr>liveRegisters := tops\<rparr>) s2 ndx
                })
             else analysis_loop c isolation post fn s1 ndx
           })
      })"

definition blocks_in_isolation :: "function_t \<Rightarrow> call_oracle \<Rightarrow> dataflow_fn list option" where
  "blocks_in_isolation fn c = those (map (\<lambda>bb. doLiveRegAnalysisWholeBlock bb (origCode fn) c) (basic_blocks fn))"

definition doInterProcRegisterAnalysis1Fn :: "bool \<Rightarrow> function_t \<Rightarrow> call_oracle \<Rightarrow> function_t option" where
  "doInterProcRegisterAnalysis1Fn bypass fn theOracle = do {
     fn1 \<leftarrow> setRegAnalysisDFSstateToVisitedButNotCompleted fn;
     if isUnparsed fn1 then setRegAnalysisDFSstateToCompleted fn1
     else do {
       isolation \<leftarrow> blocks_in_isolation fn1 theOracle;
       fn2 \<leftarrow> prepareLiveRegisters fn1 (getOptimisticDataflowFn theOracle);
       if bypass then do { fn3 \<leftarrow> setAllBBsToConservative fn2 theOracle; setRegAnalysisDFSstateToCompleted fn3 }
       else do {
         (d, fn3) \<leftarrow> performDFS fn2;
         fn4 \<leftarrow> analysis_loop theOracle isolation (postOrder d) fn3 (readySet_new (numBBs fn3) True) 0;
         setRegAnalysisDFSstateToCompleted fn4
       }
     }
   }"

section \<open>Dataflow equations\<close>

text \<open>
  The equations the analysis solves: the value at the top of a block joins, over the block's edges, the
  block's own function composed with the value of the edge. An edge carries a constant or leads to
  the top of a block.
\<close>

type_synonym 'f edge = "'f + nat"

fun edge_value :: "'f list \<Rightarrow> 'f edge \<Rightarrow> 'f" where
  "edge_value tops (Inl f) = f"
| "edge_value tops (Inr b) = tops ! b"

definition edge_join :: "('f \<Rightarrow> 'f \<Rightarrow> 'f) \<Rightarrow> ('f \<Rightarrow> 'f \<Rightarrow> 'f) \<Rightarrow> 'f \<Rightarrow> 'f list \<Rightarrow> 'f" where
  "edge_join merge after i es = fold (\<lambda>e v. merge v (after i e)) (tl es) (after i (hd es))"

definition block_value :: "('f \<Rightarrow> 'f \<Rightarrow> 'f) \<Rightarrow> ('f \<Rightarrow> 'f \<Rightarrow> 'f) \<Rightarrow> 'f list \<Rightarrow> 'f edge list list \<Rightarrow> 'f list \<Rightarrow> nat \<Rightarrow> 'f" where
  "block_value merge after fs edges tops b = edge_join merge after (fs ! b) (map (edge_value tops) (edges ! b))"

definition equations_ok :: "('f \<Rightarrow> bool) \<Rightarrow> 'f list \<Rightarrow> 'f edge list list \<Rightarrow> bool" where
  "equations_ok ok fs edges \<longleftrightarrow> length edges = length fs \<and> list_all ok fs \<and>
     (\<forall>b < length fs. edges ! b \<noteq> [] \<and>
        (\<forall>e \<in> set (edges ! b). case e of Inl f \<Rightarrow> ok f | Inr k \<Rightarrow> k < length fs))"

text \<open>
  A lattice of finite height, given by its order, its join and a composition that is monotone in its
  second argument, all on the values that are \<open>ok\<close>.
\<close>

locale df_lattice =
  fixes ok :: "'f \<Rightarrow> bool" and le :: "'f \<Rightarrow> 'f \<Rightarrow> bool" and merge :: "'f \<Rightarrow> 'f \<Rightarrow> 'f" and after :: "'f \<Rightarrow> 'f \<Rightarrow> 'f"
    and rank :: "'f \<Rightarrow> nat" and height :: nat
  assumes le_refl: "le f f"
    and le_trans: "le f g \<Longrightarrow> le g h \<Longrightarrow> le f h"
    and le_antisym: "ok f \<Longrightarrow> ok g \<Longrightarrow> le f g \<Longrightarrow> le g f \<Longrightarrow> f = g"
    and merge_ok: "ok f \<Longrightarrow> ok g \<Longrightarrow> ok (merge f g)"
    and after_ok: "ok f \<Longrightarrow> ok g \<Longrightarrow> ok (after f g)"
    and merge_ub: "ok f \<Longrightarrow> ok g \<Longrightarrow> le f (merge f g) \<and> le g (merge f g)"
    and merge_lub: "ok f \<Longrightarrow> ok g \<Longrightarrow> le f h \<Longrightarrow> le g h \<Longrightarrow> le (merge f g) h"
    and after_mono: "ok i \<Longrightarrow> ok f \<Longrightarrow> ok g \<Longrightarrow> le f g \<Longrightarrow> le (after i f) (after i g)"
    and rank_le: "ok f \<Longrightarrow> rank f \<le> height"
    and rank_less: "ok f \<Longrightarrow> ok g \<Longrightarrow> le f g \<Longrightarrow> f \<noteq> g \<Longrightarrow> rank f < rank g"
begin

lemma fold_join:
  assumes "ok i"
  shows "ok v \<Longrightarrow> list_all ok es \<Longrightarrow> ok (fold (\<lambda>e v. merge v (after i e)) es v) \<and>
    le v (fold (\<lambda>e v. merge v (after i e)) es v) \<and>
    (\<forall>e \<in> set es. le (after i e) (fold (\<lambda>e v. merge v (after i e)) es v)) \<and>
    (\<forall>h. le v h \<longrightarrow> (\<forall>e \<in> set es. le (after i e) h) \<longrightarrow> le (fold (\<lambda>e v. merge v (after i e)) es v) h)"
proof (induction es arbitrary: v)
  case (Cons e es)
  let ?m = "merge v (after i e)" and ?F = "fold (\<lambda>e v. merge v (after i e)) es (merge v (after i e))"
  have ok: "ok (after i e)" using Cons.prems assms by (simp add: after_ok)
  have m: "ok ?m" "le v ?m" "le (after i e) ?m"
    using merge_ok [OF Cons.prems(1) ok] merge_ub [OF Cons.prems(1) ok] by auto
  have es: "list_all ok es" using Cons.prems(2) by simp
  note F = Cons.IH [OF m(1) es]
  have F': "ok ?F" "le ?m ?F" "\<forall>x \<in> set es. le (after i x) ?F" using F by auto
  have "le ?F h" if "le v h" "le (after i e) h" "\<forall>x \<in> set es. le (after i x) h" for h
    using F merge_lub [OF Cons.prems(1) ok that(1,2)] that(3) by blast
  then show ?case using F' le_trans [OF m(2) F'(2)] le_trans [OF m(3) F'(2)] by auto
qed (simp add: le_refl)

lemma edge_join:
  assumes "ok i" and "es \<noteq> []" and "list_all ok es"
  shows "ok (edge_join merge after i es)" and "e \<in> set es \<Longrightarrow> le (after i e) (edge_join merge after i es)"
    and "(\<And>e. e \<in> set es \<Longrightarrow> le (after i e) h) \<Longrightarrow> le (edge_join merge after i es) h"
proof -
  obtain e0 es' where es: "es = e0 # es'" using assms(2) by (cases es) auto
  have "ok (after i e0)" "list_all ok es'" using assms(1,3) es by (auto intro: after_ok)
  note f = fold_join [OF assms(1) this]
  show "ok (edge_join merge after i es)" using f by (simp add: edge_join_def es)
  show "e \<in> set es \<Longrightarrow> le (after i e) (edge_join merge after i es)" using f by (auto simp: edge_join_def es)
  show "(\<And>e. e \<in> set es \<Longrightarrow> le (after i e) h) \<Longrightarrow> le (edge_join merge after i es) h" using f by (simp add: edge_join_def es)
qed

lemma edge_values_ok:
  assumes "equations_ok ok fs edges" and "b < length fs" and "list_all ok tops" and "length tops = length fs"
  shows "list_all ok (map (edge_value tops) (edges ! b))" and "map (edge_value tops) (edges ! b) \<noteq> []" and "ok (fs ! b)"
  using assms by (auto simp: equations_ok_def list_all_iff split: sum.splits) (metis edge_value.elims nth_mem)

lemma block_value_ok:
  assumes "equations_ok ok fs edges" and "b < length fs" and "list_all ok tops" and "length tops = length fs"
  shows "ok (block_value merge after fs edges tops b)"
  unfolding block_value_def by (rule edge_join) (use edge_values_ok [OF assms] in auto)

lemma block_value_mono:
  assumes eq: "equations_ok ok fs edges" and b: "b < length fs"
    and t: "list_all ok tops" "length tops = length fs" and u: "list_all ok tops'" "length tops' = length fs"
    and le: "\<And>k. k < length fs \<Longrightarrow> le (tops ! k) (tops' ! k)"
  shows "le (block_value merge after fs edges tops b) (block_value merge after fs edges tops' b)"
proof -
  note v = edge_values_ok [OF eq b t] and v' = edge_values_ok [OF eq b u]
  show ?thesis
    unfolding block_value_def
  proof (rule edge_join(3) [OF v(3,2,1)])
    fix x assume "x \<in> set (map (edge_value tops) (edges ! b))"
    then obtain e where e: "e \<in> set (edges ! b)" "x = edge_value tops e" by auto
    have "case e of Inl f \<Rightarrow> ok f | Inr k \<Rightarrow> k < length fs" using e(1) eq b by (auto simp: equations_ok_def)
    then have "le x (edge_value tops' e)" unfolding e(2) using le le_refl by (auto split: sum.splits)
    then have "le (after (fs ! b) x) (after (fs ! b) (edge_value tops' e))"
      using v v' e by (intro after_mono) (auto simp: list_all_iff)
    then show "le (after (fs ! b) x) (edge_join merge after (fs ! b) (map (edge_value tops') (edges ! b)))"
      by (rule le_trans) (rule edge_join(2) [OF v'(3,2,1)], use e in auto)
  qed
qed

text \<open>
  The invariant of a worklist that still has to look at the blocks \<open>R\<close>: every block is at most its
  equation's value, and equal to it unless it is in \<open>R\<close>.
\<close>

lemma inv_update:
  assumes eq: "equations_ok ok fs edges" and b: "b < length fs"
    and t: "list_all ok tops" "length tops = length fs"
    and up: "\<And>k. k < length fs \<Longrightarrow> le (tops ! k) (block_value merge after fs edges tops k)"
  defines "tops' \<equiv> tops[b := block_value merge after fs edges tops b]"
  shows "list_all ok tops'" and "length tops' = length fs"
    and "k < length fs \<Longrightarrow> le (tops ! k) (tops' ! k)"
    and "k < length fs \<Longrightarrow> le (tops' ! k) (block_value merge after fs edges tops' k)"
proof -
  have v: "ok (block_value merge after fs edges tops b)" by (rule block_value_ok [OF eq b t])
  show ok': "list_all ok tops'" unfolding tops'_def using t v b by (auto simp: list_all_length nth_list_update)
  show len': "length tops' = length fs" by (simp add: tops'_def t)
  have inc: "le (tops ! k) (tops' ! k)" if "k < length fs" for k
    using up [OF b] le_refl that t by (cases "k = b") (simp_all add: tops'_def)
  then show "k < length fs \<Longrightarrow> le (tops ! k) (tops' ! k)" .
  have mono: "le (block_value merge after fs edges tops k) (block_value merge after fs edges tops' k)" if "k < length fs" for k
    by (rule block_value_mono [OF eq that t ok' len' inc])
  show "k < length fs \<Longrightarrow> le (tops' ! k) (block_value merge after fs edges tops' k)"
    using mono [of k] le_trans [OF up [of k] mono [of k]] t by (cases "k = b") (simp_all add: tops'_def)
qed

lemma block_value_unchanged:
  assumes "Inr b \<notin> set (edges ! k)"
  shows "block_value merge after fs edges (tops[b := v]) k = block_value merge after fs edges tops k"
proof -
  have "edge_value (tops[b := v]) e = edge_value tops e" if "e \<in> set (edges ! k)" for e
    using assms that by (cases e) (auto intro: nth_list_update_neq)
  then show ?thesis by (simp add: block_value_def cong: map_cong)
qed

lemma sum_rank_less:
  assumes "list_all ok tops" and "b < length tops" and "ok v" and "le (tops ! b) v" and "tops ! b \<noteq> v"
  shows "sum_list (map (\<lambda>f. height - rank f) (tops[b := v])) < sum_list (map (\<lambda>f. height - rank f) tops)"
proof -
  let ?m = "\<lambda>f. height - rank f"
  have "rank (tops ! b) < rank v" "rank v \<le> height"
    using assms by (auto intro: rank_less rank_le simp: list_all_length)
  then have less: "?m v < ?m (tops ! b)" by simp
  have "sum_list (map ?m (tops[b := v])) = sum_list ((map ?m tops)[b := ?m v])" by (simp add: map_update)
  also have "\<dots> = sum_list (map ?m tops) + ?m v - ?m (tops ! b)" using assms(2) by (simp add: sum_list_update)
  finally show ?thesis
    using less elem_le_sum_list [of b "map ?m tops"] assms(2) by simp
qed

end

section \<open>The lattice of live registers\<close>

text \<open>
  The optimistic value of the live register problem, from the constructor of \<open>moduleMgr\<close>: every register
  is dead but the program counter, which ignores writes.
\<close>

definition live_optimistic :: dataflow_fn where
  "live_optimistic = df_passSet stopAllRegs regsThatIgnoreWrites"

definition gen_bits :: "dataflow_fn \<Rightarrow> reg_bit set" where "gen_bits f = {x. rs_mem (gen (df_data f)) x}"
definition live_bits :: "dataflow_fn \<Rightarrow> reg_bit set" where
  "live_bits f = {x. rs_mem (thru (df_data f)) x \<or> rs_mem (gen (df_data f)) x}"

definition live_ok :: "dataflow_fn \<Rightarrow> bool" where
  "live_ok f \<longleftrightarrow> df_wf f \<and> \<not> Dummy f \<and> MiscBit 29 \<in> live_bits f"

definition live_le :: "dataflow_fn \<Rightarrow> dataflow_fn \<Rightarrow> bool" where
  "live_le f g \<longleftrightarrow> gen_bits f \<subseteq> gen_bits g \<and> live_bits f \<subseteq> live_bits g"

abbreviation df_join :: "dataflow_fn \<Rightarrow> dataflow_fn \<Rightarrow> dataflow_fn" where
  "df_join \<equiv> \<lambda>f g. df_mergeWith f g mergeopBitwiseOr"

lemma join_bits:
  assumes "df_wf f" and "df_wf g"
  shows "gen_bits (df_join f g) = gen_bits f \<union> gen_bits g" and "live_bits (df_join f g) = live_bits f \<union> live_bits g"
  using mw_wfD(3) [OF assms(1)] mw_wfD(3) [OF assms(2)] xr.mem_U
  by (auto simp: gen_bits_def live_bits_def df_mergeWith_def df_simps mem_laws mw_ok_def)

lemma after_bits:
  "gen_bits (df_compose_overwrite_param f g) = (gen_bits g \<inter> {x. rs_mem (thru (df_data f)) x}) \<union> gen_bits f"
  "live_bits (df_compose_overwrite_param f g) = (live_bits g \<inter> {x. rs_mem (thru (df_data f)) x}) \<union> gen_bits f"
  by (auto simp: gen_bits_def live_bits_def df_compose_overwrite_param_def df_simps mem_laws)

lemma df_wf_join: "df_wf f \<Longrightarrow> df_wf g \<Longrightarrow> df_wf (df_join f g)"
  by (simp add: df_mergeWith_def mw_wf_ops)

lemma df_wf_after: "df_wf f \<Longrightarrow> df_wf g \<Longrightarrow> df_wf (df_compose_overwrite_param f g)"
  by (simp add: df_compose_overwrite_param_def mw_wf_ops)

lemma live_antisym:
  assumes "live_ok f" and "live_ok g" and "live_le f g" and "live_le g f"
  shows "f = g"
proof -
  note wf = assms(1,2) [unfolded live_ok_def]
  have g: "rs_mem (gen (df_data f)) x \<longleftrightarrow> rs_mem (gen (df_data g)) x" for x
    using assms(3,4) by (auto simp: live_le_def gen_bits_def)
  have t: "rs_mem (thru (df_data f)) x \<longleftrightarrow> rs_mem (thru (df_data g)) x" for x
    using assms(3,4) g [of x] mw_wfD(5) [of "df_data f" x] mw_wfD(5) [of "df_data g" x] wf
    by (auto simp: live_le_def live_bits_def)
  have "gen (df_data f) = gen (df_data g)" "thru (df_data f) = thru (df_data g)"
    using wf by (auto intro!: xr.ext g t simp: mw_okD df_okD)
  then show "f = g" using wf by (simp add: dataflow_fn.equality)
qed

definition live_rank :: "dataflow_fn \<Rightarrow> nat" where "live_rank f = card (gen_bits f) + card (live_bits f)"

lemma live_bits_finite:
  assumes "live_ok f"
  shows "gen_bits f \<subseteq> reg_bits" and "live_bits f \<subseteq> reg_bits" and "finite (gen_bits f)" and "finite (live_bits f)"
proof -
  have "mw_ok (df_data f)" using assms by (simp add: live_ok_def df_okD)
  then show a: "gen_bits f \<subseteq> reg_bits" and b: "live_bits f \<subseteq> reg_bits"
    using xr.mem_U by (auto simp: gen_bits_def live_bits_def mw_ok_def)
  show "finite (gen_bits f)" "finite (live_bits f)"
    by (rule finite_subset [OF a finite_reg_bits], rule finite_subset [OF b finite_reg_bits])
qed

interpretation lv: df_lattice live_ok live_le df_join df_compose_overwrite_param live_rank "2 * card reg_bits"
proof unfold_locales
  fix f g h i
  show "live_le f f" by (simp add: live_le_def)
  show "live_le f g \<Longrightarrow> live_le g h \<Longrightarrow> live_le f h" by (auto simp: live_le_def)
  show "live_ok f \<Longrightarrow> live_ok g \<Longrightarrow> live_le f g \<Longrightarrow> live_le g f \<Longrightarrow> f = g" by (rule live_antisym)
  show "live_ok f \<Longrightarrow> live_ok g \<Longrightarrow> live_ok (df_join f g)"
    by (simp add: live_ok_def df_wf_join join_bits) (simp add: df_mergeWith_def)
  show "live_ok f \<Longrightarrow> live_ok g \<Longrightarrow> live_ok (df_compose_overwrite_param f g)"
    unfolding live_ok_def after_bits
    by (simp add: df_wf_after live_bits_def gen_bits_def) (auto simp: df_compose_overwrite_param_def)
  show "live_ok f \<Longrightarrow> live_ok g \<Longrightarrow> live_le f (df_join f g) \<and> live_le g (df_join f g)"
    by (simp add: live_le_def live_ok_def join_bits)
  show "live_ok f \<Longrightarrow> live_ok g \<Longrightarrow> live_le f h \<Longrightarrow> live_le g h \<Longrightarrow> live_le (df_join f g) h"
    by (simp add: live_le_def live_ok_def join_bits)
  show "live_ok i \<Longrightarrow> live_ok f \<Longrightarrow> live_ok g \<Longrightarrow> live_le f g \<Longrightarrow>
      live_le (df_compose_overwrite_param i f) (df_compose_overwrite_param i g)"
    unfolding live_le_def after_bits by blast
  show "live_ok f \<Longrightarrow> live_rank f \<le> 2 * card reg_bits"
    using card_mono [OF finite_reg_bits live_bits_finite(1)] card_mono [OF finite_reg_bits live_bits_finite(2)]
    by (fastforce simp: live_rank_def)
  assume ok: "live_ok f" "live_ok g" and le: "live_le f g" and ne: "f \<noteq> g"
  note fin = live_bits_finite(3,4) [OF ok(2)]
  have "\<not> live_le g f" using live_antisym [OF ok le] ne by blast
  then have "gen_bits f \<subset> gen_bits g \<or> live_bits f \<subset> live_bits g" using le by (auto simp: live_le_def)
  then have "card (gen_bits f) < card (gen_bits g) \<or> card (live_bits f) < card (live_bits g)"
    using psubset_card_mono [OF fin(1)] psubset_card_mono [OF fin(2)] by blast
  moreover have "card (gen_bits f) \<le> card (gen_bits g)" "card (live_bits f) \<le> card (live_bits g)"
    using le card_mono [OF fin(1)] card_mono [OF fin(2)] by (auto simp: live_le_def)
  ultimately show "live_rank f < live_rank g" by (auto simp: live_rank_def)
qed

lemma mem_ignore: "rs_mem regsThatIgnoreWrites x \<longleftrightarrow> x = MiscBit 29"
proof -
  have "\<not> rs_mem regsThatIgnoreWrites x" if "x \<in> {IntBit 30, IntBit 31}"
    using that by (auto simp: regsThatIgnoreWrites_def rs_raw_def)
  then show ?thesis using bits_ignore [of x] unfolding bits_iff by blast
qed

lemma live_optimistic: "live_ok live_optimistic" "live_ok f \<Longrightarrow> live_le live_optimistic f"
proof -
  have "df_wf live_optimistic"
    by (simp add: live_optimistic_def df_passSet_def mw_wf_sets(3) df_wf_consts wf_ignore)
  moreover have "gen_bits live_optimistic = {}"
    using rs_minus_iff [OF _ wf_ignore, of rs_empty] wf_empty
    by (auto simp: gen_bits_def live_optimistic_def df_passSet_def mw_passSet_def stopAllRegs_def df_of_window_def mbdf_window_bools_def)
  moreover from this have "live_bits live_optimistic = {MiscBit 29}"
    by (auto simp: live_bits_def gen_bits_def live_optimistic_def df_passSet_def mw_passSet_def stopAllRegs_def df_of_window_def
        mbdf_window_bools_def mem_laws mem_ignore)
  ultimately show "live_ok live_optimistic" "live_ok f \<Longrightarrow> live_le live_optimistic f"
    by (simp_all add: live_ok_def live_le_def) (simp add: live_optimistic_def df_passSet_def stopAllRegs_def df_of_window_def)
qed

end
