(* ===== verification/RegFixpoint.thy ===== *)
theory RegFixpoint
  imports RegAnalysis
begin

text \<open>
  Correctness of the register analysis of a function: the worklist of
  \<open>interProcRegAnalysis/src/interProcRegAnalysis.h\<close> becomes empty, and the values it leaves at the tops of
  the blocks are the least solution of the liveness equations of the control flow graph.
\<close>

section \<open>Ready sets\<close>

abbreviation num_ready :: "readySet \<Rightarrow> nat" where
  "num_ready s \<equiv> length (filter (\<lambda>b. b) (theset s))"

definition ready_ok :: "nat \<Rightarrow> readySet \<Rightarrow> bool" where
  "ready_ok n s \<longleftrightarrow> n \<le> 65531 \<and> length (theset s) = n \<and> ready_verify s"

lemma count_update:
  "k < length xs \<Longrightarrow> length (filter (\<lambda>b. b) (xs[k := v])) + (if xs ! k then 1 else 0) =
     length (filter (\<lambda>b. b) xs) + (if v then 1 else 0)"
proof (induction xs arbitrary: k)
  case (Cons x xs)
  show ?case using Cons.IH [of "k - 1"] Cons.prems by (cases k) (auto split: if_splits)
qed simp

lemma ready_okD:
  assumes "ready_ok n s"
  shows "n \<le> 65531" "length (theset s) = n" "numCurrInSet s = of_nat (num_ready s)" "num_ready s \<le> n"
  using assms length_filter_le [of "\<lambda>b. b" "theset s"] by (auto simp: ready_ok_def ready_verify_def)

lemma ready_new: "n \<le> 65531 \<Longrightarrow> ready_ok n (readySet_new n b)"
  by (simp add: ready_ok_def ready_verify_def readySet_new_def)

lemma ready_empty_iff: "ready_ok n s \<Longrightarrow> ready_empty s \<longleftrightarrow> num_ready s = 0"
  using ready_okD(1,3,4) [of n s] by (simp add: ready_empty_def unat_of_nat word_unat_eq_iff)

lemma num_ready_0: "num_ready s = 0 \<longleftrightarrow> (\<forall>k < length (theset s). \<not> theset s ! k)"
  unfolding length_0_conv filter_empty_conv all_set_conv_all_nth ..

lemma ready_add_spec:
  assumes "ready_ok n s" and "unat k < n"
  shows "\<exists>s'. ready_add s k = Some s' \<and> ready_ok n s' \<and> theset s' = (theset s)[unat k := True]"
proof (cases "theset s ! unat k")
  case True
  then have "(theset s)[unat k := True] = theset s" by (metis (full_types) list_update_id)
  then show ?thesis using True assms by (simp add: ready_ok_def ready_add_def vget_def)
next
  case False
  then have eq: "length (filter (\<lambda>b. b) ((theset s)[unat k := True])) = Suc (num_ready s)"
    using count_update [of "unat k" "theset s" True] assms by (simp add: ready_ok_def)
  then show ?thesis using False assms by (simp add: ready_ok_def ready_verify_def ready_add_def vget_def vset_def)
qed

lemma ready_remove_spec:
  assumes "ready_ok n s" and "unat k < n" and "theset s ! unat k"
  shows "\<exists>s'. ready_remove s k = Some s' \<and> ready_ok n s' \<and> theset s' = (theset s)[unat k := False] \<and> num_ready s' < num_ready s"
proof -
  have eq: "num_ready s = Suc (length (filter (\<lambda>b. b) ((theset s)[unat k := False])))"
    using count_update [of "unat k" "theset s" False] assms by (simp add: ready_ok_def)
  have "numCurrInSet s = of_nat (num_ready s)" by (rule ready_okD(3) [OF assms(1)])
  then show ?thesis using assms unfolding eq by (simp add: ready_ok_def ready_verify_def ready_remove_def vget_def vset_def)
qed

definition cyclic_distance :: "nat \<Rightarrow> nat \<Rightarrow> nat \<Rightarrow> nat" where
  "cyclic_distance n j i = (if i \<le> j then j - i else n - i + j)"

lemma ready_search_spec:
  assumes ok: "ready_ok n s" and j: "j < n" "theset s ! j"
  shows "unat i < n \<Longrightarrow> \<exists>k. ready_search n s i = Some k \<and> unat k < n \<and> theset s ! unat k"
proof (induction "cyclic_distance n j (unat i)" arbitrary: i rule: less_induct)
  case less
  have get: "ready_contains s i = Some (theset s ! unat i)"
    using less.prems ready_okD(2) [OF ok] by (simp add: ready_contains_def vget_def)
  show ?case
  proof (cases "theset s ! unat i")
    case True
    then show ?thesis using get less.prems by (subst ready_search.simps) simp
  next
    case False
    let ?i = "if unat i = n - 1 then 0 else i + 1"
    have "unat (i + 1) = unat i + 1" if "unat i \<noteq> n - 1"
      using that less.prems ready_okD(1) [OF ok] by (simp add: unat_word_ariths)
    then have "unat ?i = (if unat i = n - 1 then 0 else unat i + 1)" by simp
    moreover have "unat i \<noteq> j" using False j by auto
    ultimately have "cyclic_distance n j (unat ?i) < cyclic_distance n j (unat i)" "unat ?i < n"
      using less.prems j(1) by (auto simp: cyclic_distance_def)
    from less.hyps [OF this] show ?thesis using get False by (subst ready_search.simps) simp
  qed
qed

lemma add_preds_spec:
  assumes nd: "numbered n ds post" and all: "set ds = {..<n}"
  shows "ready_ok n s \<Longrightarrow> \<forall>p \<in> set ps. unat p < n \<Longrightarrow>
    \<exists>s'. add_preds post ps s = Some s' \<and> ready_ok n s' \<and>
      (\<forall>k < n. theset s' ! k \<longleftrightarrow> theset s ! k \<or> ds ! k \<in> unat ` set ps)"
proof (induction ps arbitrary: s)
  case (Cons p ps)
  have len: "length ds = n" using nd all by (metis card_lessThan distinct_card numbered_def)
  have n: "n \<le> 65531" by (rule ready_okD(1) [OF Cons.prems(1)])
  have "unat p \<in> set ds" using Cons.prems(2) all by simp
  then obtain k where k: "k < n" "ds ! k = unat p" using len by (auto simp: in_set_conv_nth)
  then have num: "vget (blockId2OrderNum post) p = Some (of_nat k)"
    using nd len Cons.prems(2) by (auto simp: numbered_def vget_def)
  have u: "unat (of_nat k :: u16) = k" using k(1) n by (simp add: unat16)
  obtain s1 where s1: "ready_add s (of_nat k) = Some s1" "ready_ok n s1" "theset s1 = (theset s)[k := True]"
    using ready_add_spec [OF Cons.prems(1), of "of_nat k"] k(1) u by auto
  obtain s2 where s2: "add_preds post ps s1 = Some s2" "ready_ok n s2"
    "\<forall>k < n. theset s2 ! k \<longleftrightarrow> theset s1 ! k \<or> ds ! k \<in> unat ` set ps"
    using Cons.IH [OF s1(2)] Cons.prems(2) by auto
  have "ds ! i = unat p \<longleftrightarrow> i = k" if "i < n" for i
    using that k nd len by (metis nth_eq_iff_index_eq numbered_def)
  then show ?case
    using num s1(1,3) s2 ready_okD(2) [OF Cons.prems(1)] k(1) by (auto simp: nth_list_update)
qed simp

section \<open>One block\<close>

text \<open>The edges of the graph, as the equations see them.\<close>

definition exit_fn :: "function_t \<Rightarrow> call_oracle \<Rightarrow> nat \<Rightarrow> u16 \<Rightarrow> dataflow_fn option" where
  "exit_fn fn c b sid =
     (if sid = UnanalyzableBBId then Some (getPessimisticDataflowFn c 0)
      else getLiveRegFnForAnExitEdge fn (of_nat b) sid c)"

definition flow_edge :: "function_t \<Rightarrow> call_oracle \<Rightarrow> nat \<Rightarrow> u16 \<Rightarrow> dataflow_fn edge" where
  "flow_edge fn c b sid = (if isExitId sid then Inl (the (exit_fn fn c b sid)) else Inr (unat sid))"

definition flow :: "function_t \<Rightarrow> call_oracle \<Rightarrow> dataflow_fn edge list list" where
  "flow fn c = map (\<lambda>b. map (flow_edge fn c b) (bb_succs (basic_blocks fn ! b))) [0..<numBBs fn]"

abbreviation top_value :: "function_t \<Rightarrow> call_oracle \<Rightarrow> dataflow_fn list \<Rightarrow> dataflow_fn list \<Rightarrow> nat \<Rightarrow> dataflow_fn" where
  "top_value fn c fs tops b \<equiv> block_value df_join df_compose_overwrite_param fs (flow fn c) tops b"

text \<open>A function whose graph the analysis can work on, with the functions of its blocks.\<close>

definition flow_problem :: "function_t \<Rightarrow> call_oracle \<Rightarrow> dataflow_fn list \<Rightarrow> bool" where
  "flow_problem fn c fs \<longleftrightarrow> cfg_ok fn \<and> 0 < numBBs fn \<and> getMergeOp c = mergeopBitwiseOr \<and> length fs = numBBs fn \<and>
     equations_ok live_ok fs (flow fn c) \<and>
     (\<forall>b < numBBs fn. \<forall>sid \<in> set (bb_succs (basic_blocks fn ! b)). isExitId sid \<longrightarrow> exit_fn fn c b sid \<noteq> None)"

definition tops_ok :: "function_t \<Rightarrow> dataflow_fn list \<Rightarrow> bool" where
  "tops_ok fn tops \<longleftrightarrow> length tops = numBBs fn \<and> list_all live_ok tops"

lemma flow_problemD:
  assumes "flow_problem fn c fs"
  shows "cfg_ok fn" "numBBs fn \<le> 65531" "getMergeOp c = mergeopBitwiseOr" "length fs = numBBs fn"
    "equations_ok live_ok fs (flow fn c)"
    "b < numBBs fn \<Longrightarrow> sid \<in> set (bb_succs (basic_blocks fn ! b)) \<Longrightarrow> isExitId sid \<Longrightarrow> exit_fn fn c b sid \<noteq> None"
    "b < numBBs fn \<Longrightarrow> flow fn c ! b = map (flow_edge fn c b) (bb_succs (basic_blocks fn ! b))"
    "b < numBBs fn \<Longrightarrow> bb_succs (basic_blocks fn ! b) \<noteq> []"
proof -
  show "cfg_ok fn" "getMergeOp c = mergeopBitwiseOr" "length fs = numBBs fn" "equations_ok live_ok fs (flow fn c)"
    "b < numBBs fn \<Longrightarrow> sid \<in> set (bb_succs (basic_blocks fn ! b)) \<Longrightarrow> isExitId sid \<Longrightarrow> exit_fn fn c b sid \<noteq> None"
    using assms by (simp_all add: flow_problem_def)
  then show "numBBs fn \<le> 65531" by (simp add: cfg_okD(1))
  show f: "b < numBBs fn \<Longrightarrow> flow fn c ! b = map (flow_edge fn c b) (bb_succs (basic_blocks fn ! b))"
    by (simp add: flow_def)
  show "b < numBBs fn \<Longrightarrow> bb_succs (basic_blocks fn ! b) \<noteq> []"
    using assms f by (auto simp: flow_problem_def equations_ok_def)
qed

text \<open>Only the blocks, the code and the interprocedural fall-throughs of a function matter for its exit edges.\<close>

definition same_flow :: "function_t \<Rightarrow> function_t \<Rightarrow> bool" where
  "same_flow fn fn' \<longleftrightarrow> basic_blocks fn' = basic_blocks fn \<and> origCode fn' = origCode fn \<and>
     blocksHavingInterProcFallThru fn' = blocksHavingInterProcFallThru fn"

lemma same_flowD:
  assumes "same_flow fn fn'"
  shows "getLiveRegFnForAnExitEdge fn' = getLiveRegFnForAnExitEdge fn" and "flow fn' c = flow fn c" and "exit_fn fn' = exit_fn fn"
proof -
  have s: "basic_blocks fn' = basic_blocks fn" "origCode fn' = origCode fn"
    "blocksHavingInterProcFallThru fn' = blocksHavingInterProcFallThru fn" using assms by (auto simp: same_flow_def)
  have c: "containsAddr fn' = containsAddr fn" by (rule ext) (simp add: containsAddr_def s)
  show 1: "getLiveRegFnForAnExitEdge fn' = getLiveRegFnForAnExitEdge fn"
    unfolding getLiveRegFnForAnExitEdge_def getBBInterProcFallThruAddrIfAny_def getBBInterProcBranchDestAddrIfAny_def c s
    by (rule refl)
  show 2: "exit_fn fn' = exit_fn fn" unfolding exit_fn_def 1 by (rule refl)
  show "flow fn' c = flow fn c" unfolding flow_def flow_edge_def 2 s numBBs_def by (rule refl)
qed

lemma exit_edge_liveRegisters [simp]:
  "getLiveRegFnForAnExitEdge (fn\<lparr>liveRegisters := t\<rparr>) = getLiveRegFnForAnExitEdge fn"
  by (rule same_flowD(1)) (simp add: same_flow_def)

lemma calc1EdgeResult_eq:
  assumes p: "flow_problem fn c fs" and t: "tops_ok fn tops" and b: "b < numBBs fn"
    and sid: "sid \<in> set (bb_succs (basic_blocks fn ! b))"
  shows "calc1EdgeResult (fn\<lparr>liveRegisters := tops\<rparr>) (of_nat b) sid c True = Some (edge_value tops (flow_edge fn c b sid))"
proof (cases "isExitId sid")
  case True
  then show ?thesis
    using flow_problemD(6) [OF p b sid]
    by (auto simp: calc1EdgeResult_def flow_edge_def exit_fn_def isExitId_def UnanalyzableBBId_def xExitBBId_def interProcBranchExitBBId_def)
next
  case False
  then have "unat sid < numBBs fn" using cfg_okD(2) [OF flow_problemD(1) [OF p] b sid] by simp
  moreover from this t have "live_ok (tops ! unat sid)" by (simp add: tops_ok_def list_all_length)
  ultimately show ?thesis
    using False t by (simp add: calc1EdgeResult_def flow_edge_def isExitId_def vget_def tops_ok_def live_ok_def)
qed

lemma succ_loop_eq:
  assumes "getMergeOp c = mergeopBitwiseOr"
  shows "\<forall>sid \<in> set ids. calc1EdgeResult F b sid c True = Some (v sid) \<Longrightarrow>
    succ_loop F c i b ids False NU = Some (Some (fold (\<lambda>e w. df_join w (df_compose_overwrite_param i e)) (map v ids) NU))"
  by (induction ids arbitrary: NU) (simp_all add: assms getNumPreSaveFramesManufactured_def)

lemma succ_loop_value:
  assumes p: "flow_problem fn c fs" and t: "tops_ok fn tops" and b: "b < numBBs fn"
  shows "succ_loop (fn\<lparr>liveRegisters := tops\<rparr>) c (fs ! b) (of_nat b) (bb_succs (basic_blocks fn ! b)) True NU =
    Some (Some (top_value fn c fs tops b))"
proof -
  obtain sid ids where s: "bb_succs (basic_blocks fn ! b) = sid # ids"
    using flow_problemD(8) [OF p b] by (cases "bb_succs (basic_blocks fn ! b)") auto
  note e = calc1EdgeResult_eq [OF p t b, unfolded s]
  have "\<forall>x \<in> set ids. calc1EdgeResult (fn\<lparr>liveRegisters := tops\<rparr>) (of_nat b) x c True = Some (edge_value tops (flow_edge fn c b x))"
    using e by simp
  from succ_loop_eq [OF flow_problemD(3) [OF p] this] show ?thesis
    using e [of sid] by (simp add: s block_value_def edge_join_def flow_problemD(7) [OF p b] comp_def)
qed

lemma no_edge:
  assumes p: "flow_problem fn c fs" and a: "a < numBBs fn" and b: "b < numBBs fn"
    and pr: "a \<notin> unat ` set (bb_preds (basic_blocks fn ! b))"
  shows "Inr b \<notin> set (flow fn c ! a)"
proof
  assume "Inr b \<in> set (flow fn c ! a)"
  then obtain sid where sid: "sid \<in> set (bb_succs (basic_blocks fn ! a))" "\<not> isExitId sid" "unat sid = b"
    unfolding flow_problemD(7) [OF p a] by (auto simp: flow_edge_def split: if_splits)
  then have "of_nat a \<in> set (bb_preds (basic_blocks fn ! b))" using cfg_okD(2) [OF flow_problemD(1) [OF p] a sid(1)] by simp
  moreover have "unat (of_nat a :: u16) = a" using a flow_problemD(2) [OF p] by (simp add: unat16)
  ultimately show False using pr by (metis image_eqI)
qed

lemma df_eq_live: "live_ok f \<Longrightarrow> live_ok g \<Longrightarrow> df_eq f g \<longleftrightarrow> f = g"
  by (auto simp: df_eq_def mw_eq_iff live_ok_def intro: dataflow_fn.equality)

section \<open>The worklist\<close>

definition work_inv :: "function_t \<Rightarrow> call_oracle \<Rightarrow> dataflow_fn list \<Rightarrow> nat list \<Rightarrow> dataflow_fn list \<Rightarrow> readySet \<Rightarrow> bool" where
  "work_inv fn c fs ds tops s \<longleftrightarrow> tops_ok fn tops \<and> ready_ok (numBBs fn) s \<and>
     (\<forall>k < numBBs fn. live_le (tops ! k) (top_value fn c fs tops k)) \<and>
     (\<forall>k < numBBs fn. \<not> theset s ! k \<longrightarrow> tops ! (ds ! k) = top_value fn c fs tops (ds ! k))"

definition work_left :: "function_t \<Rightarrow> dataflow_fn list \<Rightarrow> readySet \<Rightarrow> nat" where
  "work_left fn tops s = sum_list (map (\<lambda>f. 2 * card reg_bits - live_rank f) tops) * Suc (numBBs fn) + num_ready s"

lemma work_same:
  assumes inv: "work_inv fn c fs ds tops s" and k: "k < numBBs fn"
    and eq: "tops ! (ds ! k) = top_value fn c fs tops (ds ! k)"
    and s1: "ready_ok (numBBs fn) s1" "theset s1 = (theset s)[k := False]"
  shows "work_inv fn c fs ds tops s1"
  using inv eq s1 k unfolding work_inv_def by (metis nth_list_update_neq)

lemma work_update:
  assumes p: "flow_problem fn c fs" and inv: "work_inv fn c fs ds tops s" and k: "k < numBBs fn"
    and ds: "distinct ds" "set ds = {..<numBBs fn}" "length ds = numBBs fn"
    and ne: "tops ! (ds ! k) \<noteq> top_value fn c fs tops (ds ! k)"
    and s2: "ready_ok (numBBs fn) s2"
      "\<forall>j < numBBs fn. theset s2 ! j \<longleftrightarrow> (theset s)[k := False] ! j \<or> ds ! j \<in> unat ` set (bb_preds (basic_blocks fn ! (ds ! k)))"
  defines "tops' \<equiv> tops[ds ! k := top_value fn c fs tops (ds ! k)]"
  shows "work_inv fn c fs ds tops' s2" and "work_left fn tops' s2 < work_left fn tops s"
proof -
  let ?b = "ds ! k" and ?n = "numBBs fn" and ?v = "top_value fn c fs tops"
  have b: "?b < ?n" using ds k nth_mem [of k ds] by simp
  have t: "list_all live_ok tops" "length tops = ?n" and up: "\<And>j. j < ?n \<Longrightarrow> live_le (tops ! j) (?v j)"
    and fin: "\<And>j. j < ?n \<Longrightarrow> \<not> theset s ! j \<Longrightarrow> tops ! (ds ! j) = ?v (ds ! j)" and s: "ready_ok ?n s"
    using inv by (auto simp: work_inv_def tops_ok_def)
  note len = flow_problemD(4) [OF p]
  note upd = lv.inv_update [OF flow_problemD(5) [OF p], of ?b tops, unfolded len, OF b t up, folded tops'_def]
  have same: "tops' ! (ds ! j) = top_value fn c fs tops' (ds ! j)" if j: "j < ?n" "\<not> theset s2 ! j" for j
  proof -
    have dj: "ds ! j < ?n" using ds j(1) nth_mem [of j ds] by simp
    have "ds ! j \<notin> unat ` set (bb_preds (basic_blocks fn ! ?b))" and not: "\<not> (theset s)[k := False] ! j"
      using s2(2) j by auto
    from no_edge [OF p dj b this(1)] have "top_value fn c fs tops' (ds ! j) = ?v (ds ! j)"
      unfolding tops'_def by (rule lv.block_value_unchanged)
    moreover have "tops' ! (ds ! j) = ?v (ds ! j)"
    proof (cases "j = k")
      case False
      then have "ds ! j \<noteq> ?b" using ds k j(1) by (simp add: nth_eq_iff_index_eq)
      then show ?thesis using fin [OF j(1)] not False by (simp add: tops'_def)
    qed (simp add: tops'_def b t)
    ultimately show ?thesis by simp
  qed
  show "work_inv fn c fs ds tops' s2"
    using upd(1,2,4) s2(1) same by (simp add: work_inv_def tops_ok_def)
  have vok: "live_ok (?v ?b)" using upd(1,2) b t by (metis list_all_length nth_list_update_eq tops'_def)
  have "sum_list (map (\<lambda>f. 2 * card reg_bits - live_rank f) tops') < sum_list (map (\<lambda>f. 2 * card reg_bits - live_rank f) tops)"
    unfolding tops'_def by (rule lv.sum_rank_less) (use t b vok up ne in simp_all)
  then have "Suc (sum_list (map (\<lambda>f. 2 * card reg_bits - live_rank f) tops')) * Suc ?n \<le>
      sum_list (map (\<lambda>f. 2 * card reg_bits - live_rank f) tops) * Suc ?n" by (intro mult_le_mono1) simp
  then show "work_left fn tops' s2 < work_left fn tops s"
    using ready_okD(4) [OF s2(1)] by (simp add: work_left_def)
qed

lemma analysis_loop_spec:
  assumes p: "flow_problem fn c fs" and nd: "numbered (numBBs fn) ds post" and all: "set ds = {..<numBBs fn}"
    and I: "\<And>tops b. I tops \<Longrightarrow> tops_ok fn tops \<Longrightarrow> b < numBBs fn \<Longrightarrow> I (tops[b := top_value fn c fs tops b])"
  shows "work_inv fn c fs ds tops s \<Longrightarrow> I tops \<Longrightarrow> unat i < numBBs fn \<Longrightarrow>
    \<exists>tops'. analysis_loop c fs post (fn\<lparr>liveRegisters := tops\<rparr>) s i = Some (fn\<lparr>liveRegisters := tops'\<rparr>) \<and>
      tops_ok fn tops' \<and> (\<forall>b < numBBs fn. tops' ! b = top_value fn c fs tops' b) \<and> I tops'"
proof (induction "work_left fn tops s" arbitrary: tops s i rule: less_induct)
  case less
  let ?n = "numBBs fn" and ?F = "fn\<lparr>liveRegisters := tops\<rparr>"
  have t: "tops_ok fn tops" and s: "ready_ok ?n s" using less.prems(1) by (simp_all add: work_inv_def)
  have ds: "distinct ds" "length ds = ?n" using nd all by (simp add: numbered_def) (metis all card_lessThan distinct_card nd numbered_def)
  show ?case
  proof (cases "ready_empty s")
    case True
    then have none: "\<not> theset s ! k" if "k < ?n" for k
      using ready_empty_iff [OF s] num_ready_0 [of s] ready_okD(2) [OF s] that by simp
    have "tops ! b = top_value fn c fs tops b" if "b < ?n" for b
    proof -
      have "b \<in> set ds" using that all by simp
      then obtain k where "k < length ds" "ds ! k = b" unfolding in_set_conv_nth by blast
      then show ?thesis using none [of k] less.prems(1) ds(2) by (auto simp: work_inv_def)
    qed
    then show ?thesis using True t less.prems(2) by (subst analysis_loop.simps) auto
  next
    case False
    obtain j where j: "j < ?n" "theset s ! j"
      using False ready_empty_iff [OF s] num_ready_0 [of s] ready_okD(2) [OF s] by auto
    obtain ndx where ndx: "ready_search ?n s i = Some ndx" "unat ndx < ?n" "theset s ! unat ndx"
      using ready_search_spec [OF s j less.prems(3)] by blast
    obtain s1 where s1: "ready_remove s ndx = Some s1" "ready_ok ?n s1" "theset s1 = (theset s)[unat ndx := False]" "num_ready s1 < num_ready s"
      using ready_remove_spec [OF s ndx(2,3)] by blast
    let ?b = "ds ! unat ndx"
    have b: "?b < ?n" using ds ndx(2) nth_mem [of "unat ndx" ds] all by simp
    have u: "unat (of_nat ?b :: u16) = ?b" using b flow_problemD(2) [OF p] by (simp add: unat16)
    have id: "vget (orderNum2BlockId post) ndx = Some (of_nat ?b)" using nd ndx(2) ds(2) by (simp add: numbered_def vget_def)
    have get: "vget (basic_blocks fn) (of_nat ?b) = Some (basic_blocks fn ! ?b)" "vget fs (of_nat ?b) = Some (fs ! ?b)"
      "vget tops (of_nat ?b) = Some (tops ! ?b)"
      using b u flow_problemD(4) [OF p] t by (simp_all add: vget_def numBBs_def tops_ok_def)
    let ?v = "top_value fn c fs tops ?b"
    have vok: "live_ok ?v"
      using lv.block_value_ok [OF flow_problemD(5) [OF p], of ?b tops] b t flow_problemD(4) [OF p] by (simp add: tops_ok_def)
    have tok: "live_ok (tops ! ?b)" using t b by (simp add: tops_ok_def list_all_length)
    have n': "numBBs ?F = ?n" by (simp add: numBBs_def)
    note val = succ_loop_value [OF p t b]
    show ?thesis
    proof (cases "tops ! ?b = ?v")
      case True
      have step: "analysis_loop c fs post ?F s i = analysis_loop c fs post ?F s1 ndx"
        using False ndx(1) s1(1) id get val True df_eq_live [OF tok vok] n' by (subst analysis_loop.simps) simp
      have less': "work_left fn tops s1 < work_left fn tops s" using s1(4) by (simp add: work_left_def)
      show ?thesis
        unfolding step by (rule less.hyps [OF less' work_same [OF less.prems(1) ndx(2) True s1(2,3)] less.prems(2) ndx(2)])
    next
      case ne: False
      have "\<forall>q \<in> set (bb_preds (basic_blocks fn ! ?b)). unat q < ?n"
        using cfg_okD(3) [OF flow_problemD(1) [OF p] b] by blast
      from add_preds_spec [OF nd all s1(2) this] obtain s2 where
        s2: "add_preds post (bb_preds (basic_blocks fn ! ?b)) s1 = Some s2" "ready_ok ?n s2"
          "\<forall>k < ?n. theset s2 ! k \<longleftrightarrow> theset s1 ! k \<or> ds ! k \<in> unat ` set (bb_preds (basic_blocks fn ! ?b))" by blast
      have set: "vset tops (of_nat ?b) ?v = Some (tops[?b := ?v])" using b u t by (simp add: vset_def tops_ok_def)
      have step: "analysis_loop c fs post ?F s i = analysis_loop c fs post (fn\<lparr>liveRegisters := tops[?b := ?v]\<rparr>) s2 ndx"
        using False ndx(1) s1(1) id get val ne df_eq_live [OF tok vok] n' s2(1) set
        by (subst analysis_loop.simps) (simp add: isRidiculous_def getNumPreSaveFramesManufactured_def getNumLevels_def getNumSavedWindows_def)
      note w = work_update [OF p less.prems(1) ndx(2) ds(1) all ds(2) ne s2(2) s2(3) [unfolded s1(3)]]
      show ?thesis
        unfolding step by (rule less.hyps [OF w(2,1) I [OF less.prems(2) t b] ndx(2)])
    qed
  qed
qed

section \<open>Solutions\<close>

definition solves :: "function_t \<Rightarrow> call_oracle \<Rightarrow> dataflow_fn list \<Rightarrow> dataflow_fn list \<Rightarrow> bool" where
  "solves fn c fs tops \<longleftrightarrow> tops_ok fn tops \<and> (\<forall>b < numBBs fn. tops ! b = top_value fn c fs tops b)"

definition below :: "function_t \<Rightarrow> dataflow_fn list \<Rightarrow> dataflow_fn list \<Rightarrow> bool" where
  "below fn tops u \<longleftrightarrow> (\<forall>b < numBBs fn. live_le (tops ! b) (u ! b))"

lemma below_update:
  assumes p: "flow_problem fn c fs" and t: "tops_ok fn tops" and b: "b < numBBs fn" and u: "solves fn c fs u" and le: "below fn tops u"
  shows "below fn (tops[b := top_value fn c fs tops b]) u"
proof -
  have "live_le (top_value fn c fs tops b) (top_value fn c fs u b)"
    by (rule lv.block_value_mono [OF flow_problemD(5) [OF p]])
      (use t u b le flow_problemD(4) [OF p] in \<open>auto simp: tops_ok_def solves_def below_def\<close>)
  then show ?thesis using le u b t by (auto simp: below_def solves_def tops_ok_def nth_list_update)
qed

lemma analysis_least:
  assumes p: "flow_problem fn c fs" and nd: "numbered (numBBs fn) ds post" and all: "set ds = {..<numBBs fn}"
  shows "\<exists>tops. analysis_loop c fs post (fn\<lparr>liveRegisters := replicate (numBBs fn) live_optimistic\<rparr>) (readySet_new (numBBs fn) True) 0 =
      Some (fn\<lparr>liveRegisters := tops\<rparr>) \<and> solves fn c fs tops \<and> (\<forall>u. solves fn c fs u \<longrightarrow> below fn tops u)"
proof -
  let ?t = "replicate (numBBs fn) live_optimistic" and ?I = "\<lambda>tops. \<forall>u. solves fn c fs u \<longrightarrow> below fn tops u"
  have t: "tops_ok fn ?t" by (simp add: tops_ok_def live_optimistic(1) list_all_length)
  have "live_ok (top_value fn c fs ?t k)" if "k < numBBs fn" for k
    using lv.block_value_ok [OF flow_problemD(5) [OF p], of k ?t] that t flow_problemD(4) [OF p] by (simp add: tops_ok_def)
  then have w: "work_inv fn c fs ds ?t (readySet_new (numBBs fn) True)"
    using t ready_new [OF flow_problemD(2) [OF p]] live_optimistic(2) by (simp add: work_inv_def) (simp add: readySet_new_def)
  have I: "?I ?t"
    unfolding below_def by (auto simp: solves_def tops_ok_def list_all_length intro!: live_optimistic(2))
  have step: "?I (tops[b := top_value fn c fs tops b])" if "?I tops" "tops_ok fn tops" "b < numBBs fn" for tops b
    using below_update [OF p that(2,3)] that(1) by blast
  have n: "unat (0 :: u16) < numBBs fn" using p by (simp add: flow_problem_def)
  show ?thesis using analysis_loop_spec [of fn c fs ds post ?I, OF p nd all step w I n] by (auto simp: solves_def)
qed

section \<open>The functions of the blocks\<close>

text \<open>
  What the analysis relies on: the oracle solves the live register problem, no instruction claims to
  overwrite the program counter, and every block has a successor and is made of whole instructions.
\<close>

definition live_oracle :: "call_oracle \<Rightarrow> bool" where
  "live_oracle c \<longleftrightarrow> getMergeOp c = mergeopBitwiseOr \<and> getOptimisticDataflowFn c = live_optimistic \<and>
     (\<forall>a. live_ok (getPessimisticDataflowFn c a)) \<and> (\<forall>a. live_ok (whenDestAddrIsKnown c a))"

definition usage_live :: "x86_instr \<Rightarrow> bool" where
  "usage_live i \<longleftrightarrow> usage_wf i \<and> MiscBit 29 \<notin> bits (definitelyWritten (getRegisterUsage i))"

definition analysable :: "function_t \<Rightarrow> call_oracle \<Rightarrow> bool" where
  "analysable fn c \<longleftrightarrow> cfg_ok fn \<and> 0 < numBBs fn \<and>
     (\<forall>b < numBBs fn. reach fn (unat (hd (address_order fn))) b \<and> bb_succs (basic_blocks fn ! b) \<noteq> [] \<and>
        (\<exists>k i m. block_at (origCode fn) k i m (basic_blocks fn ! b) \<and>
           list_all usage_live (the_insns (theCode (origCode fn ! k)))) \<and>
        (\<forall>sid \<in> set (bb_succs (basic_blocks fn ! b)). isExitId sid \<longrightarrow> exit_fn fn c b sid \<noteq> None))"

lemma live_oracle_wf: "live_oracle c \<Longrightarrow> oracle_wf c"
  using live_optimistic(1) by (simp add: live_oracle_def oracle_wf_def live_ok_def)

lemma pc_bit: "MiscBit 29 \<in> bits s \<longleftrightarrow> rs_mem s (MiscBit 29)"
  by (simp add: bits_iff)

lemma pc_full: "rs_mem rs_full (MiscBit 29)"
  unfolding rs_mem_full by (simp add: reg_bits_def)

lemma df_map_pc: "live_ok f \<Longrightarrow> MiscBit 29 \<in> L \<Longrightarrow> MiscBit 29 \<in> df_map f L"
  by (auto simp: df_map_def live_ok_def live_bits_def pc_bit)

lemma insn_live_pc:
  assumes "live_oracle c" and "usage_live i" and "MiscBit 29 \<in> L"
  shows "MiscBit 29 \<in> insn_live c a i L"
  using assms df_map_pc by (auto simp: insn_live_def call_live_def usage_live_def live_oracle_def whenDestAddrIsUnknown_def Let_def)

lemma block_live_pc:
  assumes "live_oracle c"
  shows "list_all usage_live is \<Longrightarrow> MiscBit 29 \<in> L \<Longrightarrow> MiscBit 29 \<in> block_live c a is L"
  by (induction "is" arbitrary: a) (auto intro: insn_live_pc [OF assms])

lemma live_loop_Dummy: "\<not> Dummy r \<Longrightarrow> \<not> Dummy (live_loop c is stop a n addr r)"
proof (induction n arbitrary: addr r)
  have d: "\<not> Dummy (insn_effect c x i r)" if "\<not> Dummy r" for x i r
    using that by (simp add: insn_effect_def Let_def df_startSet_def df_stopSet_def df_compose_def df_of_window_def)
  { case 0 then show ?case using d by simp }
  { case (Suc n) then show ?case using d by (simp add: Let_def) }
qed

lemma block_fn_live:
  assumes c: "live_oracle c" and b: "block_at cs k i n bb" and s: "edges_ok (bb_s bb)" "bb_succs bb \<noteq> []"
    and u: "list_all usage_live (the_insns (theCode (cs ! k)))"
  shows "\<exists>f. doLiveRegAnalysisWholeBlock bb cs c = Some f \<and> live_ok f"
proof -
  let ?is = "the_insns (theCode (cs ! k))"
  have u': "list_all usage_wf ?is" using u by (auto simp: list_all_iff usage_live_def)
  obtain f where f: "doLiveRegAnalysisWholeBlock bb cs c = Some f" "df_wf f"
    "bits (df_apply f rs_full) = block_live c (bb_startAddr bb) (take n (drop i ?is)) (bits rs_full)"
    using whole_block_live [OF b s live_oracle_wf [OF c] u'] wf_full by (auto simp: rs_wfD)
  have "list_all usage_live (take n (drop i ?is))" using u by (auto simp: list_all_iff dest: in_set_takeD in_set_dropD)
  moreover have "MiscBit 29 \<in> bits rs_full" unfolding pc_bit by (rule pc_full)
  ultimately have "MiscBit 29 \<in> df_map f (bits rs_full)"
    using block_live_pc [OF c] f(3) unfolding bits_apply by blast
  then have "MiscBit 29 \<in> live_bits f" by (auto simp: df_map_def live_bits_def pc_bit)
  moreover have "\<not> Dummy f"
    using block_at_analysis [OF b s, of c] f(1) live_loop_Dummy [of passAllRegs]
    by (auto simp: passAllRegs_def df_of_window_def)
  ultimately show ?thesis using f(1,2) by (auto simp: live_ok_def)
qed

lemma those_map: "(\<And>x. x \<in> set xs \<Longrightarrow> f x \<noteq> None) \<Longrightarrow> those (map f xs) = Some (map (\<lambda>x. the (f x)) xs)"
proof (induction xs)
  case (Cons x xs)
  have "f x \<noteq> None" using Cons.prems by simp
  then obtain y where "f x = Some y" by blast
  then show ?case using Cons by simp
qed simp

lemma exit_fn_live:
  assumes c: "live_oracle c" and "exit_fn fn c b sid = Some f"
  shows "live_ok f"
proof -
  have "live_ok passAllRegs"
    using df_wf_consts(1) pc_full by (simp add: live_ok_def live_bits_def passAllRegs_def df_of_window_def mbdf_window_bools_def)
  then show ?thesis
    using assms by (auto simp: exit_fn_def getLiveRegFnForAnExitEdge_def live_oracle_def getIdentityDataflowFn_def assert_def
        split: if_splits bind_splits)
qed

lemma analysable_flow:
  assumes a: "analysable fn c" and c: "live_oracle c"
  shows "\<exists>fs. blocks_in_isolation fn c = Some fs \<and> flow_problem fn c fs \<and>
    (\<forall>b < numBBs fn. doLiveRegAnalysisWholeBlock (basic_blocks fn ! b) (origCode fn) c = Some (fs ! b))"
proof -
  let ?f = "\<lambda>bb. doLiveRegAnalysisWholeBlock bb (origCode fn) c"
  let ?fs = "map (\<lambda>bb. the (?f bb)) (basic_blocks fn)"
  have g: "cfg_ok fn" "0 < numBBs fn" using a by (auto simp: analysable_def)
  have live: "\<exists>f. ?f (basic_blocks fn ! b) = Some f \<and> live_ok f" if b: "b < numBBs fn" for b
  proof -
    have s: "edges_ok (bb_s (basic_blocks fn ! b))" "bb_succs (basic_blocks fn ! b) \<noteq> []"
      using a b edges_matchD(2) [of "basic_blocks fn" b] by (auto simp: analysable_def cfg_ok_def numBBs_def)
    obtain k i m where "block_at (origCode fn) k i m (basic_blocks fn ! b)" "list_all usage_live (the_insns (theCode (origCode fn ! k)))"
      using a b unfolding analysable_def by blast
    then show ?thesis using block_fn_live [OF c _ s] by blast
  qed
  have "?f bb \<noteq> None" if "bb \<in> set (basic_blocks fn)" for bb
    using that live by (auto simp: in_set_conv_nth numBBs_def)
  then have iso: "blocks_in_isolation fn c = Some ?fs" unfolding blocks_in_isolation_def by (rule those_map)
  have val: "?f (basic_blocks fn ! b) = Some (?fs ! b)" "live_ok (?fs ! b)" if "b < numBBs fn" for b
    using live [OF that] that by (auto simp: numBBs_def)
  have exits: "\<exists>f. exit_fn fn c b sid = Some f \<and> live_ok f"
    if "b < numBBs fn" "sid \<in> set (bb_succs (basic_blocks fn ! b))" "isExitId sid" for b sid
  proof -
    have "exit_fn fn c b sid \<noteq> None" using a that by (auto simp: analysable_def)
    then show ?thesis using exit_fn_live [OF c] by blast
  qed
  have edge: "case flow_edge fn c b sid of Inl f \<Rightarrow> live_ok f | Inr k \<Rightarrow> k < length ?fs"
    if "b < numBBs fn" "sid \<in> set (bb_succs (basic_blocks fn ! b))" for b sid
    using exits [OF that] cfg_okD(2) [OF g(1) that] by (auto simp: flow_edge_def numBBs_def)
  have len: "length ?fs = numBBs fn" by (simp add: numBBs_def)
  have "list_all live_ok ?fs" unfolding list_all_length using val(2) len by simp
  moreover have "flow fn c ! b \<noteq> [] \<and> (\<forall>e \<in> set (flow fn c ! b). case e of Inl f \<Rightarrow> live_ok f | Inr k \<Rightarrow> k < length ?fs)"
    if "b < length ?fs" for b
  proof -
    have b: "b < numBBs fn" using that len by simp
    then have "flow fn c ! b = map (flow_edge fn c b) (bb_succs (basic_blocks fn ! b))" "bb_succs (basic_blocks fn ! b) \<noteq> []"
      using a by (auto simp: flow_def analysable_def)
    then show ?thesis using edge [OF b] by (simp only: set_map map_is_Nil_conv) blast
  qed
  moreover have "length (flow fn c) = length ?fs" by (simp add: flow_def numBBs_def)
  ultimately have "equations_ok live_ok ?fs (flow fn c)" unfolding equations_ok_def by blast
  then have "flow_problem fn c ?fs"
    using g c len exits unfolding flow_problem_def live_oracle_def by blast
  then show ?thesis using iso val(1) by blast
qed

section \<open>Liveness of the graph\<close>

text \<open>The registers live at the end of an edge, given those live at the function's exit and a value at the top of every block.\<close>

definition edge_live :: "function_t \<Rightarrow> call_oracle \<Rightarrow> dataflow_fn list \<Rightarrow> nat \<Rightarrow> x86_reg_set \<Rightarrow> u16 \<Rightarrow> reg_bit set" where
  "edge_live fn c tops b s sid = bits (df_apply (edge_value tops (flow_edge fn c b sid)) s)"

lemma join_apply: "df_wf f \<Longrightarrow> df_wf g \<Longrightarrow> rs_ok s \<Longrightarrow> bits (df_apply (df_join f g) s) = bits (df_apply f s) \<union> bits (df_apply g s)"
  using apply_merge [OF df_okD [of f] df_okD [of g], of s] by (simp add: df_apply_def df_mergeWith_def bits_ops)

lemma after_apply: "df_wf f \<Longrightarrow> df_wf g \<Longrightarrow> rs_ok s \<Longrightarrow> bits (df_apply (df_compose_overwrite_param f g) s) = bits (df_apply f (df_apply g s))"
  by (auto simp: bits_iff df_apply_def mw_apply_def df_compose_overwrite_param_def df_simps mem_laws)

lemma apply_ok: "df_wf f \<Longrightarrow> rs_ok s \<Longrightarrow> rs_ok (df_apply f s)"
  using df_okD [of f] by (simp add: df_apply_def mw_apply_def mw_ok_def xr.ok_union xr.ok_inter)

lemma fold_join_apply:
  assumes i: "live_ok i" and s: "rs_ok s"
  shows "live_ok v \<Longrightarrow> list_all live_ok es \<Longrightarrow>
    bits (df_apply (fold (\<lambda>e v. df_join v (df_compose_overwrite_param i e)) es v) s) =
    bits (df_apply v s) \<union> (\<Union>e \<in> set es. bits (df_apply i (df_apply e s)))"
proof (induction es arbitrary: v)
  case (Cons e es)
  have ok: "live_ok (df_compose_overwrite_param i e)" using Cons.prems i by (simp add: lv.after_ok)
  have wf: "df_wf v" "df_wf i" "df_wf e" "df_wf (df_compose_overwrite_param i e)" using Cons.prems i ok by (simp_all add: live_ok_def)
  have "live_ok (df_join v (df_compose_overwrite_param i e))" by (rule lv.merge_ok [OF Cons.prems(1) ok])
  from Cons.IH [OF this] show ?case
    using Cons.prems(2) join_apply [OF wf(1,4) s] after_apply [OF wf(2,3) s] by (auto simp: Un_assoc)
qed simp

lemma top_value_live:
  assumes p: "flow_problem fn c fs" and t: "tops_ok fn tops" and b: "b < numBBs fn" and s: "rs_ok s"
    and f: "\<And>s. rs_ok s \<Longrightarrow> bits (df_apply (fs ! b) s) = F (bits s)"
  shows "bits (df_apply (top_value fn c fs tops b) s) =
    (\<Union>sid \<in> set (bb_succs (basic_blocks fn ! b)). F (edge_live fn c tops b s sid))"
proof -
  let ?es = "map (edge_value tops) (flow fn c ! b)"
  note E = lv.edge_values_ok [OF flow_problemD(5) [OF p], of b tops, unfolded flow_problemD(4) [OF p], OF b]
  have es: "list_all live_ok ?es" "?es \<noteq> []" "live_ok (fs ! b)" using E t by (auto simp: tops_ok_def)
  obtain e0 es' where split: "?es = e0 # es'" using es(2) by (cases ?es) auto
  have ok: "live_ok e0" "list_all live_ok es'" using es(1) unfolding split by simp_all
  have after: "bits (df_apply (df_compose_overwrite_param (fs ! b) e0) s) = bits (df_apply (fs ! b) (df_apply e0 s))"
    using ok es(3) s by (intro after_apply) (simp_all add: live_ok_def)
  have "bits (df_apply (top_value fn c fs tops b) s) = (\<Union>e \<in> set ?es. bits (df_apply (fs ! b) (df_apply e s)))"
    unfolding block_value_def edge_join_def split
    using fold_join_apply [OF es(3) s lv.after_ok [OF es(3) ok(1)] ok(2)] after by simp
  also have "\<dots> = (\<Union>e \<in> set ?es. F (bits (df_apply e s)))"
    using f apply_ok es(1) s by (intro SUP_cong) (auto simp: list_all_iff live_ok_def)
  also have "\<dots> = (\<Union>sid \<in> set (bb_succs (basic_blocks fn ! b)). F (edge_live fn c tops b s sid))"
    unfolding flow_problemD(7) [OF p b] by (simp add: edge_live_def)
  finally show ?thesis .
qed

text \<open>The liveness equations of the graph, for every set of registers that is live where the function is left.\<close>

definition live_at_tops :: "function_t \<Rightarrow> call_oracle \<Rightarrow> dataflow_fn list \<Rightarrow> bool" where
  "live_at_tops fn c tops \<longleftrightarrow> (\<forall>b < numBBs fn. \<forall>k i m s.
     block_at (origCode fn) k i m (basic_blocks fn ! b) \<and> list_all usage_wf (the_insns (theCode (origCode fn ! k))) \<and> rs_ok s \<longrightarrow>
     bits (df_apply (tops ! b) s) =
       (\<Union>sid \<in> set (bb_succs (basic_blocks fn ! b)).
          block_live c (bb_startAddr (basic_blocks fn ! b)) (take m (drop i (the_insns (theCode (origCode fn ! k)))))
            (edge_live fn c tops b s sid)))"

lemma solves_live:
  assumes p: "flow_problem fn c fs" and c: "live_oracle c" and t: "solves fn c fs tops"
    and iso: "\<And>b. b < numBBs fn \<Longrightarrow> doLiveRegAnalysisWholeBlock (basic_blocks fn ! b) (origCode fn) c = Some (fs ! b)"
  shows "live_at_tops fn c tops"
  unfolding live_at_tops_def
proof (intro allI impI)
  fix b k i m s
  let ?bb = "basic_blocks fn ! b" and ?is = "the_insns (theCode (origCode fn ! k))"
  assume b: "b < numBBs fn" and h: "block_at (origCode fn) k i m ?bb \<and> list_all usage_wf ?is \<and> rs_ok s"
  have e: "edges_ok (bb_s ?bb)" using flow_problemD(1) [OF p] edges_matchD(2) b by (auto simp: cfg_ok_def numBBs_def)
  have f: "bits (df_apply (fs ! b) s) = block_live c (bb_startAddr ?bb) (take m (drop i ?is)) (bits s)" if "rs_ok s" for s
    using whole_block_live [OF _ e flow_problemD(8) [OF p b] live_oracle_wf [OF c]] h iso [OF b] that by fastforce
  have "tops ! b = top_value fn c fs tops b" "tops_ok fn tops" using t b by (auto simp: solves_def)
  then show "bits (df_apply (tops ! b) s) = (\<Union>sid \<in> set (bb_succs ?bb).
      block_live c (bb_startAddr ?bb) (take m (drop i ?is)) (edge_live fn c tops b s sid))"
    using top_value_live [OF p _ b _ f] h by simp
qed

section \<open>The analysis of a function\<close>

text \<open>Starting the analysis changes neither the graph nor what it relies on.\<close>

lemma start_of_analysis [simp]:
  "start_of (fn\<lparr>liveRegisters := t\<rparr>) = start_of fn" "start_of (fn\<lparr>regAnalysisDFSstate := st\<rparr>) = start_of fn"
  by (rule ext, simp add: start_of_def)+

lemma analysable_start:
  assumes "analysable fn c" and "fn' = sorted_fn (fn\<lparr>regAnalysisDFSstate := st\<rparr>)"
  shows "same_flow fn fn'" and "cfg_ok fn'" and "numBBs fn' = numBBs fn"
proof -
  show s: "same_flow fn fn'" unfolding assms(2) by (simp add: same_flow_def sorted_fn_def)
  show "numBBs fn' = numBBs fn" using s by (simp add: same_flow_def numBBs_def)
  have "cfg_ok (fn\<lparr>regAnalysisDFSstate := st\<rparr>) \<longleftrightarrow> cfg_ok fn"
    by (simp add: cfg_ok_def table_ok_def numBBs_def)
  then show "cfg_ok fn'" using assms by (simp add: analysable_def cfg_ok_sorted)
qed

lemma register_analysis_run:
  assumes a: "analysable fn c" and c: "live_oracle c" and st: "regAnalysisDFSstate fn = unvisited" "liveRegisters fn = []"
  shows "\<exists>fs tops. blocks_in_isolation fn c = Some fs \<and>
    doInterProcRegisterAnalysis1Fn False fn c = Some ((sorted_fn fn)\<lparr>liveRegisters := tops, regAnalysisDFSstate := completed\<rparr>) \<and>
    solves fn c fs tops \<and> (\<forall>u. solves fn c fs u \<longrightarrow> below fn tops u) \<and> live_at_tops fn c tops"
proof -
  let ?n = "numBBs fn" and ?fn1 = "fn\<lparr>regAnalysisDFSstate := visitedButNotCompleted\<rparr>"
  let ?fn2 = "?fn1\<lparr>liveRegisters := replicate ?n live_optimistic\<rparr>" and ?F = "sorted_fn ?fn1"
  obtain fs where fs: "blocks_in_isolation fn c = Some fs" "flow_problem fn c fs"
    "\<forall>b < ?n. doLiveRegAnalysisWholeBlock (basic_blocks fn ! b) (origCode fn) c = Some (fs ! b)"
    using analysable_flow [OF a c] by blast
  note F = analysable_start [OF a refl, of visitedButNotCompleted]
  note SF = same_flowD [OF F(1)]
  have bbs: "basic_blocks ?F = basic_blocks fn" by simp
  have pF: "flow_problem ?F c fs" using fs(2) F(2,3) SF unfolding flow_problem_def bbs by simp
  have solvesF: "solves ?F c fs u \<longleftrightarrow> solves fn c fs u" "below ?F t u \<longleftrightarrow> below fn t u" for t u
    unfolding solves_def tops_ok_def below_def SF F(3) by (rule refl)+
  have n: "0 < numBBs fn" "basic_blocks fn \<noteq> []" using a by (auto simp: analysable_def numBBs_def)
  have ord: "address_order ?fn2 = address_order fn" by (simp add: address_order_def numBBs_def)
  have reach2: "reach ?fn2 = reach fn" by (rule reach_same_blocks) simp
  have cfg2: "cfg_ok ?fn2" using a by (simp add: analysable_def cfg_ok_def table_ok_def numBBs_def)
  have n2: "numBBs ?fn2 = ?n" by (simp add: numBBs_def)
  obtain d ws ds where d: "performDFS ?fn2 = Some (d, sorted_fn ?fn2)" "numbered ?n ds (postOrder d)"
    "set ds = {b. reach fn (unat (hd (address_order fn))) b}"
    using performDFS_spec [OF cfg2] n(1) unfolding ord reach2 n2 by auto
  have "set ds \<subseteq> {..<?n}" using d(2) by (simp add: numbered_def)
  then have all: "set ds = {..<?n}" using d(3) a by (auto simp: analysable_def)
  have s2: "sorted_fn ?fn2 = ?F\<lparr>liveRegisters := replicate ?n live_optimistic\<rparr>"
    by (simp add: sorted_fn_def address_order_def numBBs_def)
  obtain tops where tops: "analysis_loop c fs (postOrder d) (?F\<lparr>liveRegisters := replicate ?n live_optimistic\<rparr>) (readySet_new ?n True) 0 =
      Some (?F\<lparr>liveRegisters := tops\<rparr>)" "solves fn c fs tops" "\<forall>u. solves fn c fs u \<longrightarrow> below fn tops u"
    using analysis_least [OF pF, unfolded F(3), OF d(2) all] unfolding solvesF by blast
  have iso: "blocks_in_isolation ?fn1 c = Some fs" using fs(1) by (simp add: blocks_in_isolation_def)
  have fin: "?F\<lparr>liveRegisters := tops, regAnalysisDFSstate := completed\<rparr> =
      (sorted_fn fn)\<lparr>liveRegisters := tops, regAnalysisDFSstate := completed\<rparr>"
    by (simp add: sorted_fn_def address_order_def numBBs_def)
  have "doInterProcRegisterAnalysis1Fn False fn c = Some (?F\<lparr>liveRegisters := tops, regAnalysisDFSstate := completed\<rparr>)"
    using st c iso d(1) tops(1) n n2 unfolding s2
    by (simp add: doInterProcRegisterAnalysis1Fn_def setRegAnalysisDFSstateToVisitedButNotCompleted_def isUnparsed_def
        prepareLiveRegisters_def live_oracle_def numBBs_def setRegAnalysisDFSstateToCompleted_def sorted_fn_def)
  then show ?thesis using fs(1) tops(2,3) solves_live [OF fs(2) c tops(2)] fs(3) unfolding fin by blast
qed

section \<open>Properties\<close>


definition demo_live_oracle :: call_oracle where
  "demo_live_oracle = \<lparr>getMergeOp = mergeopBitwiseOr, getOptimisticDataflowFn = live_optimistic,
     getPessimisticDataflowFn = (\<lambda>_. startAllRegs), whenDestAddrIsKnown = (\<lambda>_. startAllRegs)\<rparr>"

lemma demo_live_oracle: "live_oracle demo_live_oracle"
proof -
  have "live_ok startAllRegs"
    using df_wf_consts(2) pc_full by (simp add: live_ok_def live_bits_def startAllRegs_def df_of_window_def mbdf_window_bools_def)
  then show ?thesis by (simp add: live_oracle_def demo_live_oracle_def)
qed

lemma demo_analysable: "analysable demo_fn demo_live_oracle"
proof -
  have ord: "unat (hd (address_order demo_fn)) = 0" "numBBs demo_fn = 2"
    by (simp_all add: demo_fn_def numBBs_def address_order_def start_of_def upt_rec loop_blocks_def demo_block_def)
  have u: "list_all usage_live (the_insns (theCode (origCode demo_fn ! 0)))"
    using demo_usage_wf
    by (simp add: demo_fn_def demo_code_def insnVec_of_insns_def usage_all_wf_def usage_live_def demo_usage_def bits_iff demo_ax_def rs_empty_def)
  have at: "block_at (origCode demo_fn) 0 0 1 (basic_blocks demo_fn ! 0)" "block_at (origCode demo_fn) 0 1 1 (basic_blocks demo_fn ! 1)"
    by (simp_all add: block_at_def demo_fn_def loop_blocks_def demo_code_def demo_block_def fn_ok_def iv_ok_def insnVec_of_insns_def
        demo_usage_def demo_insn_def chunk_end_def numBytes_def)
  have s: "bb_succs (basic_blocks demo_fn ! 0) = [1]" "bb_succs (basic_blocks demo_fn ! 1) = [0, xExitBBId]"
    by (simp_all add: demo_fn_def loop_blocks_def bb_succs_def xExitBBId_def)
  have e: "\<not> isExitId 0" "\<not> isExitId 1" "isExitId xExitBBId"
    by (simp_all add: isExitId_def UnanalyzableBBId_def xExitBBId_def interProcBranchExitBBId_def)
  have "1 \<in> succ_blocks demo_fn 0"
    unfolding succ_blocks_def s by (rule image_eqI [of _ _ 1]) (simp_all add: e(2))
  then have r: "reach demo_fn 0 0" "reach demo_fn 0 1" by (auto intro: reach.intros)
  have x: "exit_fn demo_fn demo_live_oracle 1 xExitBBId \<noteq> None"
    by (simp add: exit_fn_def getLiveRegFnForAnExitEdge_def getBBInterProcFallThruAddrIfAny_def demo_fn_def fn_new_def
        UnanalyzableBBId_def xExitBBId_def interProcBranchExitBBId_def)
  show ?thesis
    unfolding analysable_def ord
  proof (intro conjI allI impI)
    fix b :: nat assume "b < 2"
    then consider "b = 0" | "b = 1" by linarith
    note b = this
    show "reach demo_fn 0 b" "bb_succs (basic_blocks demo_fn ! b) \<noteq> []" using b r s by (cases, simp_all)+
    show "\<exists>k i m. block_at (origCode demo_fn) k i m (basic_blocks demo_fn ! b) \<and>
        list_all usage_live (the_insns (theCode (origCode demo_fn ! k)))" using b at u by cases blast+
    show "\<forall>sid \<in> set (bb_succs (basic_blocks demo_fn ! b)). isExitId sid \<longrightarrow> exit_fn demo_fn demo_live_oracle b sid \<noteq> None"
      using b s e x by cases simp_all
  qed (simp_all add: demo_loop_ok)
qed


end
