(* ===== verification/FnParse.thy ===== *)
theory FnParse
  imports BlockGraph
begin

text \<open>
  Parsing the code of a function into basic blocks, on i386: the scan of a block
  (\<open>kerninstd/function/src/x86_funkshun.C\<close>), the treatment of control flow instructions
  (\<open>x86_controlFlow.C\<close>) and the oracle that creates blocks and edges (\<open>cfgCreationOracle.C\<close>,
  \<open>x86_cfgCreationOracle.C\<close>). Messages to the user are left out.
\<close>

unbundle bit_operations_syntax

declare sort_1_loop.simps [code] binary_search_loop.simps [code] first_greater_loop.simps [code]

section \<open>The oracle's state\<close>

text \<open>The counters that the parsers of all processors share.\<close>

record bbParsingStats =
  numStumblesOntoExistingBlock :: u32
  numInterProceduralStumbles :: u32
  numRetOrRetl :: u32
  numV9Returns :: u32
  numDoneOrRetry :: u32
  numIntraProcBranchAlways :: u32
  numIntraProcBranchNevers :: u32
  numIntraProcCondBranches :: u32
  numIntraProcCondBranchesWithAnnulBit :: u32
  numIntraProcCondBranchesWithAnnulBitAndSaveOrRestoreInDelay :: u32
  numInterProcBranchAlways :: u32
  numInterProcCondBranches :: u32
  numInterProcCondBranchesWithAnnulBit :: u32
  numInterProcCondBranchesWithAnnulBitAndSaveOrRestoreInDelay :: u32
  numCondBranchFallThrusThatDoInterProceduralStumble :: u32
  numJumpToRegFixedAddr_IntraProc :: u32
  numJumpToRegFixedAddr_InterProc :: u32
  numJmpBehavingAsRetl :: u32
  numTrueCalls_notTail :: u32
  numJmplCalls_notTail :: u32
  numTailCalls_TrueCallRestore :: u32
  numTailCalls_JmplRestore :: u32
  numTailCalls_trueCallThatWritesToO7InDelay :: u32
  numTailCalls_jmplThatWritesToO7InDelay :: u32
  numCallsJustToObtainPC :: u32
  numCallRecursion :: u32
  numHiddenIntraProcFnCalls :: u32
  numSimpleJumpTables :: u32
  numSimpleJumpTableTotalNonDupEntries :: u32
  numTaggedJumpTables :: u32
  numTaggedJumpTableTotalNonDupEntries :: u32
  numNonLoadingBackwardsJumpTables :: u32
  numNonLoadingBackwardsJumpTableTotalNonDupEntries :: u32
  numOffsetJumpTables :: u32
  numOffsetJumpTableTotalNonDupEntries :: u32

definition bbParsingStats_new :: bbParsingStats where
  "bbParsingStats_new = \<lparr>
     numStumblesOntoExistingBlock = 0, numInterProceduralStumbles = 0, numRetOrRetl = 0, numV9Returns = 0,
     numDoneOrRetry = 0, numIntraProcBranchAlways = 0, numIntraProcBranchNevers = 0, numIntraProcCondBranches = 0,
     numIntraProcCondBranchesWithAnnulBit = 0, numIntraProcCondBranchesWithAnnulBitAndSaveOrRestoreInDelay = 0,
     numInterProcBranchAlways = 0, numInterProcCondBranches = 0, numInterProcCondBranchesWithAnnulBit = 0,
     numInterProcCondBranchesWithAnnulBitAndSaveOrRestoreInDelay = 0,
     numCondBranchFallThrusThatDoInterProceduralStumble = 0, numJumpToRegFixedAddr_IntraProc = 0,
     numJumpToRegFixedAddr_InterProc = 0, numJmpBehavingAsRetl = 0, numTrueCalls_notTail = 0,
     numJmplCalls_notTail = 0, numTailCalls_TrueCallRestore = 0, numTailCalls_JmplRestore = 0,
     numTailCalls_trueCallThatWritesToO7InDelay = 0, numTailCalls_jmplThatWritesToO7InDelay = 0,
     numCallsJustToObtainPC = 0, numCallRecursion = 0, numHiddenIntraProcFnCalls = 0, numSimpleJumpTables = 0,
     numSimpleJumpTableTotalNonDupEntries = 0, numTaggedJumpTables = 0, numTaggedJumpTableTotalNonDupEntries = 0,
     numNonLoadingBackwardsJumpTables = 0, numNonLoadingBackwardsJumpTableTotalNonDupEntries = 0,
     numOffsetJumpTables = 0, numOffsetJumpTableTotalNonDupEntries = 0\<rparr>"

definition bbParsingStats_add :: "bbParsingStats \<Rightarrow> bbParsingStats \<Rightarrow> bbParsingStats" where
  "bbParsingStats_add t other = \<lparr>
     numStumblesOntoExistingBlock = numStumblesOntoExistingBlock t + numStumblesOntoExistingBlock other,
     numInterProceduralStumbles = numInterProceduralStumbles t + numInterProceduralStumbles other,
     numRetOrRetl = numRetOrRetl t + numRetOrRetl other, numV9Returns = numV9Returns t + numV9Returns other,
     numDoneOrRetry = numDoneOrRetry t + numDoneOrRetry other,
     numIntraProcBranchAlways = numIntraProcBranchAlways t + numIntraProcBranchAlways other,
     numIntraProcBranchNevers = numIntraProcBranchNevers t + numIntraProcBranchNevers other,
     numIntraProcCondBranches = numIntraProcCondBranches t + numIntraProcCondBranches other,
     numIntraProcCondBranchesWithAnnulBit = numIntraProcCondBranchesWithAnnulBit t + numIntraProcCondBranchesWithAnnulBit other,
     numIntraProcCondBranchesWithAnnulBitAndSaveOrRestoreInDelay = numIntraProcCondBranchesWithAnnulBitAndSaveOrRestoreInDelay t + numIntraProcCondBranchesWithAnnulBitAndSaveOrRestoreInDelay other,
     numInterProcBranchAlways = numInterProcBranchAlways t + numInterProcBranchAlways other,
     numInterProcCondBranches = numInterProcCondBranches t + numInterProcCondBranches other,
     numInterProcCondBranchesWithAnnulBit = numInterProcCondBranchesWithAnnulBit t + numInterProcCondBranchesWithAnnulBit other,
     numInterProcCondBranchesWithAnnulBitAndSaveOrRestoreInDelay = numInterProcCondBranchesWithAnnulBitAndSaveOrRestoreInDelay t + numInterProcCondBranchesWithAnnulBitAndSaveOrRestoreInDelay other,
     numCondBranchFallThrusThatDoInterProceduralStumble = numCondBranchFallThrusThatDoInterProceduralStumble t + numCondBranchFallThrusThatDoInterProceduralStumble other,
     numJumpToRegFixedAddr_IntraProc = numJumpToRegFixedAddr_IntraProc t + numJumpToRegFixedAddr_IntraProc other,
     numJumpToRegFixedAddr_InterProc = numJumpToRegFixedAddr_InterProc t + numJumpToRegFixedAddr_InterProc other,
     numJmpBehavingAsRetl = numJmpBehavingAsRetl t + numJmpBehavingAsRetl other,
     numTrueCalls_notTail = numTrueCalls_notTail t + numTrueCalls_notTail other,
     numJmplCalls_notTail = numJmplCalls_notTail t + numJmplCalls_notTail other,
     numTailCalls_TrueCallRestore = numTailCalls_TrueCallRestore t + numTailCalls_TrueCallRestore other,
     numTailCalls_JmplRestore = numTailCalls_JmplRestore t + numTailCalls_JmplRestore other,
     numTailCalls_trueCallThatWritesToO7InDelay = numTailCalls_trueCallThatWritesToO7InDelay t + numTailCalls_trueCallThatWritesToO7InDelay other,
     numTailCalls_jmplThatWritesToO7InDelay = numTailCalls_jmplThatWritesToO7InDelay t + numTailCalls_jmplThatWritesToO7InDelay other,
     numCallsJustToObtainPC = numCallsJustToObtainPC t + numCallsJustToObtainPC other,
     numCallRecursion = numCallRecursion t + numCallRecursion other,
     numHiddenIntraProcFnCalls = numHiddenIntraProcFnCalls t + numHiddenIntraProcFnCalls other,
     numSimpleJumpTables = numSimpleJumpTables t + numSimpleJumpTables other,
     numSimpleJumpTableTotalNonDupEntries = numSimpleJumpTableTotalNonDupEntries t + numSimpleJumpTableTotalNonDupEntries other,
     numTaggedJumpTables = numTaggedJumpTables t + numTaggedJumpTables other,
     numTaggedJumpTableTotalNonDupEntries = numTaggedJumpTableTotalNonDupEntries t + numTaggedJumpTableTotalNonDupEntries other,
     numNonLoadingBackwardsJumpTables = numNonLoadingBackwardsJumpTables t + numNonLoadingBackwardsJumpTables other,
     numNonLoadingBackwardsJumpTableTotalNonDupEntries = numNonLoadingBackwardsJumpTableTotalNonDupEntries t + numNonLoadingBackwardsJumpTableTotalNonDupEntries other,
     numOffsetJumpTables = numOffsetJumpTables t + numOffsetJumpTables other,
     numOffsetJumpTableTotalNonDupEntries = numOffsetJumpTableTotalNonDupEntries t + numOffsetJumpTableTotalNonDupEntries other\<rparr>"

text \<open>The oracle with the function under construction; a dictionary with dummy values is the set of its keys.\<close>

record cfgCreationOracle =
  the_fn :: function_t
  interProcJumpsAndCalls :: "kptr set"
  hiddenFnsToParse :: "(kptr \<times> string) list"
  allJumpTableStartAddrs :: "kptr list"
  theBBParsingStats :: bbParsingStats

text \<open>
  What the parser asks of its surroundings: the functions that return on behalf of their caller, and
  the kernel's memory outside of the function, as instructions and as words.
\<close>

record parse_env =
  functionsThatReturnForTheCaller :: "kptr list"
  getinsn_general :: "kptr \<Rightarrow> x86_instr option"
  getdbwd :: "kptr \<Rightarrow> u32"

text \<open>
  A run ends with a result, with a failed assertion, with an exception, which leaves the oracle as it
  is, or without fuel.
\<close>

datatype stop = AssertFailed | ParseFailed cfgCreationOracle | NoFuel

type_synonym 'a run = "stop + 'a"

definition bindR :: "'a run \<Rightarrow> ('a \<Rightarrow> 'b run) \<Rightarrow> 'b run" where
  "bindR r f = (case r of Inl e \<Rightarrow> Inl e | Inr x \<Rightarrow> f x)"

definition sure :: "'a option \<Rightarrow> 'a run" where
  "sure r = (case r of None \<Rightarrow> Inl AssertFailed | Some x \<Rightarrow> Inr x)"

definition require :: "bool \<Rightarrow> unit run" where
  "require b = (if b then Inr () else Inl AssertFailed)"

definition may_throw :: "cfgCreationOracle \<Rightarrow> (unit + 'a) option \<Rightarrow> 'a run" where
  "may_throw s r = (case r of None \<Rightarrow> Inl AssertFailed | Some (Inl _) \<Rightarrow> Inl (ParseFailed s) | Some (Inr x) \<Rightarrow> Inr x)"

lemma bindR_simps [simp]: "bindR (Inr x) f = f x" "bindR (Inl e) f = Inl e"
  by (simp_all add: bindR_def)

lemma sure_simps [simp]: "sure (Some x) = Inr x" "sure None = Inl AssertFailed"
  by (simp_all add: sure_def)

lemma require_simps [simp]: "require True = Inr ()" "require False = Inl AssertFailed"
  by (simp_all add: require_def)

lemma may_throw_simps [simp]: "may_throw s (Some (Inr x)) = Inr x" "may_throw s None = Inl AssertFailed"
    "may_throw s (Some (Inl u)) = Inl (ParseFailed s)"
  by (simp_all add: may_throw_def)

section \<open>Operations on the function\<close>

definition stat :: "(bbParsingStats \<Rightarrow> bbParsingStats) \<Rightarrow> cfgCreationOracle \<Rightarrow> cfgCreationOracle" where
  "stat f s = s\<lparr>theBBParsingStats := f (theBBParsingStats s)\<rparr>"

definition to_fn :: "cfgCreationOracle \<Rightarrow> function_t option \<Rightarrow> cfgCreationOracle run" where
  "to_fn s r = bindR (sure r) (\<lambda>f. Inr (s\<lparr>the_fn := f\<rparr>))"

definition block_of :: "cfgCreationOracle \<Rightarrow> u16 \<Rightarrow> basicblock run" where
  "block_of s bb_id = sure (vget (basic_blocks (the_fn s)) bb_id)"

definition num_succs :: "cfgCreationOracle \<Rightarrow> u16 \<Rightarrow> nat run" where
  "num_succs s bb_id = bindR (block_of s bb_id) (\<lambda>bb. sure (numSuccessors bb))"

definition bump :: "cfgCreationOracle \<Rightarrow> u16 \<Rightarrow> x86_instr \<Rightarrow> cfgCreationOracle run" where
  "bump s bb_id i = bindR (may_throw s (bumpUpBlockSizeBy1Insn (the_fn s) bb_id i)) (\<lambda>f. Inr (s\<lparr>the_fn := f\<rparr>))"

definition search :: "cfgCreationOracle \<Rightarrow> kptr \<Rightarrow> (u16 \<times> cfgCreationOracle) run" where
  "search s addr = bindR (sure (searchForBB (the_fn s) addr)) (\<lambda>(bb_id, f). Inr (bb_id, s\<lparr>the_fn := f\<rparr>))"

definition new_block :: "cfgCreationOracle \<Rightarrow> kptr \<Rightarrow> u16 \<Rightarrow> (u16 \<times> cfgCreationOracle) run" where
  "new_block s addr parent_id =
     bindR (sure (bb_new addr parent_id)) (\<lambda>newbb.
     bindR (sure (addBlock_new (the_fn s) newbb)) (\<lambda>(bb_id, f). Inr (bb_id, s\<lparr>the_fn := f\<rparr>)))"

definition add_succ :: "cfgCreationOracle \<Rightarrow> u16 \<Rightarrow> u16 \<Rightarrow> cfgCreationOracle run" where
  "add_succ s bb_id succ_id = to_fn s (addSuccessorToBlockByIdNoDup (the_fn s) bb_id succ_id)"

text \<open>\<open>if (!fn.addPredecessorToBlockByIdUnlessDup(succ_id, bb_id)) assert(false)\<close>, and the same for successors.\<close>

definition add_pred :: "cfgCreationOracle \<Rightarrow> u16 \<Rightarrow> u16 \<Rightarrow> cfgCreationOracle run" where
  "add_pred s succ_id bb_id = to_fn s (do {
     (added, f) \<leftarrow> addPredecessorToBlockByIdUnlessDup (the_fn s) succ_id bb_id;
     assert added;
     Some f
   })"

definition add_succ_once :: "cfgCreationOracle \<Rightarrow> u16 \<Rightarrow> u16 \<Rightarrow> (bool \<times> cfgCreationOracle) run" where
  "add_succ_once s bb_id succ_id =
     bindR (sure (addSuccessorToBlockByIdUnlessDup (the_fn s) bb_id succ_id)) (\<lambda>(added, f). Inr (added, s\<lparr>the_fn := f\<rparr>))"

definition split_at :: "cfgCreationOracle \<Rightarrow> u16 \<Rightarrow> kptr \<Rightarrow> (u16 \<times> cfgCreationOracle) run" where
  "split_at s bb_id addr = bindR (sure (splitBasicBlock (the_fn s) bb_id addr)) (\<lambda>(new_id, f). Inr (new_id, s\<lparr>the_fn := f\<rparr>))"

definition in_fn :: "cfgCreationOracle \<Rightarrow> kptr \<Rightarrow> bool run" where
  "in_fn s addr = sure (containsAddr (the_fn s) addr)"

text \<open>A path of block ids without cycles, and the constructor that appends one.\<close>

type_synonym simplePath = "nat list"

definition path_plus :: "simplePath \<Rightarrow> u16 \<Rightarrow> simplePath run" where
  "path_plus src elem = bindR (require (unat elem \<notin> set src)) (\<lambda>_. Inr (src @ [unat elem]))"

type_synonym parser = "u16 \<Rightarrow> simplePath \<Rightarrow> cfgCreationOracle \<Rightarrow> cfgCreationOracle run"

section \<open>The oracle\<close>

definition processInterproceduralFallThru :: "cfgCreationOracle \<Rightarrow> u16 \<Rightarrow> cfgCreationOracle run" where
  "processInterproceduralFallThru s bb_id =
     bindR (add_succ s bb_id xExitBBId) (\<lambda>s1.
     bindR (to_fn s1 (markBlockAsHavingInterProcFallThru (the_fn s1) bb_id)) (\<lambda>s2.
     Inr (stat (numInterProceduralStumbles_update (\<lambda>n. n + 1)) s2)))"

definition processStumbleOntoExistingBlock :: "cfgCreationOracle \<Rightarrow> u16 \<Rightarrow> u16 \<Rightarrow> cfgCreationOracle run" where
  "processStumbleOntoExistingBlock s bb_id stumble_bb_id =
     bindR (add_succ s bb_id stumble_bb_id) (\<lambda>s1.
     bindR (add_pred s1 stumble_bb_id bb_id) (\<lambda>s2.
     Inr (stat (numStumblesOntoExistingBlock_update (\<lambda>n. n + 1)) s2)))"

primrec processSeveralNonControlFlowInsnsAsInsnVecSubset ::
  "nat \<Rightarrow> cfgCreationOracle \<Rightarrow> u16 \<Rightarrow> kptr \<Rightarrow> cfgCreationOracle run" where
  "processSeveralNonControlFlowInsnsAsInsnVecSubset 0 s bb_id myAddr = Inr s"
| "processSeveralNonControlFlowInsnsAsInsnVecSubset (Suc n) s bb_id myAddr =
     bindR (may_throw s (fn_get1Insn (origCode (the_fn s)) myAddr)) (\<lambda>i.
     bindR (bump s bb_id i) (\<lambda>s1.
     processSeveralNonControlFlowInsnsAsInsnVecSubset n s1 bb_id (myAddr + getNumBytes i)))"

definition processNonControlFlowCode :: "cfgCreationOracle \<Rightarrow> u16 \<Rightarrow> kptr \<Rightarrow> nat \<Rightarrow> cfgCreationOracle run" where
  "processNonControlFlowCode s bb_id codeStartAddr codeNumInsns =
     (if codeNumInsns = 0 then Inr s
      else processSeveralNonControlFlowInsnsAsInsnVecSubset codeNumInsns s bb_id codeStartAddr)"

text \<open>The instruction ends the block, and control leaves the function.\<close>

definition leave_fn :: "cfgCreationOracle \<Rightarrow> u16 \<Rightarrow> x86_instr \<Rightarrow> cfgCreationOracle run" where
  "leave_fn s bb_id i =
     bindR (bump s bb_id i) (\<lambda>s1.
     bindR (num_succs s1 bb_id) (\<lambda>n.
     bindR (require (n = 0)) (\<lambda>_. add_succ s1 bb_id xExitBBId)))"

definition note_target :: "kptr \<Rightarrow> cfgCreationOracle \<Rightarrow> cfgCreationOracle" where
  "note_target addr s = s\<lparr>interProcJumpsAndCalls := insert addr (interProcJumpsAndCalls s)\<rparr>"

definition processCallToRoutineReturningOnCallersBehalf ::
  "cfgCreationOracle \<Rightarrow> u16 \<Rightarrow> x86_instr \<Rightarrow> kptr \<Rightarrow> cfgCreationOracle run" where
  "processCallToRoutineReturningOnCallersBehalf s bb_id i calleeAddr =
     bindR (leave_fn s bb_id i) (\<lambda>s1. Inr (note_target calleeAddr s1))"

definition processReturn :: "cfgCreationOracle \<Rightarrow> u16 \<Rightarrow> x86_instr \<Rightarrow> cfgCreationOracle run" where
  "processReturn s bb_id insn = bindR (leave_fn s bb_id insn) (\<lambda>s1. Inr (stat (numRetOrRetl_update (\<lambda>n. n + 1)) s1))"

definition processDoneOrRetry :: "cfgCreationOracle \<Rightarrow> u16 \<Rightarrow> x86_instr \<Rightarrow> cfgCreationOracle run" where
  "processDoneOrRetry s bb_id insn =
     bindR (leave_fn s bb_id insn) (\<lambda>s1. Inr (stat (numDoneOrRetry_update (\<lambda>n. n + 1)) s1))"

text \<open>The hexadecimal digits of an address, eight of them.\<close>

definition hexdigit :: "nat \<Rightarrow> char" where
  "hexdigit n = ''0123456789ABCDEF'' ! n"

definition addr2hex :: "kptr \<Rightarrow> string" where
  "addr2hex num = ''0x'' @ map (\<lambda>k. hexdigit (unat num div 16 ^ k mod 16)) (rev [0..<8])"

definition noteHiddenIntraProceduralFn :: "cfgCreationOracle \<Rightarrow> kptr \<Rightarrow> cfgCreationOracle" where
  "noteHiddenIntraProceduralFn s calleeAddr =
     stat (numHiddenIntraProcFnCalls_update (\<lambda>n. n + 1))
       (s\<lparr>hiddenFnsToParse := hiddenFnsToParse s @ [(calleeAddr, primary_name (the_fn s) @ ''.'' @ addr2hex calleeAddr)]\<rparr>)"

definition processNonTailOptimizedTrueCall :: "cfgCreationOracle \<Rightarrow> u16 \<Rightarrow> x86_instr \<Rightarrow> kptr \<Rightarrow> cfgCreationOracle run" where
  "processNonTailOptimizedTrueCall s bb_id callInstr destAddr =
     bindR (bump s bb_id callInstr) (\<lambda>s1.
     Inr (stat (numTrueCalls_notTail_update (\<lambda>n. n + 1)) (note_target destAddr s1)))"

definition processInterproceduralJmpToFixedAddr ::
  "cfgCreationOracle \<Rightarrow> u16 \<Rightarrow> x86_instr \<Rightarrow> kptr \<Rightarrow> cfgCreationOracle run" where
  "processInterproceduralJmpToFixedAddr s bb_id instr destAddr =
     bindR (leave_fn s bb_id instr) (\<lambda>s1.
     Inr (stat (numJumpToRegFixedAddr_InterProc_update (\<lambda>n. n + 1)) (note_target destAddr s1)))"

subsection \<open>Branches within the function\<close>

text \<open>A block that jumps into itself has been split: the edge goes from its lower half to the lower half.\<close>

definition loop_to_self :: "cfgCreationOracle \<Rightarrow> u16 \<Rightarrow> cfgCreationOracle run" where
  "loop_to_self s bb_id =
     bindR (block_of s bb_id) (\<lambda>bb.
     bindR (sure (numSuccessors bb)) (\<lambda>n.
     bindR (require (n = 1)) (\<lambda>_.
     bindR (sure (getsucc bb 0)) (\<lambda>succ0bb_id.
     bindR (block_of s succ0bb_id) (\<lambda>succ0bb.
     bindR (sure (numPredecessors succ0bb)) (\<lambda>np.
     bindR (require (np = 1)) (\<lambda>_.
     bindR (sure (getpred succ0bb 0)) (\<lambda>p0.
     bindR (require (p0 = bb_id)) (\<lambda>_.
     bindR (add_succ_once s succ0bb_id succ0bb_id) (\<lambda>(added, s1).
     if added then add_pred s1 succ0bb_id succ0bb_id else Inr s1))))))))))"

text \<open>The taken case of a branch; \<^term>\<open>True\<close> when the block itself was split.\<close>

definition handleConditionalBranchInstrTakenCase ::
  "parser \<Rightarrow> cfgCreationOracle \<Rightarrow> u16 \<Rightarrow> kptr \<Rightarrow> simplePath \<Rightarrow> (bool \<times> cfgCreationOracle) run" where
  "handleConditionalBranchInstrTakenCase parse s bb_id destAddr pathFromEntryBB =
     bindR (sure (fn_enclosesAddr (origCode (the_fn s)) destAddr)) (\<lambda>inside.
     bindR (require inside) (\<lambda>_.
     bindR (num_succs s bb_id) (\<lambda>n.
     bindR (require (n = 0)) (\<lambda>_.
     bindR (search s destAddr) (\<lambda>(succ_bb_id, s1).
     if succ_bb_id = -1 then
       bindR (new_block s1 destAddr bb_id) (\<lambda>(new_id, s2).
       bindR (add_succ s2 bb_id new_id) (\<lambda>s3.
       bindR (path_plus pathFromEntryBB bb_id) (\<lambda>path.
       bindR (parse new_id path s3) (\<lambda>s4. Inr (False, s4)))))
     else
       bindR (block_of s1 succ_bb_id) (\<lambda>succ_bb.
       if bb_startAddr succ_bb = destAddr then
         bindR (add_succ s1 bb_id succ_bb_id) (\<lambda>s2.
         bindR (add_pred s2 succ_bb_id bb_id) (\<lambda>s3. Inr (False, s3)))
       else
         bindR (split_at s1 succ_bb_id destAddr) (\<lambda>(new_id, s2).
         if succ_bb_id \<noteq> bb_id then
           bindR (num_succs s2 bb_id) (\<lambda>n'.
           bindR (require (n' = 0)) (\<lambda>_.
           bindR (add_succ s2 bb_id new_id) (\<lambda>s3.
           bindR (add_pred s3 new_id bb_id) (\<lambda>s4. Inr (False, s4)))))
         else
           bindR (loop_to_self s2 bb_id) (\<lambda>s3. Inr (True, s3)))))))))"

definition handleConditionalBranchInstrFallThroughCase ::
  "parser \<Rightarrow> cfgCreationOracle \<Rightarrow> u16 \<Rightarrow> kptr \<Rightarrow> simplePath \<Rightarrow> cfgCreationOracle run" where
  "handleConditionalBranchInstrFallThroughCase parse s bb_id fallThroughInsnAddr pathFromEntryBB =
     bindR (num_succs s bb_id) (\<lambda>n.
     bindR (require (n < 2)) (\<lambda>_.
     bindR (in_fn s fallThroughInsnAddr) (\<lambda>inside.
     if \<not> inside then
       bindR (add_succ s bb_id xExitBBId) (\<lambda>s1.
       bindR (to_fn s1 (markBlockAsHavingInterProcFallThru (the_fn s1) bb_id)) (\<lambda>s2.
       Inr (stat (numCondBranchFallThrusThatDoInterProceduralStumble_update (\<lambda>n. n + 1)) s2)))
     else
       bindR (search s fallThroughInsnAddr) (\<lambda>(succ_id, s1).
       bindR (if succ_id = -1 then
           bindR (new_block s1 fallThroughInsnAddr bb_id) (\<lambda>(new_id, s2).
           bindR (add_succ s2 bb_id new_id) (\<lambda>s3.
           bindR (path_plus pathFromEntryBB bb_id) (\<lambda>path. parse new_id path s3)))
         else
           bindR (block_of s1 succ_id) (\<lambda>fallThruBlock.
           bindR (require (bb_startAddr fallThruBlock = fallThroughInsnAddr)) (\<lambda>_.
           bindR (block_of s1 bb_id) (\<lambda>bb.
           bindR (sure (numSuccessors bb)) (\<lambda>n'.
           bindR (if n' = 0 then Inr True else bindR (sure (getsucc bb 0)) (\<lambda>s0. Inr (s0 \<noteq> succ_id))) (\<lambda>new.
           if new then bindR (add_succ s1 bb_id succ_id) (\<lambda>s2. add_pred s2 succ_id bb_id)
           else Inr s1))))))
       (\<lambda>s4.
       bindR (num_succs s4 bb_id) (\<lambda>n'.
       bindR (require (n' > 0)) (\<lambda>_. Inr s4)))))))"

definition processCallRecursion ::
  "parser \<Rightarrow> cfgCreationOracle \<Rightarrow> u16 \<Rightarrow> kptr \<Rightarrow> x86_instr \<Rightarrow> kptr \<Rightarrow> simplePath \<Rightarrow> cfgCreationOracle run" where
  "processCallRecursion parse s bb_id calleeAddr callInstr instrAddr pathFromEntryBB =
     bindR (bump s bb_id callInstr) (\<lambda>s1.
     bindR (handleConditionalBranchInstrTakenCase parse s1 bb_id calleeAddr pathFromEntryBB) (\<lambda>(splitSelf, s2).
     bindR (if splitSelf then bindR (block_of s2 bb_id) (\<lambda>bb. sure (getsucc bb 0)) else Inr bb_id) (\<lambda>fallThruOnBehalfOf.
     bindR (if splitSelf then path_plus pathFromEntryBB bb_id else Inr pathFromEntryBB) (\<lambda>path.
     bindR (handleConditionalBranchInstrFallThroughCase parse s2 fallThruOnBehalfOf (instrAddr + getNumBytes callInstr) path) (\<lambda>s3.
     Inr (stat (numCallRecursion_update (\<lambda>n. n + 1)) s3))))))"

subsection \<open>Branches out of the function\<close>

definition byte :: "u8 list \<Rightarrow> nat \<Rightarrow> u8 option" where
  "byte bytes k = (if k < length bytes then Some (bytes ! k) else None)"

text \<open>
  The switch on the first byte of the instruction before a branch. The byte is a signed \<open>char\<close>, which
  is promoted, and the labels are positive numbers.
\<close>

definition synch_switch :: "u8 list \<Rightarrow> u32 \<Rightarrow> bool option" where
  "synch_switch bytes prev_numbytes = do {
     b0 \<leftarrow> byte bytes 0;
     if sint b0 = 0xFE \<or> sint b0 = 0xFF then Some True
     else if sint b0 = 0x81 then
       (if prev_numbytes = 6 then do {
          b1 \<leftarrow> byte bytes 1;
          Some (b1 AND 0x38 = 0x28 \<and> take 4 (drop 2 bytes) = [0, 0, 0, 1])
        }
        else Some False)
     else if sint b0 = 0x83 then
       (if prev_numbytes = 3 then do {
          b1 \<leftarrow> byte bytes 1;
          b2 \<leftarrow> byte bytes 2;
          Some (b1 AND 0x28 = 0x28 \<and> b2 = 1)
        }
        else Some False)
     else if sint b0 = 0x0F then do { b1 \<leftarrow> byte bytes 1; Some (b1 = 0xC1) }
     else Some False
   }"

definition cond_NotEqual :: u32 where "cond_NotEqual = 0x05"
definition cond_Sign :: u32 where "cond_Sign = 0x08"
definition cond_LessThanEqual :: u32 where "cond_LessThanEqual = 0x0E"

definition is_synch_insn :: "x86_instr \<Rightarrow> u32 \<Rightarrow> bool option" where
  "is_synch_insn prev_insn condition = do {
     let bytes = getRawBytes prev_insn;
     let n = getNumBytes prev_insn;
     b0 \<leftarrow> byte bytes 0;
     cmp \<leftarrow> (if n = 4 \<and> b0 = 0x83 then do {
               b1 \<leftarrow> byte bytes 1;
               b3 \<leftarrow> byte bytes 3;
               Some (b1 AND 0x38 = 0x38 \<and> b3 = 0 \<and> condition = cond_NotEqual)
             }
             else Some False);
     test \<leftarrow> (if n = 2 \<and> b0 = 0x85 then do {
                b1 \<leftarrow> byte bytes 1;
                Some (b1 AND 0xC0 = 0xC0 \<and> condition = cond_NotEqual)
              }
              else Some False);
     if cmp \<or> test then Some True
     else if b0 = 0xF0 then synch_switch (drop 1 bytes) (n - 1)
     else synch_switch bytes n
   }"

text \<open>Before the first instruction of a chunk there is none to look at.\<close>

definition is_synchcode_branch :: "fnCode \<Rightarrow> controlFlowInfo \<Rightarrow> kptr \<Rightarrow> bool option" where
  "is_synchcode_branch fn_code cfi instrAddr =
     (if cfi_condition cfi = cond_Sign \<or> cfi_condition cfi = cond_LessThanEqual \<or> cfi_condition cfi = cond_NotEqual then do {
        r \<leftarrow> findChunk fn_code instrAddr False;
        k \<leftarrow> r;
        let chunk = fn_code ! k;
        chunk_get1Insn chunk instrAddr;
        ndx \<leftarrow> byteOffset2InsnNdx (theCode chunk) (instrAddr - startAddr chunk);
        assert (0 < ndx);
        prev_insn \<leftarrow> get_by_ndx (theCode chunk) (ndx - 1);
        is_synch_insn prev_insn (cfi_condition cfi)
      }
      else Some False)"

definition processInterproceduralBranch ::
  "cfgCreationOracle \<Rightarrow> u16 \<Rightarrow> kptr \<Rightarrow> controlFlowInfo \<Rightarrow> bool \<Rightarrow> kptr \<Rightarrow> cfgCreationOracle run" where
  "processInterproceduralBranch s bb_id destAddr cfi branchAlways instrAddr =
     (if branchAlways then
        bindR (add_succ s bb_id interProcBranchExitBBId) (\<lambda>s1.
        Inr (stat (numInterProcBranchAlways_update (\<lambda>n. n + 1)) (note_target destAddr s1)))
      else
        bindR (sure (is_synchcode_branch (origCode (the_fn s)) cfi instrAddr)) (\<lambda>synch.
        if synch then Inr (stat (numIntraProcCondBranches_update (\<lambda>n. n + 1)) s)
        else
          bindR (add_succ s bb_id interProcBranchExitBBId) (\<lambda>s1.
          Inr (stat (numInterProcCondBranches_update (\<lambda>n. n + 1)) (note_target destAddr s1)))))"

definition processCondBranch ::
  "parser \<Rightarrow> cfgCreationOracle \<Rightarrow> u16 \<Rightarrow> x86_instr \<Rightarrow> controlFlowInfo \<Rightarrow> kptr \<Rightarrow> kptr \<Rightarrow> kptr \<Rightarrow> simplePath \<Rightarrow>
     cfgCreationOracle run" where
  "processCondBranch parse s bb_id i cfi instrAddr fallThroughAddr destAddr pathFromEntryBB =
     bindR (bump s bb_id i) (\<lambda>s1.
     bindR (num_succs s1 bb_id) (\<lambda>n.
     bindR (require (n = 0)) (\<lambda>_.
     bindR (in_fn s1 destAddr) (\<lambda>inside.
     bindR (if \<not> inside then
         bindR (processInterproceduralBranch s1 bb_id destAddr cfi False instrAddr) (\<lambda>s2. Inr (False, s2))
       else
         handleConditionalBranchInstrTakenCase parse (stat (numIntraProcCondBranches_update (\<lambda>n. n + 1)) s1) bb_id destAddr
           pathFromEntryBB)
     (\<lambda>(definitelySplit, s2).
     bindR (if definitelySplit then search s2 instrAddr else Inr (bb_id, s2)) (\<lambda>(parent_id, s3).
     bindR (require (parent_id \<noteq> -1)) (\<lambda>_.
     bindR (if parent_id \<noteq> bb_id then path_plus pathFromEntryBB bb_id else Inr pathFromEntryBB) (\<lambda>path.
     handleConditionalBranchInstrFallThroughCase parse s3 parent_id fallThroughAddr path))))))))"

definition processIntraproceduralJmpToFixedAddr ::
  "parser \<Rightarrow> cfgCreationOracle \<Rightarrow> u16 \<Rightarrow> x86_instr \<Rightarrow> kptr \<Rightarrow> simplePath \<Rightarrow> cfgCreationOracle run" where
  "processIntraproceduralJmpToFixedAddr parse s bb_id instr destAddr pathFromEntryBB =
     bindR (bump s bb_id instr) (\<lambda>s1.
     bindR (num_succs s1 bb_id) (\<lambda>n.
     bindR (require (n = 0)) (\<lambda>_.
     bindR (handleConditionalBranchInstrTakenCase parse s1 bb_id destAddr pathFromEntryBB) (\<lambda>(_, s2).
     bindR (num_succs s2 bb_id) (\<lambda>n'.
     bindR (require (n' = 1)) (\<lambda>_.
     Inr (stat (numJumpToRegFixedAddr_IntraProc_update (\<lambda>n. n + 1)) s2)))))))"

subsection \<open>Jump tables\<close>

text \<open>No jump table of i386 code is kept with bounds that a later one could change.\<close>

definition adjustForNewJumpTableStartAddr :: "cfgCreationOracle \<Rightarrow> kptr \<Rightarrow> cfgCreationOracle run" where
  "adjustForNewJumpTableStartAddr s jumpTableStartAddr =
     bindR (require (jumpTableStartAddr \<notin> set (allJumpTableStartAddrs s))) (\<lambda>_.
     Inr (s\<lparr>allJumpTableStartAddrs := sort (allJumpTableStartAddrs s @ [jumpTableStartAddr])\<rparr>))"

definition prepareSimpleJumpTable32 :: "cfgCreationOracle \<Rightarrow> u16 \<Rightarrow> x86_instr \<Rightarrow> kptr \<Rightarrow> cfgCreationOracle run" where
  "prepareSimpleJumpTable32 s bb_id jmpInsn jumpTableDataStartAddr =
     bindR (num_succs s bb_id) (\<lambda>n.
     bindR (require (n = 0)) (\<lambda>_.
     bindR (bump s bb_id jmpInsn) (\<lambda>s1.
     bindR (num_succs s1 bb_id) (\<lambda>n'.
     bindR (require (n' = 0)) (\<lambda>_.
     adjustForNewJumpTableStartAddr s1 jumpTableDataStartAddr)))))"

definition process1SimpleJumpTable32Entry ::
  "parser \<Rightarrow> cfgCreationOracle \<Rightarrow> u16 \<Rightarrow> kptr \<Rightarrow> simplePath \<Rightarrow> cfgCreationOracle run" where
  "process1SimpleJumpTable32Entry parse s bb_id nextJumpTableEntry pathFromEntryBB =
     bindR (search s nextJumpTableEntry) (\<lambda>(succ_bb_id, s1).
     if succ_bb_id = -1 then
       bindR (new_block s1 nextJumpTableEntry bb_id) (\<lambda>(new_id, s2).
       bindR (add_succ s2 bb_id new_id) (\<lambda>s3.
       bindR (path_plus pathFromEntryBB bb_id) (\<lambda>path.
       bindR (parse new_id path s3) (\<lambda>s4.
       bindR (search s4 nextJumpTableEntry) (\<lambda>(found_id, s5).
       bindR (require (new_id = found_id)) (\<lambda>_. Inr s5))))))
     else
       bindR (block_of s1 succ_bb_id) (\<lambda>succ_bb.
       if bb_startAddr succ_bb = nextJumpTableEntry then
         bindR (add_succ_once s1 bb_id succ_bb_id) (\<lambda>(added, s2).
         if added then add_pred s2 succ_bb_id bb_id
         else
           bindR (block_of s2 bb_id) (\<lambda>bb.
           bindR (require (hasAsASuccessor bb succ_bb_id)) (\<lambda>_. Inr s2)))
       else
         bindR (require (succ_bb_id \<noteq> bb_id)) (\<lambda>_.
         bindR (split_at s1 succ_bb_id nextJumpTableEntry) (\<lambda>(new_id, s2).
         bindR (add_succ_once s2 bb_id new_id) (\<lambda>(added, s3).
         bindR (require added) (\<lambda>_. add_pred s3 new_id bb_id))))))"

definition completeSimpleJumpTable32 :: "cfgCreationOracle \<Rightarrow> u16 \<Rightarrow> cfgCreationOracle run" where
  "completeSimpleJumpTable32 s bb_id =
     bindR (num_succs s bb_id) (\<lambda>n.
     Inr (stat (numSimpleJumpTableTotalNonDupEntries_update (\<lambda>k. k + of_nat n))
       (stat (numSimpleJumpTables_update (\<lambda>k. k + 1)) s)))"

text \<open>
  The loop over the entries. It ends on an entry that lies in a block or whose content is not an
  address of the function; which way the jumps have gone so far only changes the message.
\<close>

primrec jump_table_loop ::
  "parse_env \<Rightarrow> parser \<Rightarrow> nat \<Rightarrow> cfgCreationOracle \<Rightarrow> u16 \<Rightarrow> kptr \<Rightarrow> u32 \<Rightarrow> simplePath \<Rightarrow> cfgCreationOracle run" where
  "jump_table_loop env parse 0 s bb_id jumpTableStartAddr jumpTableNdx pathFromEntryBB = Inl NoFuel"
| "jump_table_loop env parse (Suc fuel) s bb_id jumpTableStartAddr jumpTableNdx pathFromEntryBB =
     (let nextJumpTableEntryAddr = jumpTableStartAddr + 4 * jumpTableNdx in
     bindR (search s nextJumpTableEntryAddr) (\<lambda>(stumble_bb_id, s1).
     if stumble_bb_id \<noteq> -1 then
       bindR (block_of s1 stumble_bb_id) (\<lambda>bb.
       bindR (require (bb_startAddr bb = nextJumpTableEntryAddr)) (\<lambda>_. Inr s1))
     else
       let nextJumpTableEntry = getdbwd env nextJumpTableEntryAddr in
       bindR (in_fn s1 nextJumpTableEntry) (\<lambda>inside.
       if \<not> inside then Inr s1
       else
         bindR (process1SimpleJumpTable32Entry parse s1 bb_id nextJumpTableEntry pathFromEntryBB) (\<lambda>s2.
         jump_table_loop env parse fuel s2 bb_id jumpTableStartAddr (jumpTableNdx + 1) pathFromEntryBB))))"

section \<open>Control flow instructions\<close>

text \<open>
  A handler says whether the block goes on, and with \<open>instrAddr\<close> at what address; the blocks
  it starts are parsed by \<open>parse\<close>. Normal calls do not end a block.
\<close>

record parse_ctx =
  ctx_bb_id :: u16
  pathFromEntryBB :: simplePath
  stumbleOntoAt :: kptr
  firstBBIdGrStartAddr :: u16
  theCodeChunk :: codeChunk

type_synonym handled = "(bool \<times> kptr \<times> cfgCreationOracle) run"

definition block_done :: "kptr \<Rightarrow> cfgCreationOracle run \<Rightarrow> handled" where
  "block_done instrAddr r = bindR r (\<lambda>s. Inr (False, instrAddr, s))"

definition block_goes_on :: "kptr \<Rightarrow> x86_instr \<Rightarrow> cfgCreationOracle run \<Rightarrow> handled" where
  "block_goes_on instrAddr instr r = bindR r (\<lambda>s. Inr (True, instrAddr + getNumBytes instr, s))"

definition handleCallInstr ::
  "parse_env \<Rightarrow> parser \<Rightarrow> cfgCreationOracle \<Rightarrow> parse_ctx \<Rightarrow> x86_instr \<Rightarrow> kptr \<Rightarrow> controlFlowInfo \<Rightarrow> handled" where
  "handleCallInstr env parse s ctx callInstr instrAddr cfi =
     bindR (require (controlFlowInstruction cfi)) (\<lambda>_.
     if destination cfi = pcRelative then
       (let destAddr = instrAddr + getNumBytes callInstr + offset_nbytes cfi in
        if destAddr \<in> set (functionsThatReturnForTheCaller env) then
          block_done instrAddr (processCallToRoutineReturningOnCallersBehalf s (ctx_bb_id ctx) callInstr destAddr)
        else
          bindR (in_fn s destAddr) (\<lambda>inside.
          if inside then
            (if destAddr = entryAddr (the_fn s) then
               block_done instrAddr
                 (processCallRecursion parse s (ctx_bb_id ctx) destAddr callInstr instrAddr (pathFromEntryBB ctx))
             else block_goes_on instrAddr callInstr
               (bump (noteHiddenIntraProceduralFn s destAddr) (ctx_bb_id ctx) callInstr))
          else block_goes_on instrAddr callInstr (processNonTailOptimizedTrueCall s (ctx_bb_id ctx) callInstr destAddr)))
     else if destination cfi = memIndirect \<or> destination cfi = regRelative then
       block_goes_on instrAddr callInstr (bump s (ctx_bb_id ctx) callInstr)
     else Inl AssertFailed)"

definition handleConditionalBranchInstr ::
  "parser \<Rightarrow> cfgCreationOracle \<Rightarrow> parse_ctx \<Rightarrow> x86_instr \<Rightarrow> kptr \<Rightarrow> controlFlowInfo \<Rightarrow> handled" where
  "handleConditionalBranchInstr parse s ctx instr instrAddr cfi =
     (let fallThroughAddr = instrAddr + getNumBytes instr in
      bindR (require (destination cfi = pcRelative)) (\<lambda>_.
      block_done instrAddr
        (processCondBranch parse s (ctx_bb_id ctx) instr cfi instrAddr fallThroughAddr (fallThroughAddr + offset_nbytes cfi)
           (pathFromEntryBB ctx))))"

text \<open>The table of a jump through a register is not looked for.\<close>

definition getJmpTableBaseAddr :: kptr where
  "getJmpTableBaseAddr = 0"

definition handleJmpAsSimpleJumpTable32 ::
  "parse_env \<Rightarrow> nat \<Rightarrow> parser \<Rightarrow> cfgCreationOracle \<Rightarrow> parse_ctx \<Rightarrow> x86_instr \<Rightarrow> kptr \<Rightarrow> kptr \<Rightarrow> handled" where
  "handleJmpAsSimpleJumpTable32 env fuel parse s ctx instr jumpInstrAddr jumpTableStartAddr =
     block_done jumpInstrAddr
       (bindR (prepareSimpleJumpTable32 s (ctx_bb_id ctx) instr jumpTableStartAddr) (\<lambda>s1.
        bindR (jump_table_loop env parse fuel s1 (ctx_bb_id ctx) jumpTableStartAddr 0 (pathFromEntryBB ctx)) (\<lambda>s2.
        completeSimpleJumpTable32 s2 (ctx_bb_id ctx))))"

definition handleJmpTableJmpInstr ::
  "parse_env \<Rightarrow> nat \<Rightarrow> parser \<Rightarrow> cfgCreationOracle \<Rightarrow> parse_ctx \<Rightarrow> x86_instr \<Rightarrow> kptr \<Rightarrow> controlFlowInfo \<Rightarrow> handled" where
  "handleJmpTableJmpInstr env fuel parse s ctx instr instrAddr cfi =
     bindR (if destination cfi = regRelative then Inr getJmpTableBaseAddr
            else if destination cfi = memIndirect then
              Inr (if getType (memaddr cfi) = scaledSingleRegPlusOffset then getOffset (memaddr cfi) else getJmpTableBaseAddr)
            else Inl AssertFailed) (\<lambda>jmpTableBaseAddr.
     if jmpTableBaseAddr \<noteq> 0 then handleJmpAsSimpleJumpTable32 env fuel parse s ctx instr instrAddr jmpTableBaseAddr
     else block_done instrAddr (processInterproceduralJmpToFixedAddr s (ctx_bb_id ctx) instr (stumbleOntoAt ctx)))"

definition handleJmpInstr ::
  "parse_env \<Rightarrow> nat \<Rightarrow> parser \<Rightarrow> cfgCreationOracle \<Rightarrow> parse_ctx \<Rightarrow> x86_instr \<Rightarrow> kptr \<Rightarrow> controlFlowInfo \<Rightarrow> handled" where
  "handleJmpInstr env fuel parse s ctx instr instrAddr cfi =
     (let next = instrAddr + getNumBytes instr;
          jump = (\<lambda>offset. let destAddr = next + offset in
            bindR (in_fn s destAddr) (\<lambda>inside.
            if \<not> inside then
              (if matchesName (the_fn s) ''schedule'' then block_goes_on instrAddr instr (bump s (ctx_bb_id ctx) instr)
               else block_done instrAddr (processInterproceduralJmpToFixedAddr s (ctx_bb_id ctx) instr destAddr))
            else block_done instrAddr
              (processIntraproceduralJmpToFixedAddr parse s (ctx_bb_id ctx) instr destAddr (pathFromEntryBB ctx))))
      in case destination cfi of
           pcRelative \<Rightarrow> jump (offset_nbytes cfi)
         | regRelative \<Rightarrow> handleJmpTableJmpInstr env fuel parse s ctx instr instrAddr cfi
         | memIndirect \<Rightarrow> handleJmpTableJmpInstr env fuel parse s ctx instr instrAddr cfi
         | dstAbsolute \<Rightarrow>
             if farSegment cfi = 0x0010 then jump (offset_nbytes cfi - next)
             else block_done instrAddr (processDoneOrRetry s (ctx_bb_id ctx) instr)
         | _ \<Rightarrow> Inl AssertFailed)"

definition handleControlFlowInstr ::
  "parse_env \<Rightarrow> nat \<Rightarrow> parser \<Rightarrow> cfgCreationOracle \<Rightarrow> parse_ctx \<Rightarrow> x86_instr \<Rightarrow> kptr \<Rightarrow> handled" where
  "handleControlFlowInstr env fuel parse s ctx instr instrAddr =
     (let cfi = getControlFlowInfo instr in
      if isCall cfi then handleCallInstr env parse s ctx instr instrAddr cfi
      else if isBranch cfi \<and> isConditional cfi then handleConditionalBranchInstr parse s ctx instr instrAddr cfi
      else if isBranch cfi \<and> isAlways cfi then handleJmpInstr env fuel parse s ctx instr instrAddr cfi
      else if isRet cfi then block_done instrAddr (processReturn s (ctx_bb_id ctx) instr)
      else if isInt cfi \<or> isUd2 cfi then block_done instrAddr (processDoneOrRetry s (ctx_bb_id ctx) instr)
      else Inl AssertFailed)"

section \<open>Parsing a block\<close>

text \<open>What \<open>parse\<close> does before its loop, and the first address of the block.\<close>

definition parse_begin :: "u16 \<Rightarrow> simplePath \<Rightarrow> cfgCreationOracle \<Rightarrow> (parse_ctx \<times> kptr \<times> cfgCreationOracle) run" where
  "parse_begin bb_id path s =
     bindR (block_of s bb_id) (\<lambda>bb.
     bindR (sure (searchForFirstBlockStartAddrGThan (the_fn s) (bb_startAddr bb))) (\<lambda>(first_id, f).
     let s1 = s\<lparr>the_fn := f\<rparr> in
     bindR (if first_id = -1 then Inr (-1)
            else bindR (block_of s1 first_id) (\<lambda>stumbleOntoBB.
              bindR (require (bb_startAddr stumbleOntoBB > bb_startAddr bb)) (\<lambda>_. Inr (bb_startAddr stumbleOntoBB)))) (\<lambda>stumble.
     bindR (sure (findChunk (origCode f) (bb_startAddr bb) False)) (\<lambda>r.
     bindR (sure r) (\<lambda>k.
     Inr (\<lparr>ctx_bb_id = bb_id, pathFromEntryBB = path, stumbleOntoAt = stumble, firstBBIdGrStartAddr = first_id,
           theCodeChunk = origCode f ! k\<rparr>, bb_startAddr bb, s1))))))"

text \<open>\<open>kmem::getinsn\<close>; a null pointer from \<open>getinsn_general\<close> is dereferenced.\<close>

definition getinsn :: "parse_env \<Rightarrow> cfgCreationOracle \<Rightarrow> kptr \<Rightarrow> x86_instr run" where
  "getinsn env s addr =
     bindR (sure (fn_enclosesAddr (origCode (the_fn s)) addr)) (\<lambda>inside.
     if inside then may_throw s (fn_get1Insn (origCode (the_fn s)) addr) else sure (getinsn_general env addr))"

definition fetch :: "parse_env \<Rightarrow> parse_ctx \<Rightarrow> cfgCreationOracle \<Rightarrow> kptr \<Rightarrow> x86_instr run" where
  "fetch env ctx s addr =
     (if chunk_enclosesAddr (theCodeChunk ctx) addr then sure (chunk_get1Insn (theCodeChunk ctx) addr) else getinsn env s addr)"

definition left_fn :: "parse_ctx \<Rightarrow> cfgCreationOracle \<Rightarrow> kptr \<Rightarrow> bool run" where
  "left_fn ctx s addr =
     (if chunk_enclosesAddr (theCodeChunk ctx) addr then Inr False else bindR (in_fn s addr) (\<lambda>inside. Inr (\<not> inside)))"

text \<open>
  The loop of \<open>parse\<close>: \<open>codeStart\<close> and \<open>codeNum\<close> are the run of instructions that do not change the
  control flow and are not yet in the block. A step takes one unit of fuel, and so does a jump table entry;
  the blocks that a handler starts are parsed with the fuel that is left.
\<close>

primrec parse_loop ::
  "parse_env \<Rightarrow> nat \<Rightarrow> parse_ctx \<Rightarrow> kptr \<Rightarrow> kptr \<Rightarrow> nat \<Rightarrow> cfgCreationOracle \<Rightarrow> cfgCreationOracle run" where
  "parse_loop env 0 ctx currAddr codeStart codeNum s = Inl NoFuel"
| "parse_loop env (Suc fuel) ctx currAddr codeStart codeNum s =
     bindR (left_fn ctx s currAddr) (\<lambda>left.
     if left then
       bindR (processNonControlFlowCode s (ctx_bb_id ctx) codeStart codeNum) (\<lambda>s1.
       processInterproceduralFallThru s1 (ctx_bb_id ctx))
     else if currAddr = stumbleOntoAt ctx then
       bindR (processNonControlFlowCode s (ctx_bb_id ctx) codeStart codeNum) (\<lambda>s1.
       processStumbleOntoExistingBlock s1 (ctx_bb_id ctx) (firstBBIdGrStartAddr ctx))
     else
       bindR (fetch env ctx s currAddr) (\<lambda>instr.
       if \<not> controlFlowInstruction (getControlFlowInfo instr) then
         parse_loop env fuel ctx (currAddr + getNumBytes instr) codeStart (codeNum + 1) s
       else
         bindR (processNonControlFlowCode s (ctx_bb_id ctx) codeStart codeNum) (\<lambda>s1.
         bindR (handleControlFlowInstr env fuel
             (\<lambda>bb_id path s'. bindR (parse_begin bb_id path s') (\<lambda>(ctx', addr, s''). parse_loop env fuel ctx' addr addr 0 s''))
             s1 ctx instr currAddr) (\<lambda>(keepParsingSameBlock, instrAddr, s2).
         if \<not> keepParsingSameBlock then Inr s2
         else
           let next = (if instrAddr \<noteq> currAddr then instrAddr else currAddr + getNumBytes instr)
           in parse_loop env fuel ctx next next 0 s2))))"

definition parse :: "parse_env \<Rightarrow> nat \<Rightarrow> parser" where
  "parse env fuel bb_id path s =
     bindR (parse_begin bb_id path s) (\<lambda>(ctx, addr, s1). parse_loop env fuel ctx addr addr 0 s1)"

section \<open>Parsing a function\<close>

text \<open>The dictionary of chunk sizes, by start address.\<close>

fun sizes_set :: "kptr \<Rightarrow> u32 \<Rightarrow> (kptr \<times> u32) list \<Rightarrow> (kptr \<times> u32) list" where
  "sizes_set k v [] = [(k, v)]"
| "sizes_set k v ((k', v') # xs) = (if k' = k then (k, v) # xs else (k', v') # sizes_set k v xs)"

fun chunk_sizes :: "nat list \<Rightarrow> nat \<Rightarrow> fnCode \<Rightarrow> (kptr \<times> u32) list \<Rightarrow> (kptr \<times> u32) list" where
  "chunk_sizes notToTrim ndx [] sizes = sizes"
| "chunk_sizes notToTrim ndx (c # cs) sizes =
     chunk_sizes notToTrim (ndx + 1) cs
       (if numBytes c > 0 then sizes_set (startAddr c) (if ndx \<in> set notToTrim then numBytes c else 0) sizes else sizes)"

fun max_chunk_sizes :: "fnCode \<Rightarrow> fnCode \<Rightarrow> basicblock list \<Rightarrow> (kptr \<times> u32) list \<Rightarrow> (kptr \<times> u32) list option" where
  "max_chunk_sizes iCode code [] sizes = Some sizes"
| "max_chunk_sizes iCode code (bb # bbs) sizes = do {
     r \<leftarrow> findChunk iCode (bb_startAddr bb) False;
     k \<leftarrow> r;
     let chunkStartAddr = startAddr (iCode ! k);
     assert (bb_startAddr bb \<ge> chunkStartAddr);
     assert (getEndAddr bb < chunkStartAddr + numBytes (iCode ! k));
     theChunkSize \<leftarrow> map_of sizes chunkStartAddr;
     let sizes' = sizes_set chunkStartAddr (max theChunkSize (getEndAddrPlus1 bb - chunkStartAddr)) sizes;
     low \<leftarrow> fn_enclosesAddr code (bb_startAddr bb);
     high \<leftarrow> (if low then fn_enclosesAddr code (getEndAddr bb) else Some False);
     assert high;
     max_chunk_sizes iCode code bbs sizes'
   }"

definition finish_parse :: "fnCode \<Rightarrow> nat list \<Rightarrow> function_t \<Rightarrow> function_t option" where
  "finish_parse iCode chunkNdxsNotToTrim f = do {
     sizes \<leftarrow> max_chunk_sizes iCode (origCode f) (basic_blocks f) (chunk_sizes chunkNdxsNotToTrim 0 iCode []);
     code \<leftarrow> shrinkChunksIfAppropriate (origCode f) sizes;
     f' \<leftarrow> makeSorted (f\<lparr>origCode := code\<rparr>);
     assert (length (unsorted_blocks f') = 0);
     Some f'
   }"

text \<open>
  The oracle at the start has the function and the dictionary, list and statistics that the caller passes
  by reference; the result says whether \<open>parsefailed\<close> was thrown, and has all of them.
\<close>

definition parseCFG ::
  "parse_env \<Rightarrow> nat \<Rightarrow> fnCode \<Rightarrow> nat list \<Rightarrow> cfgCreationOracle \<Rightarrow> (bool \<times> cfgCreationOracle) run" where
  "parseCFG env fuel iCode chunkNdxsNotToTrim s =
     bindR (require (basic_blocks (the_fn s) = [])) (\<lambda>_.
     bindR (new_block s (entryAddr (the_fn s)) (-1)) (\<lambda>(entry_bb_id, s1).
     bindR (require (origCode (the_fn s1) = [])) (\<lambda>_.
     case parse env fuel entry_bb_id [] (s1\<lparr>the_fn := (the_fn s1)\<lparr>origCode := iCode\<rparr>, allJumpTableStartAddrs := []\<rparr>) of
       Inl (ParseFailed s2) \<Rightarrow> Inr (True, s2\<lparr>the_fn := fry (the_fn s2)\<rparr>)
     | Inl e \<Rightarrow> Inl e
     | Inr s2 \<Rightarrow> bindR (to_fn s2 (finish_parse iCode chunkNdxsNotToTrim (the_fn s2))) (\<lambda>s3. Inr (False, s3)))))"

section \<open>Examples\<close>

definition code_insn :: "u32 \<Rightarrow> controlFlowInfo \<Rightarrow> x86_instr" where
  "code_insn n cfi = (demo_insn n)\<lparr>getControlFlowInfo := cfi\<lparr>controlFlowInstruction := True\<rparr>\<rparr>"

definition plain_cfi :: controlFlowInfo where
  "plain_cfi = getControlFlowInfo (demo_insn 1)"

definition jcc_insn :: "u32 \<Rightarrow> x86_instr" where
  "jcc_insn offset = code_insn 2 (plain_cfi\<lparr>isBranch := True, isConditional := True, destination := pcRelative, offset_nbytes := offset\<rparr>)"

definition jmp_insn :: "u32 \<Rightarrow> x86_instr" where
  "jmp_insn offset = code_insn 2 (plain_cfi\<lparr>isBranch := True, isAlways := True, destination := pcRelative, offset_nbytes := offset\<rparr>)"

definition ret_insn :: x86_instr where
  "ret_insn = code_insn 1 (plain_cfi\<lparr>isRet := True\<rparr>)"

text \<open>At 100 an ordinary instruction, at 101 a branch to 110, at 103 a return, at 110 a jump to 101.\<close>

definition retry_code :: fnCode where
  "retry_code = [\<lparr>startAddr = 100, theCode = insnVec_of_insns [demo_insn 1, jcc_insn 7, ret_insn, demo_insn 6, jmp_insn (-11)]\<rparr>]"

definition demo_oracle :: cfgCreationOracle where
  "demo_oracle = \<lparr>the_fn = fn_new 100 ''demo'', interProcJumpsAndCalls = {}, hiddenFnsToParse = [], allJumpTableStartAddrs = [],
     theBBParsingStats = bbParsingStats_new\<rparr>"

definition demo_env :: parse_env where
  "demo_env = \<lparr>functionsThatReturnForTheCaller = [], getinsn_general = (\<lambda>_. None), getdbwd = (\<lambda>_. 0)\<rparr>"


end
