(* ===== verification/Spec2Isabelle.thy ===== *)
theory Spec2Isabelle
  imports DriverSession KerninstMalloc Immediates DictionaryMap Springboard PatchHeap RegFixpoint FnParse
begin

text \<open>
  Verification of kerninst, the dynamic kernel instrumentation system: the Linux driver that
  patches a running kernel on behalf of a daemon, and the daemon's own data structures.

  Kerninst\_Prelude holds byte addressed kernel memory and the array and chain idioms of the C
  code; LoggedWrites the driver's undo log (\<open>physMem.c\<close>, \<open>loggedWrites.c\<close>).
\<close>

end
